(* ===== verification/Prelude.thy ===== *)
theory Prelude
  imports Main "HOL-Library.Word"
begin

text \<open>
  Shared vocabulary of the development: the machine types of the C and C++ sources, the
  big-endian 32-bit encoding that the firmware, the driver and the authentication code all
  use on the wire, the index arithmetic of the ring buffers, and the fact collections that
  the component theories fill and use.
\<close>

unbundle bit_operations_syntax

section \<open>Machine types\<close>

type_synonym u8 = "8 word"
type_synonym u16 = "16 word"
type_synonym u32 = "32 word"
type_synonym u64 = "64 word"

section \<open>Fact collections\<close>

named_theorems wire_simps \<open>encoding and decoding of frames and words\<close>
named_theorems ring_simps \<open>index arithmetic of ring buffers\<close>
named_theorems frame_simps \<open>state components an operation leaves alone\<close>
named_theorems inv_intros \<open>preservation of component invariants\<close>

section \<open>Big-endian words\<close>

definition be32_bytes :: "u32 \<Rightarrow> u8 list" where
  "be32_bytes v = [ucast (drop_bit 24 v), ucast (drop_bit 16 v), ucast (drop_bit 8 v), ucast v]"

definition be32_word :: "u8 \<Rightarrow> u8 \<Rightarrow> u8 \<Rightarrow> u8 \<Rightarrow> u32" where
  "be32_word a b c d =
     push_bit 24 (ucast a) OR push_bit 16 (ucast b) OR push_bit 8 (ucast c) OR ucast d"

lemma length_be32_bytes [simp]: "length (be32_bytes v) = 4"
  by (simp add: be32_bytes_def)

lemma be32_word_bytes [wire_simps, simp]:
  "be32_word (ucast (drop_bit 24 v)) (ucast (drop_bit 16 v)) (ucast (drop_bit 8 v)) (ucast v) = v"
  unfolding be32_word_def
proof (rule bit_word_eqI)
  fix n assume n: "n < LENGTH(32)"
  then consider "n < 8" | "8 \<le> n" "n < 16" | "16 \<le> n" "n < 24" | "24 \<le> n" "n < 32"
    by fastforce
  then show "bit (push_bit 24 (ucast (ucast (drop_bit 24 v) :: u8)) OR
               push_bit 16 (ucast (ucast (drop_bit 16 v) :: u8)) OR
               push_bit 8 (ucast (ucast (drop_bit 8 v) :: u8)) OR ucast (ucast v :: u8) :: u32) n
             = bit v n"
    by cases (auto simp: bit_simps)
qed

lemma bit_u8_less [simp]: "bit (w :: u8) (n + 8) = False" "bit (w :: u8) (8 + n) = False"
  "bit (w :: u8) (16 + n) = False" "bit (w :: u8) (24 + n) = False"
  using bit_imp_le_length [of w] by (auto dest!: bit_imp_le_length)

lemma be32_bytes_word [wire_simps, simp]:
  "be32_bytes (be32_word a b c d) = [a, b, c, d]"
  unfolding be32_bytes_def be32_word_def
  by (auto intro!: bit_word_eqI simp: bit_simps)

lemma be32_word_0 [simp]: "be32_word 0 0 0 0 = 0"
  by (simp add: be32_word_def)

lemma be32_bytes_0 [simp]: "be32_bytes 0 = [0, 0, 0, 0]"
  by (simp add: be32_bytes_def)

section \<open>Ring buffers\<close>

text \<open>
  The queue a ring buffer stands for: \<open>n\<close> slots starting at index \<open>t\<close>, wrapping around at
  the end of the buffer. Appending writes the slot after the last one, removing advances the
  start; both are the same lemmas for every ring of the system.
\<close>

definition ring_view :: "'a list \<Rightarrow> nat \<Rightarrow> nat \<Rightarrow> 'a list" where
  "ring_view buf t n = map (\<lambda>i. buf ! ((t + i) mod length buf)) [0..<n]"

lemma length_ring_view [simp]: "length (ring_view buf t n) = n"
  by (simp add: ring_view_def)

lemma ring_view_Nil [simp]: "ring_view buf t n = [] \<longleftrightarrow> n = 0"
  by (simp add: ring_view_def)

lemma ring_view_0 [simp]: "ring_view buf t 0 = []"
  by (simp add: ring_view_def)

lemma ring_index_less:
  fixes t i j m :: nat
  assumes "i < j" "j < m"
  shows "(t + i) mod m \<noteq> (t + j) mod m"
proof
  assume "(t + i) mod m = (t + j) mod m"
  then have "m dvd (t + j) - (t + i)"
    using assms mod_eq_dvd_iff_nat [of "t + i" "t + j" m] by simp
  then show False using assms by (auto dest: dvd_imp_le)
qed

lemma ring_view_push:
  assumes "n < length buf"
  shows "ring_view (buf[(t + n) mod length buf := x]) t (Suc n) = ring_view buf t n @ [x]"
proof -
  have "(t + n) mod length buf \<noteq> (t + i) mod length buf" if "i < n" for i
    using ring_index_less [OF that assms, of t] by simp
  moreover have "(t + n) mod length buf < length buf"
    using assms by (intro mod_less_divisor) linarith
  ultimately show ?thesis by (auto simp: ring_view_def)
qed

lemma ring_view_pop:
  "ring_view buf t (Suc n) = buf ! (t mod length buf) # ring_view buf (Suc t mod length buf) n"
  unfolding ring_view_def upt_conv_Cons [OF zero_less_Suc] list.map
  by (simp add: map_Suc_upt [symmetric] mod_add_left_eq del: map_Suc_upt upt_Suc)

section \<open>Bit masks\<close>

text \<open>Reading one field of a flag word: push the mask inwards, where it meets literals.\<close>

lemma mask_simps:
  fixes x a k :: "'a :: len word"
  shows "(x AND a) AND k = x AND (a AND k)" "(x OR a) AND k = (x AND k) OR (a AND k)"
  by (simp_all add: and.assoc bit.conj_disj_distrib2)

text \<open>The command byte of the register protocol: bit 7 is the write flag, the rest the address.\<close>

lemma word_less_0x80:
  fixes c :: u8
  assumes "c < 0x80"
  shows "c AND 0x80 = 0" "c AND 0x7F = c"
proof -
  have "c = take_bit 7 c"
    using assms by (simp add: word_unat_eq_iff unsigned_take_bit_eq take_bit_eq_mod unat_mod_distrib word_less_nat_alt)
  then have m: "c = c AND 0x7F" by (simp add: take_bit_eq_mask mask_eq_exp_minus_1)
  then show "c AND 0x7F = c" by simp
  have "c AND 0x80 = c AND (0x7F AND 0x80)" by (metis m and.assoc)
  then show "c AND 0x80 = 0" by simp
qed

end
