(* ===== verification/Queue_Interface.thy ===== *)
theory Queue_Interface
  imports Prelude
begin

text \<open>
  The contract of a bounded first-in first-out queue that refuses an element when it is
  full. The acquisition pipeline has one such queue per layer: the sample FIFO of the
  firmware, the kernel's kfifo under the driver, the ring buffer of the device service.
  Each provider interprets the locale; the clients reason from its lemmas.
\<close>

datatype 'v qop = Put 'v | Get

fun queue_run :: "('v \<Rightarrow> 'q \<Rightarrow> 'q) \<Rightarrow> ('q \<Rightarrow> ('a \<times> 'q) option) \<Rightarrow> 'v qop list \<Rightarrow> 'q \<Rightarrow> 'a list \<times> 'q"
where
  "queue_run put get [] q = ([], q)"
| "queue_run put get (Put v # ops) q = queue_run put get ops (put v q)"
| "queue_run put get (Get # ops) q =
     (case get q of
        None \<Rightarrow> queue_run put get ops q
      | Some (x, q') \<Rightarrow> (case queue_run put get ops q' of (xs, q'') \<Rightarrow> (x # xs, q'')))"

fun queue_accepted ::
  "('q \<Rightarrow> 'a list) \<Rightarrow> ('q \<Rightarrow> nat) \<Rightarrow> ('q \<Rightarrow> 'v \<Rightarrow> 'a) \<Rightarrow> ('v \<Rightarrow> 'q \<Rightarrow> 'q) \<Rightarrow>
   ('q \<Rightarrow> ('a \<times> 'q) option) \<Rightarrow> 'v qop list \<Rightarrow> 'q \<Rightarrow> 'a list"
where
  "queue_accepted items cap stamp put get [] q = []"
| "queue_accepted items cap stamp put get (Put v # ops) q =
     (if length (items q) < cap q then [stamp q v] else [])
       @ queue_accepted items cap stamp put get ops (put v q)"
| "queue_accepted items cap stamp put get (Get # ops) q =
     (case get q of
        None \<Rightarrow> queue_accepted items cap stamp put get ops q
      | Some (x, q') \<Rightarrow> queue_accepted items cap stamp put get ops q')"

locale bounded_queue =
  fixes inv :: "'q \<Rightarrow> bool"
    and items :: "'q \<Rightarrow> 'a list"
    and cap :: "'q \<Rightarrow> nat"
    and stamp :: "'q \<Rightarrow> 'v \<Rightarrow> 'a"
    and put :: "'v \<Rightarrow> 'q \<Rightarrow> 'q"
    and get :: "'q \<Rightarrow> ('a \<times> 'q) option"
  assumes items_cap: "inv q \<Longrightarrow> length (items q) \<le> cap q"
    and put_room: "inv q \<Longrightarrow> length (items q) < cap q \<Longrightarrow> items (put v q) = items q @ [stamp q v]"
    and put_full: "inv q \<Longrightarrow> length (items q) = cap q \<Longrightarrow> items (put v q) = items q"
    and put_inv: "inv q \<Longrightarrow> inv (put v q)"
    and put_cap: "inv q \<Longrightarrow> cap (put v q) = cap q"
    and get_none: "inv q \<Longrightarrow> items q = [] \<Longrightarrow> get q = None"
    and get_some: "inv q \<Longrightarrow> items q = x # xs \<Longrightarrow>
          \<exists>q'. get q = Some (x, q') \<and> inv q' \<and> items q' = xs \<and> cap q' = cap q"
begin

abbreviation run :: "'v qop list \<Rightarrow> 'q \<Rightarrow> 'a list \<times> 'q" where
  "run \<equiv> queue_run put get"

abbreviation accepted :: "'v qop list \<Rightarrow> 'q \<Rightarrow> 'a list" where
  "accepted \<equiv> queue_accepted items cap stamp put get"

lemma get_cases:
  assumes "inv q"
  obtains (empty) "items q = []" "get q = None"
    | (item) x q' where "get q = Some (x, q')" "inv q'" "items q = x # items q'" "cap q' = cap q"
proof (cases "items q")
  case Nil
  then show ?thesis using get_none [OF assms Nil] by (rule empty)
next
  case (Cons x xs)
  then show ?thesis using get_some [OF assms Cons] item by auto
qed

lemma run_inv: "inv q \<Longrightarrow> inv (snd (run ops q)) \<and> cap (snd (run ops q)) = cap q"
proof (induction ops arbitrary: q)
  case (Cons op ops)
  show ?case
  proof (cases op)
    case (Put v)
    then show ?thesis using Cons by (simp add: put_inv put_cap)
  next
    case Get
    from Cons.prems show ?thesis
    proof (cases q rule: get_cases)
      case empty
      then show ?thesis using Get Cons by simp
    next
      case (item x q')
      then show ?thesis using Get Cons.IH [of q'] by (cases "run ops q'") simp
    qed
  qed
qed simp

text \<open>
  First in, first out: what came out, followed by what is still queued, is what was queued
  at first followed by what was accepted since, in that order.
\<close>

lemma run_fifo: "inv q \<Longrightarrow> fst (run ops q) @ items (snd (run ops q)) = items q @ accepted ops q"
proof (induction ops arbitrary: q)
  case (Cons op ops)
  show ?case
  proof (cases op)
    case (Put v)
    show ?thesis
    proof (cases "length (items q) < cap q")
      case True
      then show ?thesis using Put Cons by (simp add: put_inv put_room)
    next
      case False
      then have "length (items q) = cap q" using items_cap [OF Cons.prems] by simp
      then show ?thesis using Put Cons by (simp add: put_inv put_full)
    qed
  next
    case Get
    from Cons.prems show ?thesis
    proof (cases q rule: get_cases)
      case empty
      then show ?thesis using Get Cons by simp
    next
      case (item x q')
      then show ?thesis using Get Cons.IH [of q'] by (auto split: prod.splits)
    qed
  qed
qed simp

lemma run_bound: "inv q \<Longrightarrow> length (items (snd (run ops q))) \<le> cap q"
  using run_inv [of q ops] items_cap [of "snd (run ops q)"] by simp

end

end
