(* ===== verification/Driver.thy ===== *)
theory Driver
  imports Queue_Interface "HOL-Library.Monad_Syntax"
begin

text \<open>
  The Linux driver (driver/custom-acq/custom\_acq.c): register access over two SPI frames, the
  sysfs attributes, the threaded interrupt handler that drains the board into a kfifo under one
  of three drop policies, and the character device.

  The kernel is not part of the program. \<open>spi_sync_transfer\<close> is a parameter of every function
  that talks to the bus; the kfifo, \<open>sysfs_streq\<close>, \<open>kstrtou32\<close> and \<open>hex2bin\<close> are the fields of
  \<open>kernel_api\<close>; what is relied upon of the kfifo is the predicate \<open>kfifo_laws\<close>. The two mutexes make
  a register operation and a kfifo update one step each. Sleeping and the tracepoints change no
  state; formatting of a number for sysfs is left out, so a \<open>show\<close> function returns the number.
\<close>

section \<open>Data\<close>

datatype errno = EIO | EINVAL | EAGAIN | ETIMEDOUT | ENOKEY | ENOMEM | EFAULT | ERESTARTSYS | Errno nat

type_synonym s64 = "64 word"

record custom_acq_sample =
  sm_seq :: u32
  sm_value :: u32
  sm_irq_ts_ns :: s64

datatype custom_acq_drop_policy = DROP_POLICY_NEWEST | DROP_POLICY_OLDEST | DROP_POLICY_DOWNSAMPLE

text \<open>
  The kernel functions the driver calls. \<open>kf_to_user q n\<close> copies at most \<open>n\<close> elements and returns
  the error, the elements copied and the queue after it.
\<close>

record 'k kernel_api =
  kf_put :: "custom_acq_sample \<Rightarrow> 'k \<Rightarrow> bool \<times> 'k"
  kf_get :: "'k \<Rightarrow> (custom_acq_sample \<times> 'k) option"
  kf_is_full :: "'k \<Rightarrow> bool"
  kf_is_empty :: "'k \<Rightarrow> bool"
  kf_len :: "'k \<Rightarrow> nat"
  kf_to_user :: "'k \<Rightarrow> nat \<Rightarrow> errno option \<times> custom_acq_sample list \<times> 'k"
  k_streq :: "string \<Rightarrow> string \<Rightarrow> bool"
  k_strtou32 :: "string \<Rightarrow> errno + u32"
  k_hex2bin :: "string \<Rightarrow> nat \<Rightarrow> u8 list option"

text \<open>The module parameters that are only read.\<close>

record module_params =
  drop_policy :: string
  downsample_n :: u32
  fault_drain_delay_us :: u32
  fault_drop_every :: u32
  fault_spi_error_every :: u32

text \<open>
  \<open>struct custom_acq\<close>, with the bus it is bound to and the two module globals that change,
  \<open>fault_reg_reads\<close> and \<open>fault_stall_ms\<close>. \<open>wakeups\<close> counts the wake-ups of the wait queue.
\<close>

record ('b, 'k) custom_acq =
  acq_spi :: 'b
  irq_marker :: bool
  irq_marker_state :: bool
  samples :: 'k
  kfifo_overflow :: u32
  policy_dropped :: u32
  downsample_counter :: u32
  irq_ts_ns :: s64
  fault_reg_reads :: u32
  fault_stall_ms :: u32
  wakeups :: nat

type_synonym 'b spi_bus = "'b \<Rightarrow> u8 list \<Rightarrow> (errno + u8 list) \<times> 'b"

abbreviation (input) "SAMPLE_KFIFO_SIZE \<equiv> 128 :: nat"
abbreviation (input) "DRAIN_MAX_ERRORS \<equiv> 3 :: u32"
abbreviation (input) "CMD_NOP \<equiv> 0x7F :: u8"

section \<open>Register access\<close>

definition custom_acq_get_drop_policy :: "'k kernel_api \<Rightarrow> module_params \<Rightarrow> custom_acq_drop_policy" where
  "custom_acq_get_drop_policy k prm =
     (if k_streq k (drop_policy prm) ''oldest'' then DROP_POLICY_OLDEST
      else if k_streq k (drop_policy prm) ''downsample'' then DROP_POLICY_DOWNSAMPLE
      else DROP_POLICY_NEWEST)"

definition custom_acq_xfer :: "'b spi_bus \<Rightarrow> 'b \<Rightarrow> u8 \<Rightarrow> u32 \<Rightarrow> (errno + u8 list) \<times> 'b" where
  "custom_acq_xfer X b cmd data =
     X b [cmd, ucast (drop_bit 24 data AND 0xFF), ucast (drop_bit 16 data AND 0xFF),
          ucast (drop_bit 8 data AND 0xFF), ucast (data AND 0xFF)]"

text \<open>
  \<open>fault_spi_error_every && atomic_inc_return(&fault_reg_reads) % fault_spi_error_every == 0\<close>:
  the counter moves only when the knob is set.
\<close>

definition fault_spi_error ::
  "module_params \<Rightarrow> ('b, 'k) custom_acq \<Rightarrow> bool \<times> ('b, 'k) custom_acq" where
  "fault_spi_error prm priv =
     (if fault_spi_error_every prm \<noteq> 0
      then let n = fault_reg_reads priv + 1
           in (n mod fault_spi_error_every prm = 0, priv\<lparr>fault_reg_reads := n\<rparr>)
      else (False, priv))"

definition custom_acq_reg_read ::
  "'b spi_bus \<Rightarrow> module_params \<Rightarrow> u8 \<Rightarrow> ('b, 'k) custom_acq \<Rightarrow> (errno + u32) \<times> ('b, 'k) custom_acq" where
  "custom_acq_reg_read X prm addr priv0 =
     (let (fault, priv) = fault_spi_error prm priv0
      in if fault then (Inl EIO, priv)
         else case custom_acq_xfer X (acq_spi priv) addr 0 of
           (Inl e, b1) \<Rightarrow> (Inl e, priv\<lparr>acq_spi := b1\<rparr>)
         | (Inr rx1, b1) \<Rightarrow>
             (case custom_acq_xfer X b1 CMD_NOP 0 of
                (Inl e, b2) \<Rightarrow> (Inl e, priv\<lparr>acq_spi := b2\<rparr>)
              | (Inr rx, b2) \<Rightarrow>
                  (if rx ! 0 \<noteq> addr then (Inl EIO, priv\<lparr>acq_spi := b2\<rparr>)
                   else (Inr (be32_word (rx ! 1) (rx ! 2) (rx ! 3) (rx ! 4)), priv\<lparr>acq_spi := b2\<rparr>))))"

definition custom_acq_reg_write ::
  "'b spi_bus \<Rightarrow> u8 \<Rightarrow> u32 \<Rightarrow> ('b, 'k) custom_acq \<Rightarrow> (errno + unit) \<times> ('b, 'k) custom_acq" where
  "custom_acq_reg_write X addr val priv =
     (let cmd = addr OR 0x80
      in case custom_acq_xfer X (acq_spi priv) cmd val of
           (Inl e, b1) \<Rightarrow> (Inl e, priv\<lparr>acq_spi := b1\<rparr>)
         | (Inr rx1, b1) \<Rightarrow>
             (case custom_acq_xfer X b1 CMD_NOP 0 of
                (Inl e, b2) \<Rightarrow> (Inl e, priv\<lparr>acq_spi := b2\<rparr>)
              | (Inr rx, b2) \<Rightarrow>
                  (if rx ! 0 \<noteq> cmd then (Inl EIO, priv\<lparr>acq_spi := b2\<rparr>)
                   else (Inr (), priv\<lparr>acq_spi := b2\<rparr>))))"

section \<open>sysfs attributes\<close>

text \<open>A store returns the number of bytes consumed, which is the length of the buffer.\<close>

definition control_store ::
  "'b spi_bus \<Rightarrow> 'k kernel_api \<Rightarrow> string \<Rightarrow> ('b, 'k) custom_acq \<Rightarrow> (errno + nat) \<times> ('b, 'k) custom_acq" where
  "control_store X k buf priv =
     (case k_strtou32 k buf of
        Inl e \<Rightarrow> (Inl e, priv)
      | Inr val \<Rightarrow>
          (case custom_acq_reg_write X 0x03 (val AND 0x01) priv of
             (Inl e, priv1) \<Rightarrow> (Inl e, priv1)
           | (Inr _, priv1) \<Rightarrow> (Inr (length buf), priv1)))"

definition sample_rate_store ::
  "'b spi_bus \<Rightarrow> 'k kernel_api \<Rightarrow> string \<Rightarrow> ('b, 'k) custom_acq \<Rightarrow> (errno + nat) \<times> ('b, 'k) custom_acq" where
  "sample_rate_store X k buf priv =
     (case k_strtou32 k buf of
        Inl e \<Rightarrow> (Inl e, priv)
      | Inr val \<Rightarrow>
          (if val < 1 \<or> val > 10000 then (Inl EINVAL, priv)
           else case custom_acq_reg_write X 0x04 val priv of
             (Inl e, priv1) \<Rightarrow> (Inl e, priv1)
           | (Inr _, priv1) \<Rightarrow> (Inr (length buf), priv1)))"

text \<open>The attributes that show one register.\<close>

definition sample_rate_show :: "'b spi_bus \<Rightarrow> module_params \<Rightarrow> ('b, 'k) custom_acq \<Rightarrow> (errno + u32) \<times> ('b, 'k) custom_acq" where
  "sample_rate_show X prm = custom_acq_reg_read X prm 0x04"

definition fifo_level_show :: "'b spi_bus \<Rightarrow> module_params \<Rightarrow> ('b, 'k) custom_acq \<Rightarrow> (errno + u32) \<times> ('b, 'k) custom_acq" where
  "fifo_level_show X prm = custom_acq_reg_read X prm 0x05"

definition data_val_show :: "'b spi_bus \<Rightarrow> module_params \<Rightarrow> ('b, 'k) custom_acq \<Rightarrow> (errno + u32) \<times> ('b, 'k) custom_acq" where
  "data_val_show X prm = custom_acq_reg_read X prm 0x07"

definition device_id_show :: "'b spi_bus \<Rightarrow> module_params \<Rightarrow> ('b, 'k) custom_acq \<Rightarrow> (errno + u32) \<times> ('b, 'k) custom_acq" where
  "device_id_show X prm = custom_acq_reg_read X prm 0x00"

definition fw_version_show :: "'b spi_bus \<Rightarrow> module_params \<Rightarrow> ('b, 'k) custom_acq \<Rightarrow> (errno + u32) \<times> ('b, 'k) custom_acq" where
  "fw_version_show X prm = custom_acq_reg_read X prm 0x01"

definition spi_rearm_fail_show :: "'b spi_bus \<Rightarrow> module_params \<Rightarrow> ('b, 'k) custom_acq \<Rightarrow> (errno + u32) \<times> ('b, 'k) custom_acq" where
  "spi_rearm_fail_show X prm = custom_acq_reg_read X prm 0x09"

definition spi_error_count_show :: "'b spi_bus \<Rightarrow> module_params \<Rightarrow> ('b, 'k) custom_acq \<Rightarrow> (errno + u32) \<times> ('b, 'k) custom_acq" where
  "spi_error_count_show X prm = custom_acq_reg_read X prm 0x0A"

definition auth_cycles_show :: "'b spi_bus \<Rightarrow> module_params \<Rightarrow> ('b, 'k) custom_acq \<Rightarrow> (errno + u32) \<times> ('b, 'k) custom_acq" where
  "auth_cycles_show X prm = custom_acq_reg_read X prm 0x19"

text \<open>The attributes that show a field of the driver.\<close>

definition kfifo_level_show :: "'k kernel_api \<Rightarrow> ('b, 'k) custom_acq \<Rightarrow> nat" where
  "kfifo_level_show k priv = kf_len k (samples priv)"

definition kfifo_overflow_show :: "('b, 'k) custom_acq \<Rightarrow> u32" where
  "kfifo_overflow_show priv = kfifo_overflow priv"

definition policy_dropped_show :: "('b, 'k) custom_acq \<Rightarrow> u32" where
  "policy_dropped_show priv = policy_dropped priv"

text \<open>Authentication: the loop that writes the nonce, and the whole store.\<close>

fun auth_write_nonce ::
  "'b spi_bus \<Rightarrow> u8 list \<Rightarrow> nat list \<Rightarrow> ('b, 'k) custom_acq \<Rightarrow> (errno + unit) \<times> ('b, 'k) custom_acq" where
  "auth_write_nonce X nonce [] priv = (Inr (), priv)"
| "auth_write_nonce X nonce (i # is) priv =
     (case custom_acq_reg_write X (0x10 + of_nat i)
             (be32_word (nonce ! (4 * i)) (nonce ! (4 * i + 1)) (nonce ! (4 * i + 2)) (nonce ! (4 * i + 3))) priv of
        (Inl e, priv1) \<Rightarrow> (Inl e, priv1)
      | (Inr _, priv1) \<Rightarrow> auth_write_nonce X nonce is priv1)"

definition auth_challenge_store ::
  "'b spi_bus \<Rightarrow> 'k kernel_api \<Rightarrow> string \<Rightarrow> ('b, 'k) custom_acq \<Rightarrow> (errno + nat) \<times> ('b, 'k) custom_acq" where
  "auth_challenge_store X k buf priv =
     (if length buf < 32 then (Inl EINVAL, priv)
      else case k_hex2bin k buf 16 of
        None \<Rightarrow> (Inl EINVAL, priv)
      | Some nonce \<Rightarrow>
          (case auth_write_nonce X nonce [0..<4] priv of
             (Inl e, priv1) \<Rightarrow> (Inl e, priv1)
           | (Inr _, priv1) \<Rightarrow>
               (case custom_acq_reg_write X 0x14 1 priv1 of
                  (Inl e, priv2) \<Rightarrow> (Inl e, priv2)
                | (Inr _, priv2) \<Rightarrow> (Inr (length buf), priv2))))"

text \<open>The status poll: \<open>tries\<close> counts down from 100; the last status read is returned.\<close>

fun auth_poll ::
  "'b spi_bus \<Rightarrow> module_params \<Rightarrow> nat \<Rightarrow> u32 \<Rightarrow> ('b, 'k) custom_acq \<Rightarrow> (errno + u32) \<times> ('b, 'k) custom_acq" where
  "auth_poll X prm 0 status priv = (Inr status, priv)"
| "auth_poll X prm (Suc tries) status priv =
     (case custom_acq_reg_read X prm 0x02 priv of
        (Inl e, priv1) \<Rightarrow> (Inl e, priv1)
      | (Inr st, priv1) \<Rightarrow>
          (if st AND 0x20 \<noteq> 0 then (Inr st, priv1) else auth_poll X prm tries st priv1))"

fun auth_read_mac ::
  "'b spi_bus \<Rightarrow> module_params \<Rightarrow> nat list \<Rightarrow> ('b, 'k) custom_acq \<Rightarrow> (errno + u8 list) \<times> ('b, 'k) custom_acq" where
  "auth_read_mac X prm [] priv = (Inr [], priv)"
| "auth_read_mac X prm (i # is) priv =
     (case custom_acq_reg_read X prm (0x15 + of_nat i) priv of
        (Inl e, priv1) \<Rightarrow> (Inl e, priv1)
      | (Inr word, priv1) \<Rightarrow>
          (case auth_read_mac X prm is priv1 of
             (Inl e, priv2) \<Rightarrow> (Inl e, priv2)
           | (Inr mac, priv2) \<Rightarrow> (Inr (be32_bytes word @ mac), priv2)))"

definition auth_response_show ::
  "'b spi_bus \<Rightarrow> module_params \<Rightarrow> ('b, 'k) custom_acq \<Rightarrow> (errno + u8 list) \<times> ('b, 'k) custom_acq" where
  "auth_response_show X prm priv =
     (case auth_poll X prm 100 0 priv of
        (Inl e, priv1) \<Rightarrow> (Inl e, priv1)
      | (Inr status, priv1) \<Rightarrow>
          (if status AND 0x20 = 0 then (Inl ETIMEDOUT, priv1)
           else if status AND 0x40 \<noteq> 0 then (Inl ENOKEY, priv1)
           else auth_read_mac X prm [0..<4] priv1))"

section \<open>Interrupt handlers\<close>

definition custom_acq_read_sample ::
  "'b spi_bus \<Rightarrow> module_params \<Rightarrow> ('b, 'k) custom_acq \<Rightarrow> (errno + u32 \<times> u32) \<times> ('b, 'k) custom_acq" where
  "custom_acq_read_sample X prm priv =
     (case custom_acq_reg_read X prm 0x06 priv of
        (Inl e, priv1) \<Rightarrow> (Inl e, priv1)
      | (Inr seq, priv1) \<Rightarrow>
          (case custom_acq_reg_read X prm 0x07 priv1 of
             (Inl e, priv2) \<Rightarrow> (Inl e, priv2)
           | (Inr val, priv2) \<Rightarrow> (Inr (seq, val), priv2)))"

text \<open>\<open>now\<close> is \<open>ktime_get_ns()\<close>.\<close>

definition custom_acq_irq_hard :: "s64 \<Rightarrow> ('b, 'k) custom_acq \<Rightarrow> ('b, 'k) custom_acq" where
  "custom_acq_irq_hard now priv =
     (let priv1 = priv\<lparr>irq_ts_ns := now\<rparr>
      in if irq_marker priv1 then priv1\<lparr>irq_marker_state := \<not> irq_marker_state priv1\<rparr> else priv1)"

text \<open>The locked section of the drain loop: evict under the policy \<open>oldest\<close>, then put.\<close>

definition evict_oldest ::
  "'k kernel_api \<Rightarrow> module_params \<Rightarrow> ('b, 'k) custom_acq \<Rightarrow> ('b, 'k) custom_acq" where
  "evict_oldest k prm priv =
     (if custom_acq_get_drop_policy k prm = DROP_POLICY_OLDEST \<and> kf_is_full k (samples priv)
      then (case kf_get k (samples priv) of
              Some (discard, q) \<Rightarrow> priv\<lparr>samples := q, policy_dropped := policy_dropped priv + 1\<rparr>
            | None \<Rightarrow> priv\<lparr>policy_dropped := policy_dropped priv + 1\<rparr>)
      else priv)"

definition queue_sample ::
  "'k kernel_api \<Rightarrow> module_params \<Rightarrow> custom_acq_sample \<Rightarrow> ('b, 'k) custom_acq \<Rightarrow> ('b, 'k) custom_acq" where
  "queue_sample k prm s priv =
     (let priv1 = evict_oldest k prm priv;
          (ok, q) = kf_put k s (samples priv1)
      in if \<not> ok then priv1\<lparr>samples := q, kfifo_overflow := kfifo_overflow priv1 + 1\<rparr>
         else priv1\<lparr>samples := q\<rparr>)"

text \<open>
  What becomes of a sample that was read: dropped by fault injection, by downsampling, or
  queued. A division by zero is its own outcome, because the kernel would oops there.
\<close>

datatype pass_next = Again | Break_loop | Divide_by_zero

definition dispose_sample ::
  "'k kernel_api \<Rightarrow> module_params \<Rightarrow> custom_acq_sample \<Rightarrow> ('b, 'k) custom_acq \<Rightarrow> pass_next \<times> ('b, 'k) custom_acq" where
  "dispose_sample k prm s priv =
     (if fault_drop_every prm \<noteq> 0 \<and> sm_seq s mod fault_drop_every prm = 0 then (Again, priv)
      else if custom_acq_get_drop_policy k prm = DROP_POLICY_DOWNSAMPLE
      then let priv1 = priv\<lparr>downsample_counter := downsample_counter priv + 1\<rparr>
           in if downsample_n prm = 0 then (Divide_by_zero, priv1)
              else if downsample_counter priv1 mod downsample_n prm \<noteq> 0
              then (Again, priv1\<lparr>policy_dropped := policy_dropped priv1 + 1\<rparr>)
              else (Again, queue_sample k prm s priv1)
      else (Again, queue_sample k prm s priv))"

text \<open>The locals of the pass and one iteration of its loop.\<close>

record ('b, 'k) drain_pass =
  dp_errors :: u32
  dp_drained :: u32
  dp_ret :: "errno option"
  dp_priv :: "('b, 'k) custom_acq"

definition drain_error :: "errno \<Rightarrow> ('b, 'k) drain_pass \<Rightarrow> pass_next \<times> ('b, 'k) drain_pass" where
  "drain_error e d =
     (let d1 = d\<lparr>dp_errors := dp_errors d + 1, dp_ret := Some e\<rparr>
      in if dp_errors d1 < DRAIN_MAX_ERRORS then (Again, d1) else (Break_loop, d1))"

definition drain_step ::
  "'b spi_bus \<Rightarrow> 'k kernel_api \<Rightarrow> module_params \<Rightarrow> ('b, 'k) drain_pass \<Rightarrow> pass_next \<times> ('b, 'k) drain_pass" where
  "drain_step X k prm d =
     (case custom_acq_reg_read X prm 0x05 (dp_priv d) of
        (Inl e, priv1) \<Rightarrow> drain_error e (d\<lparr>dp_priv := priv1\<rparr>)
      | (Inr level, priv1) \<Rightarrow>
          (if level = 0 then (Break_loop, d\<lparr>dp_priv := priv1, dp_ret := None\<rparr>)
           else case custom_acq_read_sample X prm priv1 of
             (Inl e, priv2) \<Rightarrow> drain_error e (d\<lparr>dp_priv := priv2\<rparr>)
           | (Inr (seq, val), priv2) \<Rightarrow>
               (let s = \<lparr>sm_seq = seq, sm_value = val, sm_irq_ts_ns = irq_ts_ns priv2\<rparr>;
                    (next, priv3) = dispose_sample k prm s priv2
                in (next, d\<lparr>dp_errors := 0, dp_ret := None, dp_drained := dp_drained d + 1, dp_priv := priv3\<rparr>))))"

text \<open>\<open>for (;;)\<close>: the pass ends when the board reports empty, which it may never do.\<close>

partial_function (option) drain_loop ::
  "'b spi_bus \<Rightarrow> 'k kernel_api \<Rightarrow> module_params \<Rightarrow> ('b, 'k) drain_pass \<Rightarrow> (pass_next \<times> ('b, 'k) drain_pass) option" where
  "drain_loop X k prm d =
     (case drain_step X k prm d of
        (Again, d1) \<Rightarrow> drain_loop X k prm d1
      | (next, d1) \<Rightarrow> Some (next, d1))"

declare drain_loop.simps [code]

definition custom_acq_irq_thread ::
  "'b spi_bus \<Rightarrow> 'k kernel_api \<Rightarrow> module_params \<Rightarrow> ('b, 'k) custom_acq \<Rightarrow> (pass_next \<times> ('b, 'k) drain_pass) option" where
  "custom_acq_irq_thread X k prm priv =
     (let d0 = \<lparr>dp_errors = 0, dp_drained = 0, dp_ret = None, dp_priv = priv\<lparr>fault_stall_ms := 0\<rparr>\<rparr>
      in do {
        (next, d) \<leftarrow> drain_loop X k prm d0;
        Some (next, if next = Break_loop \<and> dp_drained d \<noteq> 0
                    then d\<lparr>dp_priv := (dp_priv d)\<lparr>wakeups := wakeups (dp_priv d) + 1\<rparr>\<rparr> else d)
      })"

section \<open>Character device\<close>

text \<open>
  \<open>wait\<close> is \<open>wait_event_interruptible\<close> with everything that happens until the lock is taken: it
  returns an error or the state in which the copy is made. The result is the number of bytes
  and the samples that were copied.
\<close>

definition custom_acq_read ::
  "'k kernel_api \<Rightarrow> (('b, 'k) custom_acq \<Rightarrow> errno option \<times> ('b, 'k) custom_acq) \<Rightarrow> bool \<Rightarrow> nat \<Rightarrow>
   ('b, 'k) custom_acq \<Rightarrow> (errno + nat \<times> custom_acq_sample list) \<times> ('b, 'k) custom_acq" where
  "custom_acq_read k wait nonblock count0 priv =
     (let count = count0 - count0 mod 16
      in if count = 0 then (Inl EINVAL, priv)
         else let (err, priv1) =
                    (if kf_is_empty k (samples priv)
                     then (if nonblock then (Some EAGAIN, priv) else wait priv)
                     else (None, priv))
              in case err of
                   Some e \<Rightarrow> (Inl e, priv1)
                 | None \<Rightarrow>
                     (case kf_to_user k (samples priv1) (count div 16) of
                        (Some e, xs, q) \<Rightarrow> (Inl e, priv1\<lparr>samples := q\<rparr>)
                      | (None, xs, q) \<Rightarrow> (Inr (16 * length xs, xs), priv1\<lparr>samples := q\<rparr>)))"

text \<open>The readable bits of the poll mask.\<close>

definition custom_acq_poll :: "'k kernel_api \<Rightarrow> ('b, 'k) custom_acq \<Rightarrow> bool" where
  "custom_acq_poll k priv = (\<not> kf_is_empty k (samples priv))"

section \<open>Probe\<close>

text \<open>The two module globals before the probe, and what the resource managers of the kernel answer.\<close>

record 'k probe_env =
  pe_fault_reg_reads :: u32
  pe_fault_stall_ms :: u32
  pe_kzalloc :: bool
  pe_init_kfifo :: 'k
  pe_spi_setup :: "errno option"
  pe_data_ready :: "errno option"
  pe_irq_marker :: "errno + bool"
  pe_to_irq :: "errno option"
  pe_request_irq :: "errno option"
  pe_misc_register :: "errno option"
  pe_add_action :: "errno option"

definition custom_acq_probe ::
  "'b spi_bus \<Rightarrow> module_params \<Rightarrow> 'k probe_env \<Rightarrow> 'b \<Rightarrow> (errno + ('b, 'k) custom_acq) \<times> 'b" where
  "custom_acq_probe X prm env b =
     (if \<not> pe_kzalloc env then (Inl ENOMEM, b)
      else let priv = \<lparr>acq_spi = b, irq_marker = False, irq_marker_state = False, samples = pe_init_kfifo env,
                       kfifo_overflow = 0, policy_dropped = 0, downsample_counter = 0, irq_ts_ns = 0,
                       fault_reg_reads = pe_fault_reg_reads env,
                       fault_stall_ms = pe_fault_stall_ms env, wakeups = 0\<rparr>
           in case pe_spi_setup env of Some e \<Rightarrow> (Inl e, b)
              | None \<Rightarrow>
                (case custom_acq_reg_read X prm 0x00 priv of
                   (Inl e, priv1) \<Rightarrow> (Inl e, acq_spi priv1)
                 | (Inr device_id, priv1) \<Rightarrow>
                     (case pe_data_ready env of Some e \<Rightarrow> (Inl e, acq_spi priv1)
                      | None \<Rightarrow>
                        (case pe_irq_marker env of Inl e \<Rightarrow> (Inl e, acq_spi priv1)
                         | Inr marker \<Rightarrow>
                             (case pe_to_irq env of Some e \<Rightarrow> (Inl e, acq_spi priv1)
                              | None \<Rightarrow>
                                (case pe_request_irq env of Some e \<Rightarrow> (Inl e, acq_spi priv1)
                                 | None \<Rightarrow>
                                   (case pe_misc_register env of Some e \<Rightarrow> (Inl e, acq_spi priv1)
                                    | None \<Rightarrow>
                                      (case pe_add_action env of Some e \<Rightarrow> (Inl e, acq_spi priv1)
                                       | None \<Rightarrow> (Inr (priv1\<lparr>irq_marker := marker\<rparr>), acq_spi priv1)))))))))"

section \<open>What is relied upon of the kernel\<close>

text \<open>
  The documented behaviour of a kfifo of 128 elements, seen through the list \<open>items\<close> of its
  content, and of \<open>sysfs_streq\<close>: equality up to one trailing newline.
\<close>

definition kfifo_laws :: "'k kernel_api \<Rightarrow> ('k \<Rightarrow> custom_acq_sample list) \<Rightarrow> bool" where
  "kfifo_laws k items \<longleftrightarrow>
     (\<forall>q. length (items q) \<le> SAMPLE_KFIFO_SIZE)
     \<and> (\<forall>q. kf_is_full k q \<longleftrightarrow> length (items q) = SAMPLE_KFIFO_SIZE)
     \<and> (\<forall>q. kf_is_empty k q \<longleftrightarrow> items q = [])
     \<and> (\<forall>q. kf_len k q = length (items q))
     \<and> (\<forall>q x. fst (kf_put k x q) \<longleftrightarrow> length (items q) < SAMPLE_KFIFO_SIZE)
     \<and> (\<forall>q x. items (snd (kf_put k x q)) = (if length (items q) < SAMPLE_KFIFO_SIZE then items q @ [x] else items q))
     \<and> (\<forall>q. case kf_get k q of None \<Rightarrow> items q = [] | Some (x, q') \<Rightarrow> items q = x # items q')"

definition kfifo_copy_laws :: "'k kernel_api \<Rightarrow> ('k \<Rightarrow> custom_acq_sample list) \<Rightarrow> bool" where
  "kfifo_copy_laws k items \<longleftrightarrow>
     (\<forall>q n. case kf_to_user k q n of
        (None, xs, q') \<Rightarrow> xs = take n (items q) \<and> items q' = drop n (items q)
      | (Some e, xs, q') \<Rightarrow> e = EFAULT)"

definition chomp :: "string \<Rightarrow> string" where
  "chomp s = (if s \<noteq> [] \<and> last s = CHR 0x0A then butlast s else s)"

definition streq_law :: "'k kernel_api \<Rightarrow> bool" where
  "streq_law k \<longleftrightarrow> (\<forall>a b. k_streq k a b \<longleftrightarrow> chomp a = chomp b)"

lemma kfifo_lawsD:
  assumes "kfifo_laws k items"
  shows "length (items q) \<le> 128" "kf_is_full k q \<longleftrightarrow> length (items q) = 128"
    "kf_is_empty k q \<longleftrightarrow> items q = []" "fst (kf_put k x q) \<longleftrightarrow> length (items q) < 128"
    "items (snd (kf_put k x q)) = (if length (items q) < 128 then items q @ [x] else items q)"
    "kf_get k q = None \<Longrightarrow> items q = []" "kf_get k q = Some (y, q') \<Longrightarrow> items q = y # items q'"
proof -
  have "case kf_get k q of None \<Rightarrow> items q = [] | Some (x, q') \<Rightarrow> items q = x # items q'"
    using assms by (simp add: kfifo_laws_def)
  then show "kf_get k q = None \<Longrightarrow> items q = []" "kf_get k q = Some (y, q') \<Longrightarrow> items q = y # items q'"
    by (simp_all split: option.splits)
qed (use assms in \<open>simp_all add: kfifo_laws_def\<close>)

text \<open>A kfifo that obeys the laws is a bounded queue, so the queue lemmas apply to it.\<close>

lemma kfifo_bounded_queue:
  assumes "kfifo_laws k items"
  shows "bounded_queue (\<lambda>_. True) items (\<lambda>_. 128) (\<lambda>_ x. x) (\<lambda>x q. snd (kf_put k x q)) (kf_get k)"
proof (unfold_locales, goal_cases)
  case (6 q)
  then show ?case using kfifo_lawsD(7) [OF assms] by (cases "kf_get k q") auto
next
  case (7 q x xs)
  then show ?case using kfifo_lawsD(6,7) [OF assms] by (cases "kf_get k q") auto
qed (use kfifo_lawsD [OF assms] in auto)

section \<open>Drop policies\<close>

lemma queue_sample_other:
  "acq_spi (queue_sample k prm s priv) = acq_spi priv" "irq_ts_ns (queue_sample k prm s priv) = irq_ts_ns priv"
  "fault_reg_reads (queue_sample k prm s priv) = fault_reg_reads priv"
  "downsample_counter (queue_sample k prm s priv) = downsample_counter priv"
  "wakeups (queue_sample k prm s priv) = wakeups priv"
  by (simp_all add: queue_sample_def evict_oldest_def Let_def case_prod_beta split: option.split)

lemma queue_sample_newest:
  assumes "kfifo_laws k items" "custom_acq_get_drop_policy k prm \<noteq> DROP_POLICY_OLDEST"
  shows "items (samples (queue_sample k prm s priv))
       = (if length (items (samples priv)) < 128 then items (samples priv) @ [s] else items (samples priv))"
    "kfifo_overflow (queue_sample k prm s priv)
       = (if length (items (samples priv)) < 128 then kfifo_overflow priv else kfifo_overflow priv + 1)"
    "policy_dropped (queue_sample k prm s priv) = policy_dropped priv"
  using assms(2) kfifo_lawsD(4,5) [OF assms(1), where x = s and q = "samples priv"]
  by (auto simp: queue_sample_def evict_oldest_def Let_def case_prod_beta split: if_splits)

lemma queue_sample_oldest:
  assumes "kfifo_laws k items" "custom_acq_get_drop_policy k prm = DROP_POLICY_OLDEST"
  shows "items (samples (queue_sample k prm s priv))
       = (if length (items (samples priv)) < 128 then items (samples priv) @ [s]
          else tl (items (samples priv)) @ [s])"
    "kfifo_overflow (queue_sample k prm s priv) = kfifo_overflow priv"
    "policy_dropped (queue_sample k prm s priv)
       = (if length (items (samples priv)) < 128 then policy_dropped priv else policy_dropped priv + 1)"
proof -
  let ?q = "samples priv"
  note law = kfifo_lawsD [OF assms(1)]
  have "items (samples (queue_sample k prm s priv))
       = (if length (items ?q) < 128 then items ?q @ [s] else tl (items ?q) @ [s])
     \<and> kfifo_overflow (queue_sample k prm s priv) = kfifo_overflow priv
     \<and> policy_dropped (queue_sample k prm s priv)
       = (if length (items ?q) < 128 then policy_dropped priv else policy_dropped priv + 1)"
  proof (cases "length (items ?q) < 128")
    case True
    then show ?thesis using assms(2) law(2) [of ?q] law(4,5) [of s ?q]
      by (simp add: queue_sample_def evict_oldest_def Let_def case_prod_beta)
  next
    case False
    then have full: "length (items ?q) = 128" using law(1) [of ?q] by simp
    then obtain y q' where g: "kf_get k ?q = Some (y, q')" "items ?q = y # items q'"
      using law(6,7) [of ?q] by (cases "kf_get k ?q") auto
    then show ?thesis using full assms(2) law(2) [of ?q] law(4,5) [of s q']
      by (simp add: queue_sample_def evict_oldest_def Let_def case_prod_beta)
  qed
  then show "items (samples (queue_sample k prm s priv))
       = (if length (items (samples priv)) < 128 then items (samples priv) @ [s]
          else tl (items (samples priv)) @ [s])"
    "kfifo_overflow (queue_sample k prm s priv) = kfifo_overflow priv"
    "policy_dropped (queue_sample k prm s priv)
       = (if length (items (samples priv)) < 128 then policy_dropped priv else policy_dropped priv + 1)"
    by auto
qed

text \<open>A run of samples through the disposal, as a pass performs it.\<close>

fun dispose_all ::
  "'k kernel_api \<Rightarrow> module_params \<Rightarrow> custom_acq_sample list \<Rightarrow> ('b, 'k) custom_acq \<Rightarrow> pass_next \<times> ('b, 'k) custom_acq" where
  "dispose_all k prm [] priv = (Again, priv)"
| "dispose_all k prm (s # ss) priv =
     (case dispose_sample k prm s priv of
        (Again, priv1) \<Rightarrow> dispose_all k prm ss priv1
      | (next, priv1) \<Rightarrow> (next, priv1))"

text \<open>Every sample is accounted for: queued, overflowed or dropped by policy.\<close>

definition accounted :: "('k \<Rightarrow> custom_acq_sample list) \<Rightarrow> ('b, 'k) custom_acq \<Rightarrow> u32" where
  "accounted items priv = of_nat (length (items (samples priv))) + kfifo_overflow priv + policy_dropped priv"

lemma queue_sample_accounted:
  assumes "kfifo_laws k items"
  shows "accounted items (queue_sample k prm s priv) = accounted items priv + 1"
proof (cases "custom_acq_get_drop_policy k prm = DROP_POLICY_OLDEST")
  case True
  have "0 < length (items (samples priv))" if "\<not> length (items (samples priv)) < 128" using that by linarith
  then show ?thesis
    using queue_sample_oldest [OF assms True, of s priv] by (auto simp: accounted_def of_nat_diff)
next
  case False
  then show ?thesis using queue_sample_newest [OF assms False, of s priv] by (auto simp: accounted_def)
qed

lemma dispose_sample_accounted:
  assumes "kfifo_laws k items" "fault_drop_every prm = 0" "dispose_sample k prm s priv = (Again, priv')"
  shows "accounted items priv' = accounted items priv + 1"
proof -
  have up: "accounted items (priv\<lparr>downsample_counter := c\<rparr>) = accounted items priv" for c
    by (simp add: accounted_def)
  show ?thesis
    using assms(2,3) queue_sample_accounted [OF assms(1)] up
    by (auto simp: dispose_sample_def Let_def split: if_splits) (simp add: accounted_def)
qed

lemma dispose_sample_other:
  assumes "dispose_sample k prm s priv = (next, priv')"
  shows "acq_spi priv' = acq_spi priv" "irq_ts_ns priv' = irq_ts_ns priv"
    "fault_reg_reads priv' = fault_reg_reads priv" "next \<noteq> Break_loop"
  using assms by (auto simp: dispose_sample_def Let_def queue_sample_other split: if_splits)

section \<open>A run of samples under each policy\<close>

lemma dispose_all_newest:
  assumes laws: "kfifo_laws k items" and pol: "custom_acq_get_drop_policy k prm = DROP_POLICY_NEWEST"
    and f: "fault_drop_every prm = 0"
  shows "\<exists>priv'. dispose_all k prm ss priv = (Again, priv')
     \<and> items (samples priv') = take 128 (items (samples priv) @ ss)
     \<and> kfifo_overflow priv' = kfifo_overflow priv + of_nat (length (items (samples priv) @ ss) - 128)
     \<and> policy_dropped priv' = policy_dropped priv"
proof (induction ss arbitrary: priv)
  case Nil
  then show ?case using kfifo_lawsD(1) [OF laws, of "samples priv"] by simp
next
  case (Cons s ss)
  have d: "dispose_sample k prm s priv = (Again, queue_sample k prm s priv)"
    using pol f by (simp add: dispose_sample_def)
  have "custom_acq_get_drop_policy k prm \<noteq> DROP_POLICY_OLDEST" using pol by simp
  note q = queue_sample_newest [OF laws this, of s priv]
  note len = kfifo_lawsD(1) [OF laws, of "samples priv"]
  show ?case
    using Cons [of "queue_sample k prm s priv"] d q len
    by (cases "length (items (samples priv)) < 128") (auto simp: Suc_diff_le algebra_simps)
qed

lemma dispose_all_oldest:
  assumes laws: "kfifo_laws k items" and pol: "custom_acq_get_drop_policy k prm = DROP_POLICY_OLDEST"
    and f: "fault_drop_every prm = 0"
  shows "\<exists>priv'. dispose_all k prm ss priv = (Again, priv')
     \<and> items (samples priv') = drop (length (items (samples priv) @ ss) - 128) (items (samples priv) @ ss)
     \<and> policy_dropped priv' = policy_dropped priv + of_nat (length (items (samples priv) @ ss) - 128)
     \<and> kfifo_overflow priv' = kfifo_overflow priv"
proof (induction ss arbitrary: priv)
  case Nil
  then show ?case using kfifo_lawsD(1) [OF laws, of "samples priv"] by simp
next
  case (Cons s ss)
  have d: "dispose_sample k prm s priv = (Again, queue_sample k prm s priv)"
    using pol f by (simp add: dispose_sample_def)
  note q = queue_sample_oldest [OF laws pol, of s priv]
  note len = kfifo_lawsD(1) [OF laws, of "samples priv"]
  show ?case
  proof (cases "length (items (samples priv)) < 128")
    case True
    then show ?thesis using Cons [of "queue_sample k prm s priv"] d q by auto
  next
    case False
    then obtain y ys where y: "items (samples priv) = y # ys" "length ys = 127"
      using len by (cases "items (samples priv)") auto
    then show ?thesis using Cons [of "queue_sample k prm s priv"] d q by (auto simp: algebra_simps)
  qed
qed

text \<open>Downsampling keeps the samples whose running number is a multiple of \<open>downsample_n\<close>.\<close>

definition kept_by_downsample :: "u32 \<Rightarrow> u32 \<Rightarrow> 'a list \<Rightarrow> 'a list" where
  "kept_by_downsample n c xs = nths xs {i. (c + of_nat (Suc i)) mod n = 0}"

lemma kept_by_downsample_Cons:
  "kept_by_downsample n c (x # xs)
   = (if (c + 1) mod n = 0 then [x] else []) @ kept_by_downsample n (c + 1) xs"
  by (simp add: kept_by_downsample_def nths_Cons algebra_simps)

lemma length_kept_by_downsample: "length (kept_by_downsample n c xs) \<le> length xs"
  unfolding kept_by_downsample_def length_nths
  by (rule order_trans [OF card_mono [of "{..<length xs}"]]) auto

lemma dispose_all_downsample:
  assumes laws: "kfifo_laws k items" and pol: "custom_acq_get_drop_policy k prm = DROP_POLICY_DOWNSAMPLE"
    and f: "fault_drop_every prm = 0" and n: "downsample_n prm \<noteq> 0"
  shows "\<exists>priv'. dispose_all k prm ss priv = (Again, priv')
     \<and> (let ks = kept_by_downsample (downsample_n prm) (downsample_counter priv) ss
        in items (samples priv') = take 128 (items (samples priv) @ ks)
         \<and> kfifo_overflow priv' = kfifo_overflow priv + of_nat (length (items (samples priv) @ ks) - 128)
         \<and> policy_dropped priv' = policy_dropped priv + of_nat (length ss - length ks))"
proof (induction ss arbitrary: priv)
  case Nil
  then show ?case using kfifo_lawsD(1) [OF laws, of "samples priv"] by (simp add: kept_by_downsample_def)
next
  case (Cons s ss)
  let ?n = "downsample_n prm" and ?c = "downsample_counter priv + 1"
  let ?ks = "kept_by_downsample ?n ?c ss"
  note len = kfifo_lawsD(1) [OF laws, of "samples priv"]
  have kl: "length ?ks \<le> length ss" by (rule length_kept_by_downsample)
  show ?case
  proof (cases "?c mod ?n = 0")
    case True
    let ?p = "queue_sample k prm s (priv\<lparr>downsample_counter := ?c\<rparr>)"
    have d: "dispose_sample k prm s priv = (Again, ?p)"
      using pol f n True by (simp add: dispose_sample_def Let_def)
    have "custom_acq_get_drop_policy k prm \<noteq> DROP_POLICY_OLDEST" using pol by simp
    note q = queue_sample_newest [OF laws this, of s "priv\<lparr>downsample_counter := ?c\<rparr>"]
    have ks: "kept_by_downsample ?n (downsample_counter priv) (s # ss) = s # ?ks"
      using True by (simp add: kept_by_downsample_Cons)
    obtain priv' where p': "dispose_all k prm ss ?p = (Again, priv')"
      "items (samples priv') = take 128 (items (samples ?p) @ ?ks)"
      "kfifo_overflow priv' = kfifo_overflow ?p + of_nat (length (items (samples ?p) @ ?ks) - 128)"
      "policy_dropped priv' = policy_dropped ?p + of_nat (length ss - length ?ks)"
      using Cons [of ?p] by (auto simp: Let_def queue_sample_other)
    then show ?thesis
      using d q len unfolding ks Let_def
      by (cases "length (items (samples priv)) < 128") (auto simp: Suc_diff_le)
  next
    case False
    let ?p = "priv\<lparr>downsample_counter := ?c, policy_dropped := policy_dropped priv + 1\<rparr>"
    have d: "dispose_sample k prm s priv = (Again, ?p)"
      using pol f n False by (simp add: dispose_sample_def Let_def)
    show ?thesis
      using Cons [of ?p] d False kl by (auto simp: kept_by_downsample_Cons Let_def Suc_diff_le algebra_simps)
  qed
qed

text \<open>The content of the kfifo and the two loss counters after a run, by policy.\<close>

definition policy_outcome ::
  "'k kernel_api \<Rightarrow> module_params \<Rightarrow> ('k \<Rightarrow> custom_acq_sample list) \<Rightarrow> custom_acq_sample list \<Rightarrow>
   ('b, 'k) custom_acq \<Rightarrow> ('b, 'k) custom_acq \<Rightarrow> bool" where
  "policy_outcome k prm items ss priv priv' \<longleftrightarrow>
     (case custom_acq_get_drop_policy k prm of
        DROP_POLICY_NEWEST \<Rightarrow>
          items (samples priv') = take 128 (items (samples priv) @ ss)
          \<and> kfifo_overflow priv' = kfifo_overflow priv + of_nat (length (items (samples priv) @ ss) - 128)
          \<and> policy_dropped priv' = policy_dropped priv
      | DROP_POLICY_OLDEST \<Rightarrow>
          items (samples priv') = drop (length (items (samples priv) @ ss) - 128) (items (samples priv) @ ss)
          \<and> policy_dropped priv' = policy_dropped priv + of_nat (length (items (samples priv) @ ss) - 128)
          \<and> kfifo_overflow priv' = kfifo_overflow priv
      | DROP_POLICY_DOWNSAMPLE \<Rightarrow>
          (let ks = kept_by_downsample (downsample_n prm) (downsample_counter priv) ss
           in items (samples priv') = take 128 (items (samples priv) @ ks)
            \<and> kfifo_overflow priv' = kfifo_overflow priv + of_nat (length (items (samples priv) @ ks) - 128)
            \<and> policy_dropped priv' = policy_dropped priv + of_nat (length ss - length ks)))"

lemma dispose_all_policy:
  assumes "kfifo_laws k items" "fault_drop_every prm = 0" "downsample_n prm \<noteq> 0"
  shows "policy_outcome k prm items ss priv (snd (dispose_all k prm ss priv))"
proof (cases "custom_acq_get_drop_policy k prm")
  case DROP_POLICY_NEWEST
  then show ?thesis
    using dispose_all_newest [OF assms(1) DROP_POLICY_NEWEST assms(2), of ss priv] by (auto simp: policy_outcome_def)
next
  case DROP_POLICY_OLDEST
  then show ?thesis
    using dispose_all_oldest [OF assms(1) DROP_POLICY_OLDEST assms(2), of ss priv] by (auto simp: policy_outcome_def)
next
  case DROP_POLICY_DOWNSAMPLE
  then show ?thesis
    using dispose_all_downsample [OF assms(1) DROP_POLICY_DOWNSAMPLE assms(2,3), of ss priv]
    by (auto simp: policy_outcome_def Let_def)
qed

section \<open>A bus that does not answer\<close>

text \<open>Every frame fails, or reads as zeros because nothing drives the line.\<close>

definition unresponsive :: "'b spi_bus \<Rightarrow> bool" where
  "unresponsive X \<longleftrightarrow>
     (\<forall>b tx. case fst (X b tx) of Inl e \<Rightarrow> True | Inr rx \<Rightarrow> rx = [0, 0, 0, 0, 0])"

lemma unresponsive_frame:
  "unresponsive X \<Longrightarrow> X b tx = (Inr rx, b') \<Longrightarrow> rx = [0, 0, 0, 0, 0]"
  unfolding unresponsive_def by (drule spec [of _ b], drule spec [of _ tx]) simp

lemma unresponsive_read:
  assumes "unresponsive X" "custom_acq_reg_read X prm addr priv = (r, priv')"
  shows "r = Inr v \<Longrightarrow> addr = 0 \<and> v = 0"
    and "samples priv' = samples priv" "wakeups priv' = wakeups priv" "kfifo_overflow priv' = kfifo_overflow priv"
      "policy_dropped priv' = policy_dropped priv"
  using assms(2)
  by (auto simp: custom_acq_reg_read_def custom_acq_xfer_def fault_spi_error_def Let_def be32_word_def
      split: if_splits prod.splits sum.splits dest!: unresponsive_frame [OF assms(1)])

lemma unresponsive_write:
  assumes "unresponsive X" "addr < 0x80"
  shows "\<exists>e. fst (custom_acq_reg_write X addr v priv) = Inl e"
proof -
  have "addr OR 0x80 \<noteq> 0"
  proof
    assume "addr OR 0x80 = 0"
    then have "bit (addr OR 0x80) 7 = bit (0 :: u8) 7" by simp
    then show False by (simp add: bit_or_iff)
  qed
  then show ?thesis
    by (auto simp: custom_acq_reg_write_def custom_acq_xfer_def Let_def split: prod.splits sum.splits
        dest!: unresponsive_frame [OF assms(1)])
qed

lemma unresponsive_step:
  fixes d :: "('b, 'k) drain_pass"
  assumes "unresponsive X"
  shows "\<exists>e priv'. drain_step X k prm d = drain_error e (d\<lparr>dp_priv := priv'\<rparr>)
     \<and> samples priv' = samples (dp_priv d) \<and> wakeups priv' = wakeups (dp_priv d)
     \<and> kfifo_overflow priv' = kfifo_overflow (dp_priv d) \<and> policy_dropped priv' = policy_dropped (dp_priv d)"
proof -
  obtain r priv' where r: "custom_acq_reg_read X prm 5 (dp_priv d) = (r, priv')" by fastforce
  note u = unresponsive_read [OF assms r]
  obtain e where "r = Inl e" using u(1) by (cases r) auto
  then show ?thesis using r u(2-5)
    by (intro exI [of _ e] exI [of _ priv']) (simp add: drain_step_def)
qed

lemma unresponsive_loop:
  fixes d :: "('b, 'k) drain_pass"
  assumes "unresponsive X" "dp_errors d < 3"
  shows "\<exists>e d'. drain_loop X k prm d = Some (Break_loop, d') \<and> dp_errors d' = 3 \<and> dp_ret d' = Some e
     \<and> dp_drained d' = dp_drained d
     \<and> samples (dp_priv d') = samples (dp_priv d) \<and> wakeups (dp_priv d') = wakeups (dp_priv d)
     \<and> kfifo_overflow (dp_priv d') = kfifo_overflow (dp_priv d)
     \<and> policy_dropped (dp_priv d') = policy_dropped (dp_priv d)"
  using assms(2)
proof (induction "3 - unat (dp_errors d)" arbitrary: d rule: less_induct)
  case less
  obtain e priv' where st: "drain_step X k prm d = drain_error e (d\<lparr>dp_priv := priv'\<rparr>)"
    and fr: "samples priv' = samples (dp_priv d)" "wakeups priv' = wakeups (dp_priv d)"
      "kfifo_overflow priv' = kfifo_overflow (dp_priv d)" "policy_dropped priv' = policy_dropped (dp_priv d)"
    using unresponsive_step [OF assms(1), of k prm d] by blast
  let ?d = "d\<lparr>dp_priv := priv', dp_errors := dp_errors d + 1, dp_ret := Some e\<rparr>"
  have e: "unat (dp_errors d) < 3" using less.prems by (simp add: word_less_nat_alt)
  then have e1: "unat (dp_errors d + 1) = unat (dp_errors d) + 1" by (simp add: unat_word_ariths)
  show ?case
  proof (cases "dp_errors d + 1 < 3")
    case True
    then have "drain_loop X k prm d = drain_loop X k prm ?d"
      using st by (simp add: drain_error_def Let_def drain_loop.simps [of X k prm d])
    then show ?thesis using less.hyps [of ?d] True e e1 fr by (simp add: word_less_nat_alt)
  next
    case False
    then have "unat (dp_errors d + 1) = 3" using e e1 by (simp add: word_less_nat_alt)
    then have "dp_errors d + 1 = 3" by (simp add: word_unat_eq_iff)
    then have "drain_loop X k prm d = Some (Break_loop, ?d)"
      using st False by (simp add: drain_error_def Let_def drain_loop.simps [of X k prm d])
    then show ?thesis using \<open>dp_errors d + 1 = 3\<close> fr by simp
  qed
qed

section \<open>A kernel that satisfies the laws\<close>

text \<open>
  A list as the kfifo, decimal numbers for \<open>kstrtou32\<close>, pairs of hexadecimal digits for
  \<open>hex2bin\<close>: the instance on which the theorems with kernel hypotheses are applied.
\<close>

definition hex_digit :: "char \<Rightarrow> nat option" where
  "hex_digit ch =
     (let n = of_char ch :: nat
      in if 48 \<le> n \<and> n \<le> 57 then Some (n - 48)
         else if 97 \<le> n \<and> n \<le> 102 then Some (n - 87)
         else if 65 \<le> n \<and> n \<le> 70 then Some (n - 55) else None)"

fun list_hex2bin :: "string \<Rightarrow> nat \<Rightarrow> u8 list option" where
  "list_hex2bin s 0 = Some []"
| "list_hex2bin (a # b # s) (Suc n) =
     (case (hex_digit a, hex_digit b, list_hex2bin s n) of
        (Some x, Some y, Some bs) \<Rightarrow> Some (of_nat (16 * x + y) # bs)
      | _ \<Rightarrow> None)"
| "list_hex2bin _ (Suc n) = None"

fun decimal :: "nat \<Rightarrow> string \<Rightarrow> nat option" where
  "decimal acc [] = Some acc"
| "decimal acc (a # s) =
     (case hex_digit a of
        Some x \<Rightarrow> if x < 10 then decimal (10 * acc + x) s else None
      | None \<Rightarrow> None)"

definition list_strtou32 :: "string \<Rightarrow> errno + u32" where
  "list_strtou32 s =
     (case decimal 0 (chomp s) of
        Some n \<Rightarrow> if chomp s \<noteq> [] \<and> n < 2 ^ 32 then Inr (of_nat n) else Inl EINVAL
      | None \<Rightarrow> Inl EINVAL)"

definition list_items :: "custom_acq_sample list \<Rightarrow> custom_acq_sample list" where
  "list_items q = take 128 q"

definition list_kernel :: "custom_acq_sample list kernel_api" where
  "list_kernel =
     \<lparr>kf_put = (\<lambda>x q. if length q < 128 then (True, q @ [x]) else (False, q)),
      kf_get = (\<lambda>q. case take 128 q of [] \<Rightarrow> None | x # xs \<Rightarrow> Some (x, xs)),
      kf_is_full = (\<lambda>q. 128 \<le> length q), kf_is_empty = (\<lambda>q. q = []), kf_len = (\<lambda>q. min 128 (length q)),
      kf_to_user = (\<lambda>q n. (None, take n (take 128 q), drop n (take 128 q))),
      k_streq = (\<lambda>a b. chomp a = chomp b), k_strtou32 = list_strtou32, k_hex2bin = list_hex2bin\<rparr>"

lemma list_kernel_laws: "kfifo_laws list_kernel list_items" "kfifo_copy_laws list_kernel list_items" "streq_law list_kernel"
proof -
  have "take 128 xs = xs" if "take 128 q = x # xs" for x q and xs :: "custom_acq_sample list"
  proof -
    have "length (x # xs) \<le> 128" unfolding that [symmetric] by simp
    then show ?thesis by simp
  qed
  then show "kfifo_laws list_kernel list_items"
    by (auto simp: kfifo_laws_def list_kernel_def list_items_def split: list.split)
qed (simp_all add: kfifo_copy_laws_def streq_law_def list_kernel_def list_items_def)

definition demo_params :: module_params where
  "demo_params = \<lparr>drop_policy = ''newest'', downsample_n = 2, fault_drain_delay_us = 0,
     fault_drop_every = 0, fault_spi_error_every = 0\<rparr>"

definition demo_sample :: "nat \<Rightarrow> custom_acq_sample" where
  "demo_sample i = \<lparr>sm_seq = of_nat i, sm_value = 0, sm_irq_ts_ns = 0\<rparr>"

definition demo_acq :: "'b \<Rightarrow> custom_acq_sample list \<Rightarrow> ('b, custom_acq_sample list) custom_acq" where
  "demo_acq b q = \<lparr>acq_spi = b, irq_marker = False, irq_marker_state = False, samples = q,
     kfifo_overflow = 0, policy_dropped = 0, downsample_counter = 0, irq_ts_ns = 7,
     fault_reg_reads = 0, fault_stall_ms = 0, wakeups = 0\<rparr>"

definition dead_bus :: "unit spi_bus" where
  "dead_bus b tx = (Inr [0, 0, 0, 0, 0], b)"

section \<open>Properties\<close>

text \<open>C15. A bus that never answers (every transfer fails, or the line reads as zeros) is noticed:
  no register but DEVICE\_ID can be read and no write succeeds; a drain pass gives up after exactly
  three errors, queues nothing, counts nothing and wakes no reader. DEVICE\_ID is the exception
  that the comment in \<open>custom_acq_reg_read\<close> describes: it may read as zero.\<close>

theorem unresponsive_bus_handled:
  fixes X :: "'b spi_bus" and k :: "'k kernel_api" and priv :: "('b, 'k) custom_acq"
  assumes "unresponsive X"
  shows "(\<forall>addr v. fst (custom_acq_reg_read X prm addr priv) = Inr v \<longrightarrow> addr = 0 \<and> v = 0)
    \<and> (\<forall>addr v. addr < 0x80 \<longrightarrow> (\<exists>e. fst (custom_acq_reg_write X addr v priv) = Inl e))
    \<and> (\<exists>e d. custom_acq_irq_thread X k prm priv = Some (Break_loop, d)
      \<and> dp_errors d = DRAIN_MAX_ERRORS \<and> dp_ret d = Some e \<and> dp_drained d = 0
      \<and> samples (dp_priv d) = samples priv \<and> wakeups (dp_priv d) = wakeups priv
      \<and> kfifo_overflow (dp_priv d) = kfifo_overflow priv \<and> policy_dropped (dp_priv d) = policy_dropped priv)"
proof (intro conjI)
  show "\<forall>addr v. fst (custom_acq_reg_read X prm addr priv) = Inr v \<longrightarrow> addr = 0 \<and> v = 0"
    using unresponsive_read(1) [OF assms] by (metis prod.collapse)
  show "\<forall>addr v. addr < 0x80 \<longrightarrow> (\<exists>e. fst (custom_acq_reg_write X addr v priv) = Inl e)"
    using unresponsive_write [OF assms] by blast
  let ?d = "\<lparr>dp_errors = 0, dp_drained = 0, dp_ret = None, dp_priv = priv\<lparr>fault_stall_ms := 0\<rparr>\<rparr>"
  show "\<exists>e d. custom_acq_irq_thread X k prm priv = Some (Break_loop, d)
      \<and> dp_errors d = DRAIN_MAX_ERRORS \<and> dp_ret d = Some e \<and> dp_drained d = 0
      \<and> samples (dp_priv d) = samples priv \<and> wakeups (dp_priv d) = wakeups priv
      \<and> kfifo_overflow (dp_priv d) = kfifo_overflow priv \<and> policy_dropped (dp_priv d) = policy_dropped priv"
    using unresponsive_loop [OF assms, of ?d k prm] by (auto simp: custom_acq_irq_thread_def Let_def)
qed

theorem unresponsive_bus_handled_witness:
  "unresponsive dead_bus
   \<and> (\<exists>e d. custom_acq_irq_thread dead_bus list_kernel demo_params (demo_acq () [demo_sample 0]) = Some (Break_loop, d)
        \<and> dp_errors d = 3 \<and> dp_ret d = Some e \<and> samples (dp_priv d) = [demo_sample 0])"
proof -
  have "unresponsive dead_bus" by (simp add: unresponsive_def dead_bus_def)
  from unresponsive_bus_handled [OF this, of demo_params "demo_acq () [demo_sample 0]" list_kernel] this
  show ?thesis by (auto simp: demo_acq_def)
qed

text \<open>C16. A read of the character device returns whole samples only, oldest first, and removes
  exactly what it returned: a buffer smaller than one sample is EINVAL, an empty queue is EAGAIN
  for a non-blocking reader, both without effect; otherwise, unless the copy faults, the caller
  gets a non-empty prefix of the queue, at most as many samples as fit.\<close>

theorem read_whole_samples:
  assumes "kfifo_laws k items" "kfifo_copy_laws k items"
  shows "(count < 16 \<longrightarrow> custom_acq_read k wait nonblock count priv = (Inl EINVAL, priv))
    \<and> (16 \<le> count \<and> items (samples priv) = [] \<and> nonblock
        \<longrightarrow> custom_acq_read k wait nonblock count priv = (Inl EAGAIN, priv))
    \<and> (16 \<le> count \<and> items (samples priv) \<noteq> [] \<longrightarrow>
        (\<exists>r q. custom_acq_read k wait nonblock count priv = (r, priv\<lparr>samples := q\<rparr>)
          \<and> (r = Inl EFAULT
             \<or> (\<exists>xs. r = Inr (16 * length xs, xs) \<and> xs \<noteq> [] \<and> 16 * length xs \<le> count
                  \<and> items (samples priv) = xs @ items q
                  \<and> (items q \<noteq> [] \<longrightarrow> length xs = count div 16)))))"
proof (intro conjI impI)
  assume "count < 16"
  then show "custom_acq_read k wait nonblock count priv = (Inl EINVAL, priv)"
    by (simp add: custom_acq_read_def)
next
  assume "16 \<le> count \<and> items (samples priv) = [] \<and> nonblock"
  then show "custom_acq_read k wait nonblock count priv = (Inl EAGAIN, priv)"
    using kfifo_lawsD(3) [OF assms(1), of "samples priv"]
    by (simp add: custom_acq_read_def Let_def minus_mod_eq_mult_div div_greater_zero_iff)
next
  let ?n = "count div 16"
  assume a: "16 \<le> count \<and> items (samples priv) \<noteq> []"
  obtain err xs q where k: "kf_to_user k (samples priv) ?n = (err, xs, q)" by (metis prod_cases3)
  have law: "case err of None \<Rightarrow> xs = take ?n (items (samples priv)) \<and> items q = drop ?n (items (samples priv))
      | Some e \<Rightarrow> e = EFAULT"
    using assms(2) [unfolded kfifo_copy_laws_def, THEN spec, of "samples priv", THEN spec, of ?n]
    by (simp add: k split: option.splits)
  have n: "0 < ?n" using a by (simp add: div_greater_zero_iff)
  have r: "custom_acq_read k wait nonblock count priv =
      ((case err of Some e \<Rightarrow> Inl e | None \<Rightarrow> Inr (16 * length xs, xs)), priv\<lparr>samples := q\<rparr>)"
    using a k n kfifo_lawsD(3) [OF assms(1), of "samples priv"]
    by (simp add: custom_acq_read_def Let_def minus_mod_eq_mult_div split: option.split)
  show "\<exists>r q. custom_acq_read k wait nonblock count priv = (r, priv\<lparr>samples := q\<rparr>)
          \<and> (r = Inl EFAULT
             \<or> (\<exists>xs. r = Inr (16 * length xs, xs) \<and> xs \<noteq> [] \<and> 16 * length xs \<le> count
                  \<and> items (samples priv) = xs @ items q
                  \<and> (items q \<noteq> [] \<longrightarrow> length xs = count div 16)))"
  proof (cases err)
    case None
    then have xs: "xs = take ?n (items (samples priv))" "items q = drop ?n (items (samples priv))" using law by simp_all
    moreover have "16 * length xs \<le> count" using xs(1) by simp
    moreover have "xs \<noteq> []" using xs(1) n a by simp
    moreover have "items q \<noteq> [] \<longrightarrow> length xs = ?n" using xs by simp
    ultimately show ?thesis using r None
      by (intro exI [of _ "Inr (16 * length xs, xs)"] exI [of _ q] conjI disjI2 exI [of _ xs]) simp_all
  next
    case (Some e)
    then show ?thesis using r law by auto
  qed
qed

theorem read_whole_samples_witness:
  "kfifo_laws list_kernel list_items \<and> kfifo_copy_laws list_kernel list_items
   \<and> (\<exists>r q. custom_acq_read list_kernel (\<lambda>p. (None, p)) True 40 (demo_acq () (map demo_sample [0, 1, 2]))
         = (r, (demo_acq () (map demo_sample [0, 1, 2]))\<lparr>samples := q\<rparr>)
       \<and> (r = Inl EFAULT \<or> (\<exists>xs. r = Inr (16 * length xs, xs) \<and> xs \<noteq> [] \<and> 16 * length xs \<le> 40
            \<and> list_items (samples (demo_acq () (map demo_sample [0, 1, 2]))) = xs @ list_items q
            \<and> (list_items q \<noteq> [] \<longrightarrow> length xs = 40 div 16))))"
proof -
  have "16 \<le> (40 :: nat) \<and> list_items (samples (demo_acq () (map demo_sample [0, 1, 2]))) \<noteq> []"
    by (simp add: list_items_def demo_acq_def)
  note r = read_whole_samples [OF list_kernel_laws(1,2), THEN conjunct2, THEN conjunct2, THEN mp, OF this]
  show ?thesis by (intro conjI list_kernel_laws(1,2) r)
qed

end
