(* ===== verification/Device.thy ===== *)
theory Device
  imports Driver
begin

text \<open>
  The user-space handle on the device (device-service: src/device.cpp, src/read\_exact.cpp): the
  sysfs attributes as text, and the character device read sample by sample. The operating system
  is a parameter: \<open>os_api\<close> gives the effect of open, poll and read on the file descriptor and of the
  two sysfs callbacks; an instance of it made from the driver's own functions is \<open>driver_os\<close>.

  A \<open>std::ofstream\<close> keeps what is inserted into it in its buffer until it is closed, so the store
  callback of the driver runs in the destructor, after the stream has been tested, and its return
  value is lost there.
\<close>

section \<open>Numbers as text\<close>

text \<open>\<open>std::to_string\<close> and \<open>"%u"\<close>; \<open>"0x%08x"\<close>.\<close>

definition digit_char :: "nat \<Rightarrow> char" where
  "digit_char n = (if n < 10 then char_of (48 + n) else char_of (87 + n))"

fun dec_text :: "nat \<Rightarrow> string" where
  "dec_text n = (if n < 10 then [digit_char n] else dec_text (n div 10) @ [digit_char (n mod 10)])"

declare dec_text.simps [simp del]

fun hex_text :: "nat \<Rightarrow> nat \<Rightarrow> string" where
  "hex_text 0 v = []"
| "hex_text (Suc i) v = hex_text i (v div 16) @ [digit_char (v mod 16)]"

text \<open>
  \<open>std::stoul(text, nullptr, 0)\<close>: white space, a sign, the prefix that selects the base, the longest
  run of digits. No digits is \<open>invalid_argument\<close>, more than 64 bits is \<open>out_of_range\<close>.
\<close>

definition is_space :: "char \<Rightarrow> bool" where
  "is_space ch = (let n = of_char ch :: nat in n = 32 \<or> 9 \<le> n \<and> n \<le> 13)"

definition digit_of :: "nat \<Rightarrow> char \<Rightarrow> nat option" where
  "digit_of b ch = (case hex_digit ch of Some d \<Rightarrow> if d < b then Some d else None | None \<Rightarrow> None)"

fun parse_digits :: "nat \<Rightarrow> nat \<Rightarrow> string \<Rightarrow> nat" where
  "parse_digits b acc [] = acc"
| "parse_digits b acc (ch # s) =
     (case digit_of b ch of Some d \<Rightarrow> parse_digits b (b * acc + d) s | None \<Rightarrow> acc)"

definition has_digit :: "nat \<Rightarrow> string \<Rightarrow> bool" where
  "has_digit b s = (case s of [] \<Rightarrow> False | ch # _ \<Rightarrow> digit_of b ch \<noteq> None)"

fun strip_prefix :: "string \<Rightarrow> nat \<times> string" where
  "strip_prefix (a # x # s) =
     (if a = CHR ''0'' \<and> (x = CHR ''x'' \<or> x = CHR ''X'') \<and> has_digit 16 s then (16, s)
      else if a = CHR ''0'' then (8, a # x # s) else (10, a # x # s))"
| "strip_prefix s = (if s = ''0'' then 8 else 10, s)"

datatype device_error = Cannot_open | Poll_failed errno | Read_failed errno | Read_eof | Invalid_argument | Out_of_range

definition stoul :: "string \<Rightarrow> device_error + u64" where
  "stoul text =
     (let s = dropWhile is_space text;
          neg = (s \<noteq> [] \<and> hd s = CHR ''-'');
          u = (if s \<noteq> [] \<and> (hd s = CHR ''-'' \<or> hd s = CHR ''+'') then tl s else s);
          (b, ds) = strip_prefix u
      in if \<not> has_digit b ds then Inl Invalid_argument
         else let n = parse_digits b 0 ds
              in if 2 ^ 64 \<le> n then Inl Out_of_range
                 else Inr (if neg then - of_nat n else of_nat n))"

section \<open>System calls\<close>

datatype read_result = Read_eintr | Read_errno errno | Read_bytes "u8 list"

datatype poll_result = Poll_eintr | Poll_errno errno | Poll_events u16 | Poll_timeout

record 'w os_api =
  os_open :: "'w \<Rightarrow> bool \<times> 'w"
  os_close :: "'w \<Rightarrow> 'w"
  os_read :: "nat \<Rightarrow> 'w \<Rightarrow> read_result \<times> 'w"
  os_poll :: "'w \<Rightarrow> poll_result \<times> 'w"
  os_open_attr :: "string \<Rightarrow> 'w \<Rightarrow> bool"
  os_store :: "string \<Rightarrow> string \<Rightarrow> 'w \<Rightarrow> (errno + nat) \<times> 'w"
  os_show :: "string \<Rightarrow> 'w \<Rightarrow> (errno + string) \<times> 'w"

abbreviation (input) POLLIN :: u16 where "POLLIN \<equiv> 0x0001"
abbreviation (input) POLLERR :: u16 where "POLLERR \<equiv> 0x0008"
abbreviation (input) POLLHUP :: u16 where "POLLHUP \<equiv> 0x0010"
abbreviation (input) POLLNVAL :: u16 where "POLLNVAL \<equiv> 0x0020"

section \<open>Device\<close>

text \<open>The state of a \<open>Device\<close> is whether it has a file descriptor, and the world behind it.\<close>

record 'w device =
  dev_fd :: bool
  dev_world :: 'w

definition device_open :: "'w os_api \<Rightarrow> 'w device \<Rightarrow> (device_error + unit) \<times> 'w device" where
  "device_open os d =
     (case os_open os (dev_world d) of
        (ok, w) \<Rightarrow> ((if ok then Inr () else Inl Cannot_open), d\<lparr>dev_fd := ok, dev_world := w\<rparr>))"

definition device_reopen :: "'w os_api \<Rightarrow> 'w device \<Rightarrow> (device_error + unit) \<times> 'w device" where
  "device_reopen os d =
     device_open os (if dev_fd d then d\<lparr>dev_fd := False, dev_world := os_close os (dev_world d)\<rparr> else d)"

definition write_sysfs :: "'w os_api \<Rightarrow> string \<Rightarrow> string \<Rightarrow> 'w device \<Rightarrow> (device_error + string) \<times> 'w device" where
  "write_sysfs os name val d =
     (if \<not> os_open_attr os name (dev_world d) then (Inl Cannot_open, d)
      else (Inr val, d\<lparr>dev_world := snd (os_store os name val (dev_world d))\<rparr>))"

text \<open>\<open>std::getline\<close>: up to the first newline; a failed read of the attribute leaves the line empty.\<close>

definition read_sysfs :: "'w os_api \<Rightarrow> string \<Rightarrow> 'w device \<Rightarrow> (device_error + string) \<times> 'w device" where
  "read_sysfs os name d =
     (if \<not> os_open_attr os name (dev_world d) then (Inl Cannot_open, d)
      else case os_show os name (dev_world d) of
             (Inl e, w) \<Rightarrow> (Inr [], d\<lparr>dev_world := w\<rparr>)
           | (Inr text, w) \<Rightarrow> (Inr (takeWhile (\<lambda>ch. ch \<noteq> CHR 0x0A) text), d\<lparr>dev_world := w\<rparr>))"

definition start_acquisition :: "'w os_api \<Rightarrow> 'w device \<Rightarrow> (device_error + string) \<times> 'w device" where
  "start_acquisition os = write_sysfs os ''control'' ''1''"

definition stop_acquisition :: "'w os_api \<Rightarrow> 'w device \<Rightarrow> (device_error + string) \<times> 'w device" where
  "stop_acquisition os = write_sysfs os ''control'' ''0''"

definition read_u32 :: "'w os_api \<Rightarrow> string \<Rightarrow> 'w device \<Rightarrow> (device_error + u32) \<times> 'w device" where
  "read_u32 os name d =
     (case read_sysfs os name d of
        (Inl e, d1) \<Rightarrow> (Inl e, d1)
      | (Inr line, d1) \<Rightarrow> ((case stoul line of Inl e \<Rightarrow> Inl e | Inr v \<Rightarrow> Inr (ucast v)), d1))"

definition read_device_id :: "'w os_api \<Rightarrow> 'w device \<Rightarrow> (device_error + u32) \<times> 'w device" where
  "read_device_id os = read_u32 os ''device_id''"

definition read_fw_version :: "'w os_api \<Rightarrow> 'w device \<Rightarrow> (device_error + u32) \<times> 'w device" where
  "read_fw_version os = read_u32 os ''fw_version''"

definition read_kfifo_overflow :: "'w os_api \<Rightarrow> 'w device \<Rightarrow> (device_error + u32) \<times> 'w device" where
  "read_kfifo_overflow os = read_u32 os ''kfifo_overflow''"

definition read_sample_rate :: "'w os_api \<Rightarrow> 'w device \<Rightarrow> (device_error + u32) \<times> 'w device" where
  "read_sample_rate os = read_u32 os ''sample_rate''"

definition write_sample_rate :: "'w os_api \<Rightarrow> u32 \<Rightarrow> 'w device \<Rightarrow> (device_error + string) \<times> 'w device" where
  "write_sample_rate os hz = write_sysfs os ''sample_rate'' (dec_text (unat hz))"

definition wait_readable :: "'w os_api \<Rightarrow> 'w device \<Rightarrow> (device_error + bool) \<times> 'w device" where
  "wait_readable os d =
     (case os_poll os (dev_world d) of
        (Poll_eintr, w) \<Rightarrow> (Inr False, d\<lparr>dev_world := w\<rparr>)
      | (Poll_errno e, w) \<Rightarrow> (Inl (Poll_failed e), d\<lparr>dev_world := w\<rparr>)
      | (Poll_timeout, w) \<Rightarrow> (Inr False, d\<lparr>dev_world := w\<rparr>)
      | (Poll_events ev, w) \<Rightarrow>
          (Inr (ev AND (POLLIN OR POLLERR OR POLLHUP OR POLLNVAL) \<noteq> 0), d\<lparr>dev_world := w\<rparr>))"

text \<open>\<open>acc\<close> holds the bytes read so far. An interrupted read is retried, without bound.\<close>

partial_function (option) read_exact ::
  "'w os_api \<Rightarrow> nat \<Rightarrow> u8 list \<Rightarrow> 'w device \<Rightarrow> ((device_error + u8 list) \<times> 'w device) option" where
  "read_exact os len acc d =
     (if length acc < len
      then case os_read os (len - length acc) (dev_world d) of
             (Read_eintr, w) \<Rightarrow> read_exact os len acc (d\<lparr>dev_world := w\<rparr>)
           | (Read_errno e, w) \<Rightarrow> Some (Inl (Read_failed e), d\<lparr>dev_world := w\<rparr>)
           | (Read_bytes bs, w) \<Rightarrow>
               (if bs = [] then Some (Inl Read_eof, d\<lparr>dev_world := w\<rparr>)
                else read_exact os len (acc @ bs) (d\<lparr>dev_world := w\<rparr>))
      else Some (Inr acc, d))"

declare read_exact.simps [code]

text \<open>\<open>struct Sample\<close> in memory, little-endian, as the kernel copied it out.\<close>

definition le_bytes :: "nat \<Rightarrow> 'a::len word \<Rightarrow> u8 list" where
  "le_bytes n v = map (\<lambda>i. ucast (drop_bit (8 * i) v)) [0..<n]"

definition le_word :: "u8 list \<Rightarrow> 'a::len word" where
  "le_word bs = foldr (\<lambda>b acc. push_bit 8 acc OR ucast b) bs 0"

definition sample_bytes :: "custom_acq_sample \<Rightarrow> u8 list" where
  "sample_bytes s = le_bytes 4 (sm_seq s) @ le_bytes 4 (sm_value s) @ le_bytes 8 (sm_irq_ts_ns s)"

definition bytes_sample :: "u8 list \<Rightarrow> custom_acq_sample" where
  "bytes_sample bs = \<lparr>sm_seq = le_word (take 4 bs), sm_value = le_word (take 4 (drop 4 bs)),
     sm_irq_ts_ns = le_word (take 8 (drop 8 bs))\<rparr>"

definition read_sample :: "'w os_api \<Rightarrow> 'w device \<Rightarrow> ((device_error + custom_acq_sample) \<times> 'w device) option" where
  "read_sample os d =
     (case read_exact os 16 [] d of
        None \<Rightarrow> None
      | Some (Inl e, d1) \<Rightarrow> Some (Inl e, d1)
      | Some (Inr bs, d1) \<Rightarrow> Some (Inr (bytes_sample bs), d1))"

section \<open>The driver behind it\<close>

text \<open>
  The sysfs callbacks and the file operations of the driver as the system: the text a show callback
  emits, what a store callback is handed, and a non-blocking view of read (an empty queue is EAGAIN;
  the worker polls first). The bus answers through \<open>X\<close>, the kernel through \<open>k\<close>.
\<close>

definition show_dec :: "(errno + u32) \<times> 'w \<Rightarrow> (errno + string) \<times> 'w" where
  "show_dec r = (case r of (Inl e, w) \<Rightarrow> (Inl e, w) | (Inr v, w) \<Rightarrow> (Inr (dec_text (unat v) @ [CHR 0x0A]), w))"

definition show_hex :: "(errno + u32) \<times> 'w \<Rightarrow> (errno + string) \<times> 'w" where
  "show_hex r = (case r of (Inl e, w) \<Rightarrow> (Inl e, w) | (Inr v, w) \<Rightarrow> (Inr (''0x'' @ hex_text 8 (unat v) @ [CHR 0x0A]), w))"

definition driver_os ::
  "'b spi_bus \<Rightarrow> 'k kernel_api \<Rightarrow> module_params \<Rightarrow> ('b, 'k) custom_acq os_api" where
  "driver_os X k prm =
     \<lparr>os_open = (\<lambda>w. (True, w)), os_close = (\<lambda>w. w),
      os_read = (\<lambda>n w. case custom_acq_read k (\<lambda>p. (None, p)) True n w of
                   (Inl e, w1) \<Rightarrow> (Read_errno e, w1)
                 | (Inr (_, xs), w1) \<Rightarrow> (Read_bytes (concat (map sample_bytes xs)), w1)),
      os_poll = (\<lambda>w. (if custom_acq_poll k w then Poll_events POLLIN else Poll_timeout, w)),
      os_open_attr = (\<lambda>name w. True),
      os_store = (\<lambda>name val w.
        if name = ''control'' then control_store X k val w
        else if name = ''sample_rate'' then sample_rate_store X k val w else (Inl EIO, w)),
      os_show = (\<lambda>name w.
        if name = ''device_id'' then show_hex (device_id_show X prm w)
        else if name = ''fw_version'' then show_hex (fw_version_show X prm w)
        else if name = ''sample_rate'' then show_dec (sample_rate_show X prm w)
        else if name = ''kfifo_overflow'' then show_dec (Inr (kfifo_overflow_show w), w) else (Inl EIO, w))\<rparr>"

section \<open>Text round trips\<close>

lemma hex_digit_char: "d < 16 \<Longrightarrow> hex_digit (digit_char d) = Some d"
  by (auto simp: hex_digit_def digit_char_def Let_def)

lemma digit_of_char: "d < b \<Longrightarrow> b \<le> 16 \<Longrightarrow> digit_of b (digit_char d) = Some d"
  by (simp add: digit_of_def hex_digit_char)

lemma dec_text_ne: "dec_text n \<noteq> []"
  by (subst dec_text.simps) simp

lemma parse_dec_text:
  "parse_digits 10 acc (dec_text n @ s) = parse_digits 10 (acc * 10 ^ length (dec_text n) + n) s"
proof (induction n arbitrary: acc s rule: dec_text.induct)
  case (1 n)
  show ?case
  proof (cases "n < 10")
    case True
    then show ?thesis by (simp add: dec_text.simps [of n] digit_of_char mult.commute)
  next
    case False
    let ?q = "n div 10"
    have "parse_digits 10 acc (dec_text n @ s) = parse_digits 10 acc (dec_text ?q @ digit_char (n mod 10) # s)"
      using False by (simp add: dec_text.simps [of n])
    also have "\<dots> = parse_digits 10 (acc * 10 ^ length (dec_text ?q) + ?q) (digit_char (n mod 10) # s)"
      by (rule "1.IH" [OF False])
    also have "\<dots> = parse_digits 10 (10 * (acc * 10 ^ length (dec_text ?q) + ?q) + n mod 10) s"
      by (simp add: digit_of_char)
    also have "10 * (acc * 10 ^ length (dec_text ?q) + ?q) + n mod 10 = acc * 10 ^ length (dec_text n) + n"
      using False by (simp add: dec_text.simps [of n] algebra_simps)
    finally show ?thesis .
  qed
qed

text \<open>The first character of a number: a digit, and not zero unless the number is.\<close>

lemma dec_text_hd: "\<exists>d rest. dec_text n = digit_char d # rest \<and> d < 10 \<and> (0 < n \<longrightarrow> 0 < d) \<and> (n = 0 \<longrightarrow> rest = [])"
proof (induction n rule: dec_text.induct)
  case (1 n)
  show ?case
  proof (cases "n < 10")
    case True
    then show ?thesis by (intro exI [of _ n] exI [of _ "[]"]) (simp add: dec_text.simps [of n])
  next
    case False
    from "1.IH" [OF False] obtain d rest
      where ih: "dec_text (n div 10) = digit_char d # rest \<and> d < 10 \<and> (0 < n div 10 \<longrightarrow> 0 < d) \<and> (n div 10 = 0 \<longrightarrow> rest = [])"
      by (elim exE)
    then show ?thesis using False
      by (intro exI [of _ d] exI [of _ "rest @ [digit_char (n mod 10)]"]) (simp add: dec_text.simps [of n] div_greater_zero_iff)
  qed
qed

lemma digit_char_plain:
  assumes "d < 10"
  shows "\<not> is_space (digit_char d)" "digit_char d \<noteq> CHR ''-''" "digit_char d \<noteq> CHR ''+''"
    "digit_char d = CHR ''0'' \<longleftrightarrow> d = 0" "digit_char d \<noteq> CHR ''x''" "digit_char d \<noteq> CHR ''X''" "digit_char d \<noteq> CHR 0x0A"
proof -
  have n: "of_char (digit_char d) = (48 + d :: nat)" using assms by (simp add: digit_char_def)
  then show "\<not> is_space (digit_char d)" by (simp add: is_space_def Let_def)
  have ne: "digit_char d \<noteq> ch" if "of_char ch \<noteq> (48 + d :: nat)" for ch using that n by auto
  show "digit_char d \<noteq> CHR ''-''" "digit_char d \<noteq> CHR ''+''" "digit_char d \<noteq> CHR 0x0A"
    "digit_char d \<noteq> CHR ''x''" "digit_char d \<noteq> CHR ''X''"
    by (rule ne, use assms in simp)+
  have "digit_char 0 = CHR ''0''" by code_simp
  moreover have "d \<noteq> 0 \<Longrightarrow> digit_char d \<noteq> CHR ''0''" by (rule ne) simp
  ultimately show "digit_char d = CHR ''0'' \<longleftrightarrow> d = 0" by auto
qed

lemma stoul_dec_text:
  assumes "n < 2 ^ 64"
  shows "stoul (dec_text n) = Inr (of_nat n)"
proof -
  obtain d rest where d: "dec_text n = digit_char d # rest" "d < 10" "0 < n \<longrightarrow> 0 < d"
    using dec_text_hd [of n] by (elim exE conjE)
  note p = digit_char_plain [OF d(2)]
  have parse: "parse_digits 10 0 (dec_text n) = n" using parse_dec_text [of 0 n "[]"] by simp
  show ?thesis
  proof (cases "n = 0")
    case True
    then have "dec_text n = ''0''" using digit_char_plain(4) [of 0] by (simp add: dec_text.simps [of 0])
    then show ?thesis using True
      by (simp add: stoul_def is_space_def Let_def has_digit_def digit_of_def hex_digit_def)
  next
    case False
    have pre: "strip_prefix (dec_text n) = (10, dec_text n)"
      using False d(1,3) p(4) by (cases rest) simp_all
    have "has_digit 10 (dec_text n)" using d by (simp add: has_digit_def digit_of_char)
    moreover have "dropWhile is_space (dec_text n) = dec_text n" by (simp add: d(1) p(1))
    moreover have "hd (dec_text n) \<noteq> CHR ''-''" "hd (dec_text n) \<noteq> CHR ''+''" by (simp_all add: d(1) p(2,3))
    ultimately show ?thesis using assms unfolding stoul_def by (simp add: Let_def pre parse not_le)
  qed
qed

lemma hex_text_char: "ch \<in> set (hex_text i v) \<Longrightarrow> \<exists>d < 16. ch = digit_char d"
proof (induction i arbitrary: v)
  case (Suc i)
  then show ?case by (cases "ch = digit_char (v mod 16)") (auto intro!: exI [of _ "v mod 16"])
qed simp

lemma length_hex_text [simp]: "length (hex_text i v) = i"
  by (induction i arbitrary: v) simp_all

lemma parse_hex_text: "parse_digits 16 acc (hex_text i v @ s) = parse_digits 16 (acc * 16 ^ i + v mod 16 ^ i) s"
proof (induction i arbitrary: v s)
  case (Suc i)
  have "parse_digits 16 acc (hex_text (Suc i) v @ s) = parse_digits 16 (16 * (acc * 16 ^ i + v div 16 mod 16 ^ i) + v mod 16) s"
    using Suc.IH [of "v div 16" "digit_char (v mod 16) # s"] by (simp add: digit_of_char)
  also have "16 * (acc * 16 ^ i + v div 16 mod 16 ^ i) + v mod 16 = acc * 16 ^ Suc i + v mod 16 ^ Suc i"
    by (simp add: mod_mult2_eq algebra_simps)
  finally show ?case .
qed simp

lemma stoul_hex_text:
  assumes "v < 2 ^ 32"
  shows "stoul (''0x'' @ hex_text 8 v) = Inr (of_nat v)"
proof -
  have parse: "parse_digits 16 0 (hex_text 8 v) = v"
    using parse_hex_text [of 0 8 v "[]"] assms by simp
  obtain ch rest where c: "hex_text 8 v = ch # rest" using length_hex_text [of 8 v] by (cases "hex_text 8 v") auto
  then obtain d where "d < 16" "ch = digit_char d" using hex_text_char [of ch 8 v] by auto
  then have dig: "has_digit 16 (hex_text 8 v)" by (simp add: c has_digit_def digit_of_char)
  have big: "\<not> 2 ^ 64 \<le> v" using assms by simp
  have sp: "\<not> is_space (CHR ''0'')" by (simp add: is_space_def Let_def)
  show ?thesis using dig parse big sp by (simp add: stoul_def Let_def del: hex_text.simps)
qed

section \<open>Bytes of a sample\<close>

lemma le_bytes_Suc: "le_bytes (Suc n) v = ucast v # le_bytes n (drop_bit 8 v)"
  unfolding le_bytes_def upt_conv_Cons [OF zero_less_Suc] list.map
  by (simp add: map_Suc_upt [symmetric] drop_bit_drop_bit ac_simps del: upt_Suc map_Suc_upt)

lemma length_le_bytes [simp]: "length (le_bytes n v) = n"
  by (simp add: le_bytes_def)

lemma le_word_bytes: "le_word (le_bytes n v) = take_bit (8 * n) v"
proof (induction n arbitrary: v)
  case 0
  then show ?case by (simp add: le_bytes_def le_word_def)
next
  case (Suc n)
  have "le_word (le_bytes (Suc n) v) = push_bit 8 (take_bit (8 * n) (drop_bit 8 v)) OR ucast (ucast v :: u8)"
    using Suc.IH [of "drop_bit 8 v"] by (simp add: le_bytes_Suc le_word_def)
  also have "\<dots> = take_bit (8 * Suc n) v"
    by (rule bit_word_eqI) (auto simp: bit_simps)
  finally show ?case .
qed

lemma bytes_sample_bytes: "bytes_sample (sample_bytes s) = s"
proof -
  have "le_word (le_bytes 4 v) = v" for v :: u32 using le_word_bytes [of 4 v] by (simp add: take_bit_word_eq_self)
  moreover have "le_word (le_bytes 8 v) = v" for v :: u64 using le_word_bytes [of 8 v] by (simp add: take_bit_word_eq_self)
  ultimately show ?thesis by (simp add: bytes_sample_def sample_bytes_def)
qed

lemma length_sample_bytes [simp]: "length (sample_bytes s) = 16"
  by (simp add: sample_bytes_def)

section \<open>Reading exactly\<close>

text \<open>
  \<open>handed os n bs w w'\<close>: with \<open>n\<close> bytes still wanted, the system hands out \<open>bs\<close> in non-empty pieces, with
  interrupted calls in between; \<open>n - length bs\<close> bytes are wanted after it. \<open>delivers\<close> is the case in
  which nothing is left to ask for.
\<close>

inductive handed :: "'w os_api \<Rightarrow> nat \<Rightarrow> u8 list \<Rightarrow> 'w \<Rightarrow> 'w \<Rightarrow> bool" for os where
  handed_done: "handed os n [] w w"
| handed_eintr: "0 < n \<Longrightarrow> os_read os n w = (Read_eintr, w1) \<Longrightarrow> handed os n bs w1 w2 \<Longrightarrow> handed os n bs w w2"
| handed_piece: "0 < n \<Longrightarrow> c \<noteq> [] \<Longrightarrow> os_read os n w = (Read_bytes c, w1) \<Longrightarrow> handed os (n - length c) bs w1 w2 \<Longrightarrow>
     handed os n (c @ bs) w w2"

definition delivers :: "'w os_api \<Rightarrow> u8 list \<Rightarrow> 'w \<Rightarrow> 'w \<Rightarrow> bool" where
  "delivers os bs w w' \<longleftrightarrow> handed os (length bs) bs w w'"

lemma delivers_done: "delivers os [] w w"
  by (simp add: delivers_def handed_done)

lemma delivers_eintr:
  "bs \<noteq> [] \<Longrightarrow> os_read os (length bs) w = (Read_eintr, w1) \<Longrightarrow> delivers os bs w1 w2 \<Longrightarrow> delivers os bs w w2"
  by (simp add: delivers_def handed_eintr)

lemma delivers_piece:
  "c \<noteq> [] \<Longrightarrow> os_read os (length (c @ bs)) w = (Read_bytes c, w1) \<Longrightarrow> delivers os bs w1 w2 \<Longrightarrow> delivers os (c @ bs) w w2"
  unfolding delivers_def by (rule handed_piece) simp_all

text \<open>What has been handed out so far can be cut off the front of the loop.\<close>

lemma read_exact_handed:
  assumes "handed os n bs w w'" "length acc + n = len" "length bs \<le> n"
  shows "read_exact os len acc (d\<lparr>dev_world := w\<rparr>) = read_exact os len (acc @ bs) (d\<lparr>dev_world := w'\<rparr>)"
  using assms
proof (induction arbitrary: acc rule: handed.induct)
  case (handed_eintr n w w1 bs w2)
  have "read_exact os len acc (d\<lparr>dev_world := w\<rparr>) = read_exact os len acc (d\<lparr>dev_world := w1\<rparr>)"
    using handed_eintr by (subst read_exact.simps) auto
  then show ?case using handed_eintr by simp
next
  case (handed_piece n c w w1 bs w2)
  have "read_exact os len acc (d\<lparr>dev_world := w\<rparr>) = read_exact os len (acc @ c) (d\<lparr>dev_world := w1\<rparr>)"
    using handed_piece by (subst read_exact.simps) auto
  then show ?case using handed_piece.IH [of "acc @ c"] handed_piece.prems by simp
qed simp

lemma read_exact_delivers:
  assumes "delivers os bs w w'"
  shows "read_exact os (length acc + length bs) acc (d\<lparr>dev_world := w\<rparr>) = Some (Inr (acc @ bs), d\<lparr>dev_world := w'\<rparr>)"
  using read_exact_handed [of os "length bs" bs w w' acc] assms
  by (simp add: delivers_def read_exact.simps [of os _ "acc @ bs"])

text \<open>A failed call and the end of the file stop the loop at once, whatever was read before.\<close>

lemma read_exact_stops:
  assumes "handed os len bs w w1" "length bs < len" "os_read os (len - length bs) w1 = (r, w')"
  shows "r = Read_errno e \<Longrightarrow> read_exact os len [] (d\<lparr>dev_world := w\<rparr>) = Some (Inl (Read_failed e), d\<lparr>dev_world := w'\<rparr>)"
    and "r = Read_bytes [] \<Longrightarrow> read_exact os len [] (d\<lparr>dev_world := w\<rparr>) = Some (Inl Read_eof, d\<lparr>dev_world := w'\<rparr>)"
  using read_exact_handed [OF assms(1), of "[]" len d] assms(2,3)
  by (simp_all add: read_exact.simps [of os _ bs])

definition read_bounded :: "'w os_api \<Rightarrow> bool" where
  "read_bounded os \<longleftrightarrow> (\<forall>n w bs w'. os_read os n w = (Read_bytes bs, w') \<longrightarrow> length bs \<le> n)"

lemma read_exact_result:
  assumes "read_exact os len acc d = Some r"
  shows "read_bounded os \<longrightarrow> length acc \<le> len \<longrightarrow> (\<forall>bs. fst r = Inr bs \<longrightarrow> length bs = len \<and> take (length acc) bs = acc)"
proof (rule read_exact.raw_induct [OF _ assms], goal_cases)
  case (1 f os len acc d r)
  show ?case
  proof (intro impI)
    assume b: "read_bounded os" and l: "length acc \<le> len"
    obtain res w where rd: "os_read os (len - length acc) (dev_world d) = (res, w)" by fastforce
    show "\<forall>bs. fst r = Inr bs \<longrightarrow> length bs = len \<and> take (length acc) bs = acc"
    proof (cases "length acc < len")
      case False
      then show ?thesis using 1(2) l by auto
    next
      case less: True
      show ?thesis
      proof (cases res)
        case Read_eintr
        then have "f os len acc (d\<lparr>dev_world := w\<rparr>) = Some r" using 1(2) rd less by simp
        from 1(1) [OF this] show ?thesis using b l by simp
      next
        case (Read_errno e)
        then show ?thesis using 1(2) rd less by auto
      next
        case (Read_bytes bs)
        show ?thesis
        proof (cases "bs = []")
          case True
          then show ?thesis using 1(2) rd less Read_bytes by auto
        next
          case False
          then have "f os len (acc @ bs) (d\<lparr>dev_world := w\<rparr>) = Some r" using 1(2) rd less Read_bytes by simp
          from 1(1) [OF this] have ih: "length (acc @ bs) \<le> len \<longrightarrow>
              (\<forall>cs. fst r = Inr cs \<longrightarrow> length cs = len \<and> take (length (acc @ bs)) cs = acc @ bs)" using b by (rule mp)
          have "length bs \<le> len - length acc" using b rd Read_bytes unfolding read_bounded_def by blast
          then have le: "length (acc @ bs) \<le> len" using l by simp
          show ?thesis
          proof (intro allI impI)
            fix cs
            assume "fst r = Inr cs"
            then have cs: "length cs = len" "take (length (acc @ bs)) cs = acc @ bs" using ih le by blast+
            then have "take (length acc) (take (length (acc @ bs)) cs) = acc" by simp
            then show "length cs = len \<and> take (length acc) cs = acc" using cs(1) by (simp add: min_def)
          qed
        qed
      qed
    qed
  qed
qed

lemma read_sample_driver:
  fixes k :: "'k kernel_api" and w :: "('b, 'k) custom_acq"
  assumes "kfifo_laws k items" "kfifo_copy_laws k items" "items (samples w) = x # xs"
  shows "\<exists>r q. read_sample (driver_os X k prm) (d\<lparr>dev_world := w\<rparr>) = Some (r, d\<lparr>dev_world := w\<lparr>samples := q\<rparr>\<rparr>)
     \<and> (r = Inl (Read_failed EFAULT) \<or> r = Inr x \<and> items q = xs)"
proof -
  obtain err ys q where t: "kf_to_user k (samples w) 1 = (err, ys, q)" by (metis prod_cases3)
  have law: "case err of None \<Rightarrow> ys = [x] \<and> items q = xs | Some e \<Rightarrow> e = EFAULT"
    using assms(2) [unfolded kfifo_copy_laws_def, THEN spec, of "samples w", THEN spec, of 1] assms(3) t
    by (simp split: option.splits)
  have e: "\<not> kf_is_empty k (samples w)" using kfifo_lawsD(3) [OF assms(1)] assms(3) by simp
  have rd: "os_read (driver_os X k prm) 16 w =
      (case err of Some e \<Rightarrow> (Read_errno e, w\<lparr>samples := q\<rparr>) | None \<Rightarrow> (Read_bytes (concat (map sample_bytes ys)), w\<lparr>samples := q\<rparr>))"
    using t e by (simp add: driver_os_def custom_acq_read_def Let_def split: option.split)
  show ?thesis
  proof (cases err)
    case None
    then have "os_read (driver_os X k prm) 16 w = (Read_bytes (sample_bytes x), w\<lparr>samples := q\<rparr>)" using rd law by simp
    then have "delivers (driver_os X k prm) (sample_bytes x) w (w\<lparr>samples := q\<rparr>)"
      using delivers_piece [of "sample_bytes x" "driver_os X k prm" "[]" w "w\<lparr>samples := q\<rparr>"] length_sample_bytes [of x]
      by (cases "sample_bytes x = []") (simp_all add: delivers_done)
    from read_exact_delivers [OF this, of "[]" d]
    have "read_sample (driver_os X k prm) (d\<lparr>dev_world := w\<rparr>) = Some (Inr x, d\<lparr>dev_world := w\<lparr>samples := q\<rparr>\<rparr>)"
      by (simp add: read_sample_def bytes_sample_bytes)
    then show ?thesis using None law by auto
  next
    case (Some e)
    then have "read_exact (driver_os X k prm) 16 [] (d\<lparr>dev_world := w\<rparr>)
        = Some (Inl (Read_failed e), d\<lparr>dev_world := w\<lparr>samples := q\<rparr>\<rparr>)"
      using rd by (subst read_exact.simps) simp
    then show ?thesis using Some law by (auto simp: read_sample_def)
  qed
qed

lemma sysfs_read_driver:
  fixes X :: "'b spi_bus" and k :: "'k kernel_api" and prm :: module_params
  defines "os \<equiv> driver_os X k prm"
  shows "read_kfifo_overflow os d = (Inr (kfifo_overflow (dev_world d)), d)
     \<and> read_device_id os d = (case device_id_show X prm (dev_world d) of
          (Inr v, w) \<Rightarrow> (Inr v, d\<lparr>dev_world := w\<rparr>) | (Inl e, w) \<Rightarrow> (Inl Invalid_argument, d\<lparr>dev_world := w\<rparr>))
     \<and> read_fw_version os d = (case fw_version_show X prm (dev_world d) of
          (Inr v, w) \<Rightarrow> (Inr v, d\<lparr>dev_world := w\<rparr>) | (Inl e, w) \<Rightarrow> (Inl Invalid_argument, d\<lparr>dev_world := w\<rparr>))
     \<and> read_sample_rate os d = (case sample_rate_show X prm (dev_world d) of
          (Inr v, w) \<Rightarrow> (Inr v, d\<lparr>dev_world := w\<rparr>) | (Inl e, w) \<Rightarrow> (Inl Invalid_argument, d\<lparr>dev_world := w\<rparr>))"
proof -
  have empty: "stoul [] = Inl Invalid_argument" by (simp add: stoul_def has_digit_def)
  have no_nl: "takeWhile (\<lambda>ch. ch \<noteq> CHR 0x0A) (s @ [CHR 0x0A]) = s" if "\<forall>ch \<in> set s. ch \<noteq> CHR 0x0A" for s
    using that by (simp add: takeWhile_append2)
  have dnl: "\<forall>ch \<in> set (dec_text n). ch \<noteq> CHR 0x0A" for n
  proof (induction n rule: dec_text.induct)
    case (1 n)
    then show ?case using digit_char_plain(7) [of n] digit_char_plain(7) [of "n mod 10"]
      by (auto simp: dec_text.simps [of n])
  qed
  have hd16: "digit_char i \<noteq> CHR 0x0A" if "i < 16" for i
  proof
    assume "digit_char i = CHR 0x0A"
    then have "hex_digit (CHR 0x0A) = Some i" using hex_digit_char [OF that] by simp
    then show False by (simp add: hex_digit_def Let_def)
  qed
  have hnl: "\<forall>ch \<in> set (''0x'' @ hex_text 8 v). ch \<noteq> CHR 0x0A" for v 
  proof
    fix ch
    assume "ch \<in> set (''0x'' @ hex_text 8 v)"
    then consider "ch = CHR ''0''" | "ch = CHR ''x''" | "ch \<in> set (hex_text 8 v)" by auto
    then show "ch \<noteq> CHR 0x0A"
    proof cases
      case 3
      from hex_text_char [OF this] obtain i where "i < 16" "ch = digit_char i" by blast
      then show ?thesis using hd16 by simp
    qed simp_all
  qed
  have u32: "unat v < 2 ^ 32" "unat v < 2 ^ 64" "(ucast (of_nat (unat v) :: u64) :: u32) = v" for v :: u32
  proof -
    show l: "unat v < 2 ^ 32" using unsigned_less [of v] by simp
    then show "unat v < 2 ^ 64" by simp
    show "(ucast (of_nat (unat v) :: u64) :: u32) = v" using l by (simp add: word_unat_eq_iff unat_of_nat unsigned_ucast_eq take_bit_nat_eq_self take_bit_word_eq_self)
  qed
  have dec: "read_u32 os name d = (case r of (Inr v, w) \<Rightarrow> (Inr v, d\<lparr>dev_world := w\<rparr>) | (Inl e, w) \<Rightarrow> (Inl Invalid_argument, d\<lparr>dev_world := w\<rparr>))"
    if "os_show os name (dev_world d) = show_dec r" "os_open_attr os name (dev_world d)" for name r
    using that no_nl [OF dnl] stoul_dec_text u32 empty
    by (simp add: read_u32_def read_sysfs_def show_dec_def split: prod.split sum.split)
  have hex: "read_u32 os name d = (case r of (Inr v, w) \<Rightarrow> (Inr v, d\<lparr>dev_world := w\<rparr>) | (Inl e, w) \<Rightarrow> (Inl Invalid_argument, d\<lparr>dev_world := w\<rparr>))"
    if "os_show os name (dev_world d) = show_hex r" "os_open_attr os name (dev_world d)" for name r
    using that no_nl [OF hnl] stoul_hex_text u32 empty
    by (simp add: read_u32_def read_sysfs_def show_hex_def del: hex_text.simps split: prod.split sum.split)
  show ?thesis
    using dec [of "''kfifo_overflow''"] dec [of "''sample_rate''"] hex [of "''device_id''"] hex [of "''fw_version''"]
    by (simp add: os_def driver_os_def read_kfifo_overflow_def read_sample_rate_def read_device_id_def
        read_fw_version_def kfifo_overflow_show_def)
qed

section \<open>Properties\<close>

text \<open>C19. Reading exactly so many bytes. However the system cuts the data into pieces and interrupts the
  calls, the loop ends with the bytes in order. A call that fails ends it at once with that error, a
  call that returns nothing ends it with the end-of-file error, however much was read before. And
  whenever it ends without an error, it has exactly the number asked for, provided that a read never
  returns more than it was asked for.\<close>

theorem read_exact_correct:
  "(\<forall>bs w w'. delivers os bs w w' \<longrightarrow>
      read_exact os (length bs) [] (d\<lparr>dev_world := w\<rparr>) = Some (Inr bs, d\<lparr>dev_world := w'\<rparr>))
   \<and> (\<forall>len bs e w w1 w'. handed os len bs w w1 \<longrightarrow> length bs < len \<longrightarrow>
        os_read os (len - length bs) w1 = (Read_errno e, w') \<longrightarrow>
        read_exact os len [] (d\<lparr>dev_world := w\<rparr>) = Some (Inl (Read_failed e), d\<lparr>dev_world := w'\<rparr>))
   \<and> (\<forall>len bs w w1 w'. handed os len bs w w1 \<longrightarrow> length bs < len \<longrightarrow>
        os_read os (len - length bs) w1 = (Read_bytes [], w') \<longrightarrow>
        read_exact os len [] (d\<lparr>dev_world := w\<rparr>) = Some (Inl Read_eof, d\<lparr>dev_world := w'\<rparr>))
   \<and> (\<forall>len bs d1 d2. read_bounded os \<longrightarrow> read_exact os len [] d1 = Some (Inr bs, d2) \<longrightarrow> length bs = len)"
proof (intro conjI allI impI)
  fix bs w w'
  assume "delivers os bs w w'"
  from read_exact_delivers [OF this, of "[]" d]
  show "read_exact os (length bs) [] (d\<lparr>dev_world := w\<rparr>) = Some (Inr bs, d\<lparr>dev_world := w'\<rparr>)" by simp
next
  fix len bs d1 d2
  assume "read_bounded os" "read_exact os len [] d1 = Some (Inr bs, d2)"
  then show "length bs = len" using read_exact_result [of os len "[]" d1 "(Inr bs, d2)"] by simp
qed (rule read_exact_stops; simp)+

text \<open>A system that replays a script of results.\<close>

definition script_os :: "read_result list os_api" where
  "script_os = \<lparr>os_open = (\<lambda>w. (True, w)), os_close = (\<lambda>w. w),
     os_read = (\<lambda>n w. case w of [] \<Rightarrow> (Read_bytes [], []) | r # rs \<Rightarrow> (r, rs)), os_poll = (\<lambda>w. (Poll_events POLLIN, w)),
     os_open_attr = (\<lambda>_ _. True), os_store = (\<lambda>_ _ w. (Inr 0, w)), os_show = (\<lambda>_ w. (Inr [], w))\<rparr>"

theorem read_exact_correct_witness:
  "delivers script_os [1, 2, 3] [Read_eintr, Read_bytes [1], Read_eintr, Read_bytes [2, 3]] []
   \<and> read_exact script_os 3 [] \<lparr>dev_fd = True, dev_world = [Read_eintr, Read_bytes [1], Read_eintr, Read_bytes [2, 3]]\<rparr>
     = Some (Inr [1, 2, 3], \<lparr>dev_fd = True, dev_world = []\<rparr>)
   \<and> read_exact script_os 3 [] \<lparr>dev_fd = True, dev_world = [Read_bytes [1], Read_errno EIO, Read_bytes [2, 3]]\<rparr>
     = Some (Inl (Read_failed EIO), \<lparr>dev_fd = True, dev_world = [Read_bytes [2, 3]]\<rparr>)
   \<and> read_exact script_os 3 [] \<lparr>dev_fd = True, dev_world = [Read_bytes [1], Read_bytes [], Read_bytes [2, 3]]\<rparr>
     = Some (Inl Read_eof, \<lparr>dev_fd = True, dev_world = [Read_bytes [2, 3]]\<rparr>)"
proof -
  let ?d = "\<lparr>dev_fd = True, dev_world = []\<rparr> :: read_result list device"
  note c = read_exact_correct [of script_os ?d]
  have d: "delivers script_os [2, 3] [Read_bytes [2, 3]] []"
    using delivers_piece [of "[2, 3]" script_os "[]" "[Read_bytes [2, 3]]" "[]" "[]"] delivers_done [of script_os "[]"]
    by (simp add: script_os_def)
  have d: "delivers script_os [2, 3] [Read_eintr, Read_bytes [2, 3]] []"
    using delivers_eintr [OF _ _ d, of "[Read_eintr, Read_bytes [2, 3]]"] by (simp add: script_os_def)
  have d: "delivers script_os [1, 2, 3] [Read_bytes [1], Read_eintr, Read_bytes [2, 3]] []"
    using delivers_piece [of "[1]" script_os "[2, 3]" "[Read_bytes [1], Read_eintr, Read_bytes [2, 3]]", OF _ _ d]
    by (simp add: script_os_def)
  have d: "delivers script_os [1, 2, 3] [Read_eintr, Read_bytes [1], Read_eintr, Read_bytes [2, 3]] []"
    using delivers_eintr [OF _ _ d, of "[Read_eintr, Read_bytes [1], Read_eintr, Read_bytes [2, 3]]"] by (simp add: script_os_def)
  have h: "handed script_os 3 [1] (Read_bytes [1] # rs) rs" for rs
    using handed_piece [of 3 "[1]" script_os "Read_bytes [1] # rs" rs "[]" rs] by (simp add: script_os_def handed_done)
  have e: "os_read script_os (3 - length [1 :: u8]) (r # rs) = (r, rs)" for r rs by (simp add: script_os_def)
  have l: "length [1 :: u8] < 3" by simp
  from d c [THEN conjunct1, rule_format, OF d]
    c [THEN conjunct2, THEN conjunct1, rule_format, OF h l e]
    c [THEN conjunct2, THEN conjunct2, THEN conjunct1, rule_format, OF h l e]
  show ?thesis by (simp add: numeral_3_eq_3)
qed

text \<open>C20. Samples cross the system call boundary intact: with a sample in the driver's queue, a read of
  the device returns exactly the oldest one, field by field, and removes it, unless the copy to
  user space faults.\<close>

theorem read_sample_oldest:
  fixes k :: "'k kernel_api" and w :: "('b, 'k) custom_acq"
  assumes "kfifo_laws k items" "kfifo_copy_laws k items" "items (samples w) = x # xs"
  shows "\<exists>r q. read_sample (driver_os X k prm) (d\<lparr>dev_world := w\<rparr>) = Some (r, d\<lparr>dev_world := w\<lparr>samples := q\<rparr>\<rparr>)
     \<and> (r = Inl (Read_failed EFAULT) \<or> r = Inr x \<and> items q = xs)"
  by (rule read_sample_driver [OF assms])

theorem read_sample_oldest_witness:
  "kfifo_laws list_kernel list_items \<and> kfifo_copy_laws list_kernel list_items
   \<and> list_items (samples (demo_acq () [demo_sample 7, demo_sample 8])) = [demo_sample 7, demo_sample 8]
   \<and> (\<exists>r q. read_sample (driver_os dead_bus list_kernel demo_params)
          ((\<lparr>dev_fd = True, dev_world = demo_acq () []\<rparr>)\<lparr>dev_world := demo_acq () [demo_sample 7, demo_sample 8]\<rparr>)
          = Some (r, (\<lparr>dev_fd = True, dev_world = demo_acq () []\<rparr>)
              \<lparr>dev_world := (demo_acq () [demo_sample 7, demo_sample 8])\<lparr>samples := q\<rparr>\<rparr>)
        \<and> (r = Inl (Read_failed EFAULT) \<or> r = Inr (demo_sample 7) \<and> list_items q = [demo_sample 8]))"
proof -
  have i: "list_items (samples (demo_acq () [demo_sample 7, demo_sample 8])) = [demo_sample 7, demo_sample 8]"
    by (simp add: list_items_def demo_acq_def)
  show ?thesis by (intro conjI list_kernel_laws(1,2) i read_sample_oldest [OF list_kernel_laws(1,2) i])
qed

text \<open>Numbers survive the trip through sysfs text: what the driver shows, in decimal or as eight
  hexadecimal digits, is the number the service gets; an attribute whose show callback fails reads
  as an empty line and is reported as an invalid number, never as a value.\<close>

theorem sysfs_numbers_roundtrip:
  fixes X :: "'b spi_bus" and k :: "'k kernel_api" and prm :: module_params
  defines "os \<equiv> driver_os X k prm"
  shows "read_kfifo_overflow os d = (Inr (kfifo_overflow (dev_world d)), d)
     \<and> read_device_id os d = (case device_id_show X prm (dev_world d) of
          (Inr v, w) \<Rightarrow> (Inr v, d\<lparr>dev_world := w\<rparr>) | (Inl e, w) \<Rightarrow> (Inl Invalid_argument, d\<lparr>dev_world := w\<rparr>))
     \<and> read_fw_version os d = (case fw_version_show X prm (dev_world d) of
          (Inr v, w) \<Rightarrow> (Inr v, d\<lparr>dev_world := w\<rparr>) | (Inl e, w) \<Rightarrow> (Inl Invalid_argument, d\<lparr>dev_world := w\<rparr>))
     \<and> read_sample_rate os d = (case sample_rate_show X prm (dev_world d) of
          (Inr v, w) \<Rightarrow> (Inr v, d\<lparr>dev_world := w\<rparr>) | (Inl e, w) \<Rightarrow> (Inl Invalid_argument, d\<lparr>dev_world := w\<rparr>))"
  unfolding os_def by (rule sysfs_read_driver)

text \<open>What a sysfs write reports. The call fails exactly when the attribute cannot be opened: a store
  callback that rejects the value runs when the stream is closed, after the check, so the rejection
  changes nothing on the device and nothing in the result.\<close>

theorem write_sysfs_reports:
  "(fst (write_sysfs os name val d) = Inl Cannot_open \<longleftrightarrow> \<not> os_open_attr os name (dev_world d))
   \<and> (os_open_attr os name (dev_world d) \<longrightarrow>
        fst (write_sysfs os name val d) = Inr val
        \<and> dev_world (snd (write_sysfs os name val d)) = snd (os_store os name val (dev_world d)))
   \<and> (k_strtou32 k (dec_text (unat hz)) = Inr hz \<longrightarrow> \<not> (1 \<le> hz \<and> hz \<le> 10000) \<longrightarrow>
        write_sample_rate (driver_os X k prm) hz e = (Inr (dec_text (unat hz)), e))"
proof -
  have "hz < 1 \<or> hz > 10000" if "\<not> (1 \<le> hz \<and> hz \<le> 10000)" using that by (simp add: not_le)
  then show ?thesis
    by (auto simp: write_sysfs_def write_sample_rate_def driver_os_def sample_rate_store_def)
qed

theorem write_sysfs_reports_witness:
  "k_strtou32 list_kernel (dec_text (unat (0 :: u32))) = Inr 0
   \<and> write_sample_rate (driver_os dead_bus list_kernel demo_params) 0 \<lparr>dev_fd = True, dev_world = demo_acq () []\<rparr>
     = (Inr ''0'', \<lparr>dev_fd = True, dev_world = demo_acq () []\<rparr>)"
proof -
  have z: "dec_text (unat (0 :: u32)) = ''0''" using digit_char_plain(4) [of 0] by (simp add: dec_text.simps [of 0])
  have k: "k_strtou32 list_kernel ''0'' = Inr 0"
    by (simp add: list_kernel_def list_strtou32_def chomp_def hex_digit_def Let_def)
  then show ?thesis
    using write_sysfs_reports [THEN conjunct2, THEN conjunct2, of list_kernel 0 dead_bus demo_params "\<lparr>dev_fd = True, dev_world = demo_acq () []\<rparr>"] z
    by simp
qed

end
