(* ===== verification/Mcu_Fifo.thy ===== *)
theory Mcu_Fifo
  imports Queue_Interface
begin

text \<open>
  The sample FIFO of the firmware (Core/Src/main.c, section FIFO operations): a ring of 32
  slots of which 31 are usable, written by the sample timer interrupt and read by the SPI
  interrupt. The record holds the FIFO's own globals; the firmware state of theory
  Mcu_Firmware extends it, so every operation here works on that state too.
\<close>

section \<open>State and operations\<close>

record FifoItem =
  fi_sequence :: u32
  fi_value :: u32

record mcu_fifo =
  fifo_buf :: "FifoItem list"
  fifo_head :: u16
  fifo_tail :: u16
  fifo_overflow :: u32
  seq_counter :: u32

definition FIFO_DEPTH :: u16 where
  "FIFO_DEPTH = 32"

definition fifo_level :: "'a mcu_fifo_scheme \<Rightarrow> u16" where
  "fifo_level s =
     (let h = fifo_head s; t = fifo_tail s
      in if h \<ge> t then h - t else FIFO_DEPTH - t + h)"

definition fifo_push :: "u32 \<Rightarrow> 'a mcu_fifo_scheme \<Rightarrow> 'a mcu_fifo_scheme" where
  "fifo_push v s =
     (let next = (fifo_head s + 1) mod FIFO_DEPTH
      in if next = fifo_tail s then s\<lparr>fifo_overflow := fifo_overflow s + 1\<rparr>
         else s\<lparr>fifo_buf := (fifo_buf s)[unat (fifo_head s) :=
                              \<lparr>fi_sequence = seq_counter s, fi_value = v\<rparr>],
                seq_counter := seq_counter s + 1,
                fifo_head := next\<rparr>)"

definition fifo_peek :: "'a mcu_fifo_scheme \<Rightarrow> FifoItem option" where
  "fifo_peek s =
     (if fifo_head s = fifo_tail s then None
      else Some (fifo_buf s ! unat (fifo_tail s)))"

definition fifo_pop :: "'a mcu_fifo_scheme \<Rightarrow> bool \<times> 'a mcu_fifo_scheme" where
  "fifo_pop s =
     (if fifo_head s = fifo_tail s then (False, s)
      else (True, s\<lparr>fifo_tail := (fifo_tail s + 1) mod FIFO_DEPTH\<rparr>))"

section \<open>Invariant and abstraction\<close>

text \<open>The indices stay inside the buffer, so no access of the code is out of bounds.\<close>

definition fifo_inv :: "'a mcu_fifo_scheme \<Rightarrow> bool" where
  "fifo_inv s \<longleftrightarrow>
     length (fifo_buf s) = unat FIFO_DEPTH \<and> fifo_head s < FIFO_DEPTH \<and> fifo_tail s < FIFO_DEPTH"

text \<open>The queue the ring stands for: the slots from the tail up to the head, oldest first.\<close>

definition fifo_items :: "'a mcu_fifo_scheme \<Rightarrow> FifoItem list" where
  "fifo_items s =
     ring_view (fifo_buf s) (unat (fifo_tail s)) (unat (fifo_level s))"

lemma fifo_invD:
  assumes "fifo_inv s"
  shows "length (fifo_buf s) = 32" "unat (fifo_head s) < 32" "unat (fifo_tail s) < 32"
  using assms by (auto simp: fifo_inv_def FIFO_DEPTH_def word_less_nat_alt)

lemma unat_next_index [ring_simps]: "unat ((i + 1) mod FIFO_DEPTH :: u16) = (unat i + 1) mod 32"
  by (simp add: FIFO_DEPTH_def unat_mod_distrib unat_word_ariths mod_mod_cancel)

lemma unat_fifo_level:
  assumes "fifo_inv s"
  shows "unat (fifo_level s) = (unat (fifo_head s) + 32 - unat (fifo_tail s)) mod 32"
proof (cases "fifo_tail s \<le> fifo_head s")
  case True
  then have "unat (fifo_level s) = unat (fifo_head s) - unat (fifo_tail s)"
    by (simp add: fifo_level_def unat_sub)
  moreover have "unat (fifo_tail s) \<le> unat (fifo_head s)"
    using True by (simp add: word_le_nat_alt)
  ultimately show ?thesis
    using fifo_invD [OF assms] by (simp add: mod_if)
next
  case False
  note b = fifo_invD [OF assms]
  from False have lt: "unat (fifo_head s) < unat (fifo_tail s)"
    by (simp add: word_le_nat_alt)
  have "unat (32 - fifo_tail s) = 32 - unat (fifo_tail s)"
    using b by (subst unat_sub) (auto simp: word_le_nat_alt)
  then have "unat (32 - fifo_tail s + fifo_head s) = 32 - unat (fifo_tail s) + unat (fifo_head s)"
    using b lt by (subst unat_add_lem [THEN iffD1]) auto
  then show ?thesis
    using False b lt by (simp add: fifo_level_def FIFO_DEPTH_def)
qed

lemma fifo_head_eq:
  assumes "fifo_inv s"
  shows "unat (fifo_head s) = (unat (fifo_tail s) + unat (fifo_level s)) mod 32"
proof -
  note b = fifo_invD [OF assms]
  have "(unat (fifo_tail s) + (unat (fifo_head s) + 32 - unat (fifo_tail s)) mod 32) mod 32
        = (unat (fifo_tail s) + (unat (fifo_head s) + 32 - unat (fifo_tail s))) mod 32"
    by (rule mod_add_right_eq)
  also have "\<dots> = unat (fifo_head s)" using b by simp
  finally show ?thesis using unat_fifo_level [OF assms] by simp
qed

lemma fifo_level_less: "fifo_inv s \<Longrightarrow> unat (fifo_level s) < 32"
  by (simp add: unat_fifo_level)

lemma length_fifo_items [simp]: "length (fifo_items s) = unat (fifo_level s)"
  by (simp add: fifo_items_def)

lemma fifo_empty_iff:
  assumes "fifo_inv s"
  shows "fifo_head s = fifo_tail s \<longleftrightarrow> fifo_items s = []"
proof -
  note b = fifo_invD [OF assms]
  have "unat (fifo_level s) = 0 \<longleftrightarrow> unat (fifo_head s) = unat (fifo_tail s)"
    unfolding unat_fifo_level [OF assms] using b by (auto simp: mod_if)
  then show ?thesis by (simp add: fifo_items_def word_unat_eq_iff)
qed

lemma fifo_full_iff:
  assumes "fifo_inv s"
  shows "(fifo_head s + 1) mod FIFO_DEPTH = fifo_tail s \<longleftrightarrow> length (fifo_items s) = 31"
proof -
  note b = fifo_invD [OF assms]
  have "(unat (fifo_head s) + 1) mod 32 = unat (fifo_tail s) \<longleftrightarrow> unat (fifo_level s) = 31"
    unfolding unat_fifo_level [OF assms] using b by (auto simp: mod_if)
  then show ?thesis by (simp add: word_unat_eq_iff unat_next_index)
qed

lemma fifo_itemsI:
  assumes "fifo_inv s" "n < 32" "unat (fifo_head s) = (unat (fifo_tail s) + n) mod 32"
  shows "fifo_items s = ring_view (fifo_buf s) (unat (fifo_tail s)) n"
proof -
  note b = fifo_invD [OF assms(1)]
  have "(unat (fifo_tail s) + n) mod 32 = (unat (fifo_tail s) + unat (fifo_level s)) mod 32"
    using fifo_head_eq [OF assms(1)] assms(3) by simp
  then have "unat (fifo_level s) = n"
    using ring_index_less [of n "unat (fifo_level s)" 32 "unat (fifo_tail s)"]
      ring_index_less [of "unat (fifo_level s)" n 32 "unat (fifo_tail s)"]
      fifo_level_less [OF assms(1)] assms(2) by (metis linorder_neqE_nat)
  then show ?thesis by (simp add: fifo_items_def)
qed

section \<open>The operations on the queue\<close>

lemma fifo_push_inv [inv_intros]: "fifo_inv s \<Longrightarrow> fifo_inv (fifo_push v s)"
  by (auto simp: fifo_push_def fifo_inv_def Let_def FIFO_DEPTH_def word_less_nat_alt unat_mod_distrib)

lemma fifo_pop_inv [inv_intros]: "fifo_inv s \<Longrightarrow> fifo_inv (snd (fifo_pop s))"
  by (auto simp: fifo_pop_def fifo_inv_def FIFO_DEPTH_def word_less_nat_alt unat_mod_distrib)

lemma fifo_push_full:
  assumes "fifo_inv s" "length (fifo_items s) = 31"
  shows "fifo_push v s = s\<lparr>fifo_overflow := fifo_overflow s + 1\<rparr>"
  using assms by (simp add: fifo_push_def fifo_full_iff)

lemma fifo_push_room:
  assumes "fifo_inv s" "length (fifo_items s) < 31"
  shows "fifo_items (fifo_push v s) = fifo_items s @ [\<lparr>fi_sequence = seq_counter s, fi_value = v\<rparr>]"
    and "seq_counter (fifo_push v s) = seq_counter s + 1"
    and "fifo_overflow (fifo_push v s) = fifo_overflow s"
proof -
  let ?n = "unat (fifo_level s)"
  note b = fifo_invD [OF assms(1)] and h = fifo_head_eq [OF assms(1)]
  have nf: "(fifo_head s + 1) mod FIFO_DEPTH \<noteq> fifo_tail s"
    using assms by (simp add: fifo_full_iff)
  then show "seq_counter (fifo_push v s) = seq_counter s + 1"
    and "fifo_overflow (fifo_push v s) = fifo_overflow s"
    by (simp_all add: fifo_push_def Let_def)
  have "fifo_items (fifo_push v s)
        = ring_view (fifo_buf (fifo_push v s)) (unat (fifo_tail (fifo_push v s))) (Suc ?n)"
  proof (rule fifo_itemsI [OF fifo_push_inv [OF assms(1)]])
    show "Suc ?n < 32" using assms(2) by simp
    show "unat (fifo_head (fifo_push v s)) = (unat (fifo_tail (fifo_push v s)) + Suc ?n) mod 32"
      using nf h by (simp add: fifo_push_def Let_def unat_next_index mod_Suc_eq)
  qed
  also have "\<dots> = fifo_items s @ [\<lparr>fi_sequence = seq_counter s, fi_value = v\<rparr>]"
    using nf ring_view_push [of ?n "fifo_buf s" "unat (fifo_tail s)"] b h assms(2)
    by (simp add: fifo_push_def Let_def fifo_items_def)
  finally show "fifo_items (fifo_push v s)
    = fifo_items s @ [\<lparr>fi_sequence = seq_counter s, fi_value = v\<rparr>]" .
qed

lemma fifo_peek_items:
  assumes "fifo_inv s"
  shows "fifo_peek s = (case fifo_items s of [] \<Rightarrow> None | x # _ \<Rightarrow> Some x)"
proof (cases "unat (fifo_level s)")
  case 0
  then show ?thesis using fifo_empty_iff [OF assms] by (simp add: fifo_peek_def fifo_items_def)
next
  case (Suc n)
  then show ?thesis using fifo_empty_iff [OF assms] fifo_invD [OF assms]
    by (simp add: fifo_peek_def fifo_items_def ring_view_pop)
qed

lemma fifo_pop_items:
  assumes "fifo_inv s"
  shows "fifo_items (snd (fifo_pop s)) = tl (fifo_items s)"
    and "fst (fifo_pop s) \<longleftrightarrow> fifo_items s \<noteq> []"
proof -
  note b = fifo_invD [OF assms] and h = fifo_head_eq [OF assms] and e = fifo_empty_iff [OF assms]
  show "fst (fifo_pop s) \<longleftrightarrow> fifo_items s \<noteq> []" using e by (simp add: fifo_pop_def)
  show "fifo_items (snd (fifo_pop s)) = tl (fifo_items s)"
  proof (cases "unat (fifo_level s)")
    case 0
    then show ?thesis using e by (simp add: fifo_pop_def fifo_items_def)
  next
    case (Suc n)
    then have ne: "fifo_head s \<noteq> fifo_tail s" using e by (simp add: fifo_items_def)
    have "fifo_items (snd (fifo_pop s))
        = ring_view (fifo_buf (snd (fifo_pop s))) (unat (fifo_tail (snd (fifo_pop s)))) n"
    proof (rule fifo_itemsI [OF fifo_pop_inv [OF assms]])
      show "n < 32" using Suc fifo_level_less [OF assms] by simp
      show "unat (fifo_head (snd (fifo_pop s))) = (unat (fifo_tail (snd (fifo_pop s))) + n) mod 32"
        using ne h Suc by (simp add: fifo_pop_def unat_next_index mod_add_left_eq)
    qed
    then show ?thesis
      using ne Suc b by (simp add: fifo_pop_def fifo_items_def ring_view_pop unat_next_index)
  qed
qed

section \<open>The FIFO as a bounded queue\<close>

text \<open>
  Reading \<open>REG_DATA_VAL\<close> with no peeked item is a peek followed by a pop; \<open>fifo_take\<close> is that
  pair. The depth of 32 slots gives a queue of 31 items.
\<close>

definition fifo_take :: "'a mcu_fifo_scheme \<Rightarrow> (FifoItem \<times> 'a mcu_fifo_scheme) option" where
  "fifo_take s = (case fifo_peek s of None \<Rightarrow> None | Some x \<Rightarrow> Some (x, snd (fifo_pop s)))"

definition fifo_stamp :: "'a mcu_fifo_scheme \<Rightarrow> u32 \<Rightarrow> FifoItem" where
  "fifo_stamp s v = \<lparr>fi_sequence = seq_counter s, fi_value = v\<rparr>"

interpretation mf: bounded_queue fifo_inv fifo_items "\<lambda>_. 31" fifo_stamp fifo_push fifo_take
proof
  fix q :: "'b mcu_fifo_scheme" and v x xs
  assume inv: "fifo_inv q"
  show "length (fifo_items q) \<le> 31" using fifo_level_less [OF inv] by simp
  show "fifo_inv (fifo_push v q)" using inv by (rule fifo_push_inv)
  show "length (fifo_items q) < 31 \<Longrightarrow> fifo_items (fifo_push v q) = fifo_items q @ [fifo_stamp q v]"
    using fifo_push_room (1) [OF inv] by (simp add: fifo_stamp_def)
  show "length (fifo_items q) = 31 \<Longrightarrow> fifo_items (fifo_push v q) = fifo_items q"
    using fifo_push_full [OF inv] by (simp add: fifo_items_def fifo_level_def)
  show "fifo_items q = [] \<Longrightarrow> fifo_take q = None"
    by (simp add: fifo_take_def fifo_peek_items [OF inv])
  show "fifo_items q = x # xs \<Longrightarrow>
      \<exists>q'. fifo_take q = Some (x, q') \<and> fifo_inv q' \<and> fifo_items q' = xs \<and> (31::nat) = 31"
    using inv by (simp add: fifo_take_def fifo_peek_items fifo_pop_items fifo_pop_inv)
qed simp

section \<open>Sequence numbers\<close>

text \<open>\<open>seqs_before c n\<close> are the \<open>n\<close> sequence numbers that end just before \<open>c\<close>, wrapping at \<open>2^32\<close>.\<close>

definition seqs_before :: "u32 \<Rightarrow> nat \<Rightarrow> u32 list" where
  "seqs_before c n = map (\<lambda>i. c - of_nat (n - i)) [0..<n]"

lemma length_seqs_before [simp]: "length (seqs_before c n) = n"
  by (simp add: seqs_before_def)

lemma seqs_before_0 [simp]: "seqs_before c 0 = []"
  by (simp add: seqs_before_def)

lemma seqs_before_push: "seqs_before (c + 1) (Suc n) = seqs_before c n @ [c]"
  by (auto simp: seqs_before_def Suc_diff_le of_nat_diff less_imp_le)

lemma seqs_before_pop: "seqs_before c (Suc n) = (c - of_nat (Suc n)) # seqs_before c n"
  unfolding seqs_before_def upt_conv_Cons [OF zero_less_Suc] list.map
  by (simp add: map_Suc_upt [symmetric] del: map_Suc_upt upt_Suc)

definition fifo_seq_inv :: "'a mcu_fifo_scheme \<Rightarrow> bool" where
  "fifo_seq_inv s \<longleftrightarrow> map fi_sequence (fifo_items s) = seqs_before (seq_counter s) (length (fifo_items s))"

lemma fifo_push_seq_inv [inv_intros]:
  assumes "fifo_inv s" "fifo_seq_inv s"
  shows "fifo_seq_inv (fifo_push v s)"
proof (cases "length (fifo_items s) < 31")
  case True
  then show ?thesis
    using assms fifo_push_room [OF assms(1) True, of v] by (simp add: fifo_seq_inv_def seqs_before_push)
next
  case False
  then have "length (fifo_items s) = 31" using mf.items_cap [OF assms(1)] by simp
  then show ?thesis
    using assms fifo_push_full [OF assms(1), of v]
    by (simp add: fifo_seq_inv_def fifo_items_def fifo_level_def)
qed

lemma seq_counter_pop [simp, frame_simps]: "seq_counter (snd (fifo_pop s)) = seq_counter s"
  by (simp add: fifo_pop_def)

lemma fifo_pop_seq_inv [inv_intros]:
  assumes "fifo_inv s" "fifo_seq_inv s"
  shows "fifo_seq_inv (snd (fifo_pop s))"
proof (cases "fifo_items s")
  case Nil
  then show ?thesis using assms by (simp add: fifo_seq_inv_def fifo_pop_items)
next
  case (Cons x xs)
  then have "unat (fifo_level s) = Suc (length xs)"
    by (metis length_Cons length_fifo_items)
  then show ?thesis
    using assms Cons by (simp add: fifo_seq_inv_def fifo_pop_items seqs_before_pop)
qed

section \<open>Properties\<close>

abbreviation (input) fifo_run :: "u32 qop list \<Rightarrow> 'a mcu_fifo_scheme \<Rightarrow> FifoItem list \<times> 'a mcu_fifo_scheme" where
  "fifo_run \<equiv> queue_run fifo_push fifo_take"

abbreviation (input) fifo_accepted :: "u32 qop list \<Rightarrow> 'a mcu_fifo_scheme \<Rightarrow> FifoItem list" where
  "fifo_accepted \<equiv> queue_accepted fifo_items (\<lambda>_. 31) fifo_stamp fifo_push fifo_take"

definition count_puts :: "'v qop list \<Rightarrow> nat" where
  "count_puts ops = length (filter (\<lambda>p. p \<noteq> Get) ops)"

lemma fifo_take_counters:
  "fifo_take s = Some (x, s') \<Longrightarrow> seq_counter s' = seq_counter s \<and> fifo_overflow s' = fifo_overflow s"
  by (auto simp: fifo_take_def fifo_pop_def split: option.splits if_splits)

lemma map_add_upt_Suc: "map (\<lambda>i. c + of_nat i) [0..<Suc n] = c # map (\<lambda>i. c + 1 + of_nat i) [0..<n :: nat]"
  for c :: u32
  unfolding upt_conv_Cons [OF zero_less_Suc] list.map map_Suc_upt [symmetric] map_map
  by (simp add: comp_def add.assoc)

lemma fifo_run_counters:
  assumes "fifo_inv s"
  shows "map fi_sequence (fifo_accepted ops s)
       = map (\<lambda>i. seq_counter s + of_nat i) [0..<length (fifo_accepted ops s)]
     \<and> fifo_overflow (snd (fifo_run ops s)) + of_nat (length (fifo_accepted ops s))
       = fifo_overflow s + of_nat (count_puts ops)"
  using assms
proof (induction ops arbitrary: s)
  case Nil
  then show ?case by (simp add: count_puts_def)
next
  case (Cons op ops)
  show ?case
  proof (cases op)
    case (Put v)
    have inv: "fifo_inv (fifo_push v s)" using Cons.prems by (rule fifo_push_inv)
    note IH = Cons.IH [OF inv]
    show ?thesis
    proof (cases "length (fifo_items s) < 31")
      case True
      note r = fifo_push_room [OF Cons.prems True, of v]
      show ?thesis using IH True r
        by (simp add: Put count_puts_def fifo_stamp_def map_add_upt_Suc algebra_simps del: upt_Suc)
    next
      case False
      then have full: "length (fifo_items s) = 31" using mf.items_cap [OF Cons.prems] by simp
      show ?thesis using IH full fifo_push_full [OF Cons.prems full, of v]
        by (simp add: Put count_puts_def algebra_simps del: upt_Suc)
    qed
  next
    case Get
    from Cons.prems show ?thesis
    proof (cases s rule: mf.get_cases)
      case empty
      then show ?thesis using Cons.IH [OF Cons.prems] Get by (simp add: count_puts_def)
    next
      case (item x s')
      then show ?thesis using Cons.IH [of s'] Get fifo_take_counters [of s x s']
        by (cases "fifo_run ops s'") (simp add: count_puts_def)
    qed
  qed
qed

definition demo_fifo :: mcu_fifo where
  "demo_fifo = \<lparr>fifo_buf = replicate 32 \<lparr>fi_sequence = 0, fi_value = 0\<rparr>, fifo_head = 31, fifo_tail = 31,
     fifo_overflow = 0, seq_counter = 5\<rparr>"

text \<open>C1. The ring is a first-in first-out queue of capacity 31, across the wrap-around of its indices:
  over any sequence of pushes and reads, what was read followed by what is still queued is what
  was queued before followed by what was accepted, in order; it never holds more than 31 items
  and its indices stay in range.\<close>

theorem fifo_order_capacity:
  assumes "fifo_inv s"
  shows "fst (queue_run fifo_push fifo_take ops s) @ fifo_items (snd (queue_run fifo_push fifo_take ops s))
       = fifo_items s @ queue_accepted fifo_items (\<lambda>_. 31) fifo_stamp fifo_push fifo_take ops s
     \<and> length (fifo_items (snd (queue_run fifo_push fifo_take ops s))) \<le> 31
     \<and> fifo_inv (snd (queue_run fifo_push fifo_take ops s))"
  using mf.run_fifo [OF assms] mf.run_bound [OF assms] mf.run_inv [OF assms] by auto

theorem fifo_order_capacity_witness:
  "fifo_inv demo_fifo
   \<and> fst (queue_run fifo_push fifo_take [Put 7, Put 8, Get] demo_fifo) = [\<lparr>fi_sequence = 5, fi_value = 7\<rparr>]
   \<and> length (fifo_items (snd (queue_run fifo_push fifo_take [Put 7, Put 8, Get] demo_fifo))) \<le> 31"
proof -
  have inv: "fifo_inv demo_fifo" by code_simp
  have "fst (queue_run fifo_push fifo_take [Put 7, Put 8, Get] demo_fifo) = [\<lparr>fi_sequence = 5, fi_value = 7\<rparr>]"
    by code_simp
  then show ?thesis using fifo_order_capacity [OF inv, of "[Put 7, Put 8, Get]"] inv by blast
qed

text \<open>Sequence numbers count accepted samples only: over any sequence of pushes and reads the
  accepted samples are numbered consecutively from the counter on, and every refused push is in
  the overflow counter and nowhere else. A FIFO overflow therefore shows in
  REG\_OVERFLOW\_COUNT and leaves no gap in the sequence numbers.\<close>

theorem fifo_sequence_contiguous:
  assumes "fifo_inv s"
  shows "map fi_sequence (queue_accepted fifo_items (\<lambda>_. 31) fifo_stamp fifo_push fifo_take ops s)
       = map (\<lambda>i. seq_counter s + of_nat i)
           [0..<length (queue_accepted fifo_items (\<lambda>_. 31) fifo_stamp fifo_push fifo_take ops s)]
     \<and> fifo_overflow (snd (queue_run fifo_push fifo_take ops s))
         + of_nat (length (queue_accepted fifo_items (\<lambda>_. 31) fifo_stamp fifo_push fifo_take ops s))
       = fifo_overflow s + of_nat (count_puts ops)"
  by (rule fifo_run_counters [OF assms])

theorem fifo_sequence_contiguous_witness:
  "fifo_inv demo_fifo
   \<and> fifo_overflow (snd (queue_run fifo_push fifo_take (replicate 33 (Put 0)) demo_fifo)) = 2"
proof -
  have inv: "fifo_inv demo_fifo" by code_simp
  have "length (queue_accepted fifo_items (\<lambda>_. 31) fifo_stamp fifo_push fifo_take (replicate 33 (Put 0)) demo_fifo) = 31"
    "count_puts (replicate 33 (Put (0::u32))) = 33" "fifo_overflow demo_fifo = 0" by code_simp+
  then show ?thesis
    using fifo_sequence_contiguous [OF inv, of "replicate 33 (Put 0)"] inv by simp
qed

end
