(* ===== verification/Devauth.thy ===== *)
theory Devauth
  imports Prelude "HOL-Library.Monad_Syntax"
begin

text \<open>
  Device authentication (Core/Src/devauth.c): the SHA-256 and HMAC-SHA256 implementation of
  the firmware, its key-present test and the MAC over the domain, the identity words and the
  nonce. The two loops whose exit depends on the context are partial functions, so that
  not returning is the value \<open>None\<close>; that they return is proved.

  The specification half is FIPS 180-4 and RFC 2104 as they are written: the message schedule
  as a recurrence, the padded message cut into blocks, the keyed hash of a keyed hash.
\<close>

section \<open>SHA-256 compression\<close>

text \<open>The round constants, in the eight rows of the source.\<close>

definition K256 :: "u32 list" where
  "K256 = concat [
     [0x428a2f98, 0x71374491, 0xb5c0fbcf, 0xe9b5dba5, 0x3956c25b, 0x59f111f1, 0x923f82a4, 0xab1c5ed5],
     [0xd807aa98, 0x12835b01, 0x243185be, 0x550c7dc3, 0x72be5d74, 0x80deb1fe, 0x9bdc06a7, 0xc19bf174],
     [0xe49b69c1, 0xefbe4786, 0x0fc19dc6, 0x240ca1cc, 0x2de92c6f, 0x4a7484aa, 0x5cb0a9dc, 0x76f988da],
     [0x983e5152, 0xa831c66d, 0xb00327c8, 0xbf597fc7, 0xc6e00bf3, 0xd5a79147, 0x06ca6351, 0x14292967],
     [0x27b70a85, 0x2e1b2138, 0x4d2c6dfc, 0x53380d13, 0x650a7354, 0x766a0abb, 0x81c2c92e, 0x92722c85],
     [0xa2bfe8a1, 0xa81a664b, 0xc24b8b70, 0xc76c51a3, 0xd192e819, 0xd6990624, 0xf40e3585, 0x106aa070],
     [0x19a4c116, 0x1e376c08, 0x2748774c, 0x34b0bcb5, 0x391c0cb3, 0x4ed8aa4a, 0x5b9cca4f, 0x682e6ff3],
     [0x748f82ee, 0x78a5636f, 0x84c87814, 0x8cc70208, 0x90befffa, 0xa4506ceb, 0xbef9a3f7, 0xc67178f2]]"

definition ROTR :: "u32 \<Rightarrow> nat \<Rightarrow> u32" where
  "ROTR x n = drop_bit n x OR push_bit (32 - n) x"

record sha256_ctx =
  ctx_h :: "u32 list"
  ctx_block :: "u8 list"
  ctx_used :: nat
  ctx_total :: u64

text \<open>The loop that loads the sixteen words of a block, and the one that extends them to 64.\<close>

definition sha256_load :: "u8 list \<Rightarrow> u32 list" where
  "sha256_load b =
     map (\<lambda>i. be32_word (b ! (4 * i)) (b ! (4 * i + 1)) (b ! (4 * i + 2)) (b ! (4 * i + 3))) [0..<16]"

definition sha256_extend :: "u32 list \<Rightarrow> nat \<Rightarrow> u32 list" where
  "sha256_extend w i =
     (let s0 = ROTR (w ! (i - 15)) 7 XOR ROTR (w ! (i - 15)) 18 XOR drop_bit 3 (w ! (i - 15));
          s1 = ROTR (w ! (i - 2)) 17 XOR ROTR (w ! (i - 2)) 19 XOR drop_bit 10 (w ! (i - 2))
      in w @ [w ! (i - 16) + s0 + w ! (i - 7) + s1])"

type_synonym working = "u32 \<times> u32 \<times> u32 \<times> u32 \<times> u32 \<times> u32 \<times> u32 \<times> u32"

definition sha256_round :: "u32 list \<Rightarrow> working \<Rightarrow> nat \<Rightarrow> working" where
  "sha256_round w v i =
     (case v of (a, bb, c, d, e, f, g, hh) \<Rightarrow>
        let t1 = hh + (ROTR e 6 XOR ROTR e 11 XOR ROTR e 25) + ((e AND f) XOR (NOT e AND g))
                   + K256 ! i + w ! i;
            t2 = (ROTR a 2 XOR ROTR a 13 XOR ROTR a 22) + ((a AND bb) XOR (a AND c) XOR (bb AND c))
        in (t1 + t2, a, bb, c, d + t1, e, f, g))"

definition sha256_compress :: "u32 list \<Rightarrow> u8 list \<Rightarrow> u32 list" where
  "sha256_compress h b =
     (let w = foldl sha256_extend (sha256_load b) [16..<64];
          (a, bb, c, d, e, f, g, hh) =
            foldl (sha256_round w) (h ! 0, h ! 1, h ! 2, h ! 3, h ! 4, h ! 5, h ! 6, h ! 7) [0..<64]
      in [h ! 0 + a, h ! 1 + bb, h ! 2 + c, h ! 3 + d, h ! 4 + e, h ! 5 + f, h ! 6 + g, h ! 7 + hh])"

section \<open>The streaming interface\<close>

definition sha256_iv :: "u32 list" where
  "sha256_iv = [0x6a09e667, 0xbb67ae85, 0x3c6ef372, 0xa54ff53a,
                0x510e527f, 0x9b05688c, 0x1f83d9ab, 0x5be0cd19]"

text \<open>
  \<open>sha256_init\<close> sets the chaining value and the counters and leaves the block buffer with
  whatever it held.
\<close>

definition sha256_init :: "sha256_ctx \<Rightarrow> sha256_ctx" where
  "sha256_init c = c\<lparr>ctx_h := sha256_iv, ctx_used := 0, ctx_total := 0\<rparr>"

definition memcpy_at :: "'a list \<Rightarrow> nat \<Rightarrow> 'a list \<Rightarrow> 'a list" where
  "memcpy_at dst off src = take off dst @ src @ drop (off + length src) dst"

text \<open>
  The loop of \<open>sha256_update\<close>: with a full block buffer (\<open>used = 64\<close>) it would copy nothing
  for ever, so it is a partial function.
\<close>

partial_function (option) sha256_update_loop :: "sha256_ctx \<Rightarrow> u8 list \<Rightarrow> sha256_ctx option" where
  "sha256_update_loop c p =
     (if p = [] then Some c
      else let n = (if 64 - ctx_used c > length p then length p else 64 - ctx_used c);
               c1 = c\<lparr>ctx_block := memcpy_at (ctx_block c) (ctx_used c) (take n p),
                      ctx_used := ctx_used c + n\<rparr>;
               c2 = (if ctx_used c1 = 64
                     then c1\<lparr>ctx_h := sha256_compress (ctx_h c1) (ctx_block c1), ctx_used := 0\<rparr>
                     else c1)
           in sha256_update_loop c2 (drop n p))"

definition sha256_update :: "sha256_ctx \<Rightarrow> u8 list \<Rightarrow> sha256_ctx option" where
  "sha256_update c p = sha256_update_loop (c\<lparr>ctx_total := ctx_total c + of_nat (length p)\<rparr>) p"

partial_function (option) sha256_pad_loop :: "sha256_ctx \<Rightarrow> sha256_ctx option" where
  "sha256_pad_loop c =
     (if ctx_used c = 56 then Some c
      else do { c1 \<leftarrow> sha256_update c [0]; sha256_pad_loop c1 })"

declare sha256_update_loop.simps [code] sha256_pad_loop.simps [code]

definition sha256_final :: "sha256_ctx \<Rightarrow> (u8 list \<times> sha256_ctx) option" where
  "sha256_final c =
     (let bits = ctx_total c * 8
      in do {
        c1 \<leftarrow> sha256_update c [0x80];
        c2 \<leftarrow> sha256_pad_loop c1;
        c3 \<leftarrow> sha256_update c2 (map (\<lambda>i. ucast (drop_bit (56 - 8 * i) bits)) [0..<8]);
        Some (concat (map (\<lambda>i. [ucast (drop_bit 24 (ctx_h c3 ! i)), ucast (drop_bit 16 (ctx_h c3 ! i)),
                                ucast (drop_bit 8 (ctx_h c3 ! i)), ucast (ctx_h c3 ! i)]) [0..<8]), c3)
      })"

text \<open>The context of \<open>sha256\<close> and \<open>hmac_sha256\<close> is a local variable; \<open>c0\<close> is its initial content.\<close>

definition sha256 :: "sha256_ctx \<Rightarrow> u8 list \<Rightarrow> u8 list option" where
  "sha256 c0 msg =
     do {
       c \<leftarrow> sha256_update (sha256_init c0) msg;
       (out, c') \<leftarrow> sha256_final c;
       Some out
     }"

section \<open>HMAC and the device MAC\<close>

definition hmac_sha256 :: "sha256_ctx \<Rightarrow> u8 list \<Rightarrow> u8 list \<Rightarrow> u8 list option" where
  "hmac_sha256 c0 key msg =
     do {
       k \<leftarrow> (if length key > 64
             then do { hk \<leftarrow> sha256 c0 key; Some (memcpy_at (replicate 64 0) 0 hk) }
             else Some (memcpy_at (replicate 64 0) 0 key));
       c1 \<leftarrow> sha256_update (sha256_init c0) (map (\<lambda>i. k ! i XOR 0x36) [0..<64]);
       c2 \<leftarrow> sha256_update c1 msg;
       (inner, c3) \<leftarrow> sha256_final c2;
       c4 \<leftarrow> sha256_update (sha256_init c3) (map (\<lambda>i. k ! i XOR 0x5c) [0..<64]);
       c5 \<leftarrow> sha256_update c4 inner;
       (out, c6) \<leftarrow> sha256_final c5;
       Some out
     }"

fun devauth_key_present :: "u8 list \<Rightarrow> bool" where
  "devauth_key_present [] = False"
| "devauth_key_present (b # bs) = (if b \<noteq> 0xFF then True else devauth_key_present bs)"

text \<open>The characters of \<open>DEVAUTH_DOMAIN\<close>, ''acq-auth-v1''.\<close>

definition DEVAUTH_DOMAIN :: "u8 list" where
  "DEVAUTH_DOMAIN = map of_char ''acq-auth-v1''"

definition devauth_msg :: "u32 \<Rightarrow> u32 \<Rightarrow> u8 list \<Rightarrow> u8 list" where
  "devauth_msg device_id fw_version nonce =
     DEVAUTH_DOMAIN
     @ map (\<lambda>i. ucast (drop_bit (24 - 8 * i) device_id)) [0..<4]
     @ map (\<lambda>i. ucast (drop_bit (24 - 8 * i) fw_version)) [0..<4]
     @ nonce"

definition devauth_compute ::
  "sha256_ctx \<Rightarrow> u8 list \<Rightarrow> u32 \<Rightarrow> u32 \<Rightarrow> u8 list \<Rightarrow> u8 list option" where
  "devauth_compute c0 key device_id fw_version nonce =
     do {
       full \<leftarrow> hmac_sha256 c0 key (devauth_msg device_id fw_version nonce);
       Some (take 16 full)
     }"

section \<open>FIPS 180-4 and RFC 2104\<close>

definition Ch :: "u32 \<Rightarrow> u32 \<Rightarrow> u32 \<Rightarrow> u32" where
  "Ch x y z = (x AND y) XOR (NOT x AND z)"

definition Maj :: "u32 \<Rightarrow> u32 \<Rightarrow> u32 \<Rightarrow> u32" where
  "Maj x y z = (x AND y) XOR (x AND z) XOR (y AND z)"

definition Sigma0 :: "u32 \<Rightarrow> u32" where
  "Sigma0 x = word_rotr 2 x XOR word_rotr 13 x XOR word_rotr 22 x"

definition Sigma1 :: "u32 \<Rightarrow> u32" where
  "Sigma1 x = word_rotr 6 x XOR word_rotr 11 x XOR word_rotr 25 x"

definition sigma0 :: "u32 \<Rightarrow> u32" where
  "sigma0 x = word_rotr 7 x XOR word_rotr 18 x XOR drop_bit 3 x"

definition sigma1 :: "u32 \<Rightarrow> u32" where
  "sigma1 x = word_rotr 17 x XOR word_rotr 19 x XOR drop_bit 10 x"

text \<open>The message schedule \<open>W\<^sub>t\<close> of one block, by its recurrence.\<close>

fun schedule :: "u8 list \<Rightarrow> nat \<Rightarrow> u32" where
  "schedule b t =
     (if t < 16 then be32_word (b ! (4 * t)) (b ! (4 * t + 1)) (b ! (4 * t + 2)) (b ! (4 * t + 3))
      else sigma1 (schedule b (t - 2)) + schedule b (t - 7) + sigma0 (schedule b (t - 15))
             + schedule b (t - 16))"

declare schedule.simps [simp del]

primrec rounds :: "u8 list \<Rightarrow> working \<Rightarrow> nat \<Rightarrow> working" where
  "rounds b v 0 = v"
| "rounds b v (Suc t) =
     (case rounds b v t of (a, bb, c, d, e, f, g, h) \<Rightarrow>
        let T1 = h + Sigma1 e + Ch e f g + K256 ! t + schedule b t;
            T2 = Sigma0 a + Maj a bb c
        in (T1 + T2, a, bb, c, d + T1, e, f, g))"

definition compress_spec :: "u32 list \<Rightarrow> u8 list \<Rightarrow> u32 list" where
  "compress_spec h b =
     (case rounds b (h ! 0, h ! 1, h ! 2, h ! 3, h ! 4, h ! 5, h ! 6, h ! 7) 64 of
        (a, bb, c, d, e, f, g, hh) \<Rightarrow>
          map2 (+) h [a, bb, c, d, e, f, g, hh])"

text \<open>
  Padding: a one bit, the least number of zero bits that makes the length 448 modulo 512, and
  the bit length of the message on 64 bits.
\<close>

definition pad_spec :: "u8 list \<Rightarrow> u8 list" where
  "pad_spec msg =
     msg @ [0x80] @ replicate ((119 - length msg mod 64) mod 64) 0
         @ map (\<lambda>i. of_nat (8 * length msg div 256 ^ (7 - i))) [0..<8]"

definition blocks64 :: "u8 list \<Rightarrow> u8 list list" where
  "blocks64 m = map (\<lambda>i. take 64 (drop (64 * i) m)) [0..<length m div 64]"

definition sha256_spec :: "u8 list \<Rightarrow> u8 list" where
  "sha256_spec msg = concat (map be32_bytes (foldl compress_spec sha256_iv (blocks64 (pad_spec msg))))"

definition hmac_spec :: "u8 list \<Rightarrow> u8 list \<Rightarrow> u8 list" where
  "hmac_spec key msg =
     (let k0 = (if length key > 64 then sha256_spec key else key);
          k = k0 @ replicate (64 - length k0) 0
      in sha256_spec (map (\<lambda>b. b XOR 0x5c) k @ sha256_spec (map (\<lambda>b. b XOR 0x36) k @ msg)))"

section \<open>The compression function meets its specification\<close>

lemma ROTR_rotr:
  assumes "0 < n" "n < 32"
  shows "ROTR x n = word_rotr n x"
proof (rule bit_word_eqI)
  fix i :: nat
  assume "i < LENGTH(32)"
  then have i: "i < 32" by simp
  have high: "\<not> bit x k" if "32 \<le> k" for k
    using that bit_imp_le_length [of x k] by auto
  have "bit (word_rotr n x) i \<longleftrightarrow> bit x ((i + n) mod 32)"
    using bit_word_rotr_iff [of n x i] i by simp
  moreover have "bit (ROTR x n) i \<longleftrightarrow> bit x (i + n) \<or> 32 - n \<le> i \<and> bit x (i - (32 - n))"
    using i by (simp add: ROTR_def bit_or_iff bit_drop_bit_eq bit_push_bit_iff add.commute)
  ultimately show "bit (ROTR x n) i = bit (word_rotr n x) i"
    using assms i high by (cases "i + n < 32") (auto simp: mod_if)
qed

lemma sha256_load_schedule: "sha256_load b = map (schedule b) [0..<16]"
  by (simp add: sha256_load_def schedule.simps)

lemma sha256_extend_schedule:
  assumes "16 \<le> i" "w = map (schedule b) [0..<i]"
  shows "sha256_extend w i = map (schedule b) [0..<Suc i]"
proof -
  have nth: "w ! (i - j) = schedule b (i - j)" if "0 < j" "j \<le> 16" for j
    using assms that by simp
  show ?thesis
    using assms
    by (simp add: sha256_extend_def nth Let_def ROTR_rotr schedule.simps [of b i] sigma0_def sigma1_def
        add_ac)
qed

lemma foldl_extend_schedule:
  "16 \<le> n \<Longrightarrow> foldl sha256_extend (sha256_load b) [16..<n] = map (schedule b) [0..<n]"
proof (induction n)
  case (Suc n)
  show ?case
  proof (cases "n = 15")
    case True
    then show ?thesis by (simp add: sha256_load_schedule del: upt_Suc)
  next
    case False
    then have "16 \<le> n" using Suc.prems by simp
    then show ?thesis using Suc.IH sha256_extend_schedule [of n _ b]
      by (simp del: upt_Suc add: upt_Suc_append)
  qed
qed simp

lemma foldl_round_rounds:
  "n \<le> m \<Longrightarrow> foldl (sha256_round (map (schedule b) [0..<m])) v [0..<n] = rounds b v n"
proof (induction n)
  case (Suc n)
  then show ?case
    by (simp add: sha256_round_def ROTR_rotr Sigma0_def Sigma1_def Ch_def Maj_def Let_def)
qed simp

lemma list8_nth: "length h = 8 \<Longrightarrow> h = [h ! 0, h ! 1, h ! 2, h ! 3, h ! 4, h ! 5, h ! 6, h ! 7]"
  by (rule nth_equalityI) (auto simp: less_Suc_eq numeral_eq_Suc)

lemma sha256_compress_spec:
  assumes "length h = 8"
  shows "sha256_compress h b = compress_spec h b"
proof -
  obtain a bb c d e f g hh where r: "rounds b (h ! 0, h ! 1, h ! 2, h ! 3, h ! 4, h ! 5, h ! 6, h ! 7) 64
      = (a, bb, c, d, e, f, g, hh)" by (metis prod.exhaust)
  have "compress_spec h b = map2 (+) [h ! 0, h ! 1, h ! 2, h ! 3, h ! 4, h ! 5, h ! 6, h ! 7]
      [a, bb, c, d, e, f, g, hh]"
    unfolding compress_spec_def r using list8_nth [OF assms] by simp
  moreover have "(16::nat) \<le> 64" by simp
  ultimately show ?thesis
    unfolding sha256_compress_def Let_def foldl_extend_schedule [OF \<open>16 \<le> 64\<close>]
      foldl_round_rounds [OF order_refl] r by simp
qed

lemma length_compress [simp]: "length (sha256_compress h b) = 8"
  by (simp add: sha256_compress_def Let_def split: prod.split)

lemma length_sha256_iv [simp]: "length sha256_iv = 8"
  by (simp add: sha256_iv_def)

lemma foldl_compress_spec:
  "length h = 8 \<Longrightarrow> foldl sha256_compress h bs = foldl compress_spec h bs"
  by (induction bs arbitrary: h) (simp_all flip: sha256_compress_spec)

lemma length_foldl_compress:
  "length h = 8 \<Longrightarrow> length (foldl sha256_compress h bs) = 8"
  by (induction bs arbitrary: h) simp_all

section \<open>The streaming interface meets its specification\<close>

text \<open>
  \<open>ctx_ok c msg\<close>: the context has absorbed the bytes \<open>msg\<close>; all full blocks are in the chaining
  value, the rest waits in the block buffer.
\<close>

definition absorb :: "u8 list \<Rightarrow> u32 list" where
  "absorb a = foldl sha256_compress sha256_iv (blocks64 a)"

definition ctx_ok :: "sha256_ctx \<Rightarrow> u8 list \<Rightarrow> bool" where
  "ctx_ok c msg \<longleftrightarrow>
     length (ctx_block c) = 64 \<and> ctx_used c < 64 \<and>
     (\<exists>a. 64 dvd length a \<and> msg = a @ take (ctx_used c) (ctx_block c) \<and> ctx_h c = absorb a)"

lemma blocks64_append:
  assumes "64 dvd length a" "length b = 64"
  shows "blocks64 (a @ b) = blocks64 a @ [b]"
proof -
  obtain q where q: "length a = 64 * q" using assms(1) by blast
  have "take 64 (drop (64 * i) (a @ b)) = take 64 (drop (64 * i) a)" if "i < q" for i
    using that q by simp
  then show ?thesis using q assms(2)
    by (simp add: blocks64_def)
qed

lemma absorb_append:
  "64 dvd length a \<Longrightarrow> length b = 64 \<Longrightarrow> absorb (a @ b) = sha256_compress (absorb a) b"
  by (simp add: absorb_def blocks64_append)

lemma absorb_Nil [simp]: "absorb [] = sha256_iv"
  by (simp add: absorb_def blocks64_def)

lemma ctx_ok_used: "ctx_ok c msg \<Longrightarrow> ctx_used c = length msg mod 64"
  by (auto simp: ctx_ok_def)

lemma ctx_ok_total [simp]: "ctx_ok (c\<lparr>ctx_total := n\<rparr>) msg = ctx_ok c msg"
  by (simp add: ctx_ok_def)

lemma ctx_ok_init [intro]: "length (ctx_block c) = 64 \<Longrightarrow> ctx_ok (sha256_init c) []"
  by (simp add: ctx_ok_def sha256_init_def)

lemma length_memcpy_at [simp]: "off + length src \<le> length dst \<Longrightarrow> length (memcpy_at dst off src) = length dst"
  by (simp add: memcpy_at_def)

lemma take_memcpy_at:
  "off + length src \<le> length dst \<Longrightarrow> take (off + length src) (memcpy_at dst off src) = take off dst @ src"
  by (simp add: memcpy_at_def)

lemma sha256_update_loop_ok:
  assumes "ctx_ok c msg"
  shows "\<exists>c'. sha256_update_loop c p = Some c' \<and> ctx_ok c' (msg @ p) \<and> ctx_total c' = ctx_total c"
  using assms
proof (induction p arbitrary: c msg rule: length_induct)
  case (1 p)
  show ?case
  proof (cases "p = []")
    case True
    then show ?thesis using "1.prems" by (subst sha256_update_loop.simps) simp
  next
    case False
    define n where "n = (if 64 - ctx_used c > length p then length p else 64 - ctx_used c)"
    define c1 where "c1 = c\<lparr>ctx_block := memcpy_at (ctx_block c) (ctx_used c) (take n p),
                            ctx_used := ctx_used c + n\<rparr>"
    define c2 where "c2 = (if ctx_used c1 = 64
       then c1\<lparr>ctx_h := sha256_compress (ctx_h c1) (ctx_block c1), ctx_used := 0\<rparr> else c1)"
    obtain a where a: "64 dvd length a" "msg = a @ take (ctx_used c) (ctx_block c)"
      "ctx_h c = absorb a" and c: "length (ctx_block c) = 64" "ctx_used c < 64"
      using "1.prems" by (auto simp: ctx_ok_def)
    have n: "n \<le> length p" "0 < n" "ctx_used c + n \<le> 64"
      using False c by (auto simp: n_def)
    have blk: "length (ctx_block c1) = 64"
      "take (ctx_used c1) (ctx_block c1) = take (ctx_used c) (ctx_block c) @ take n p"
      using n c take_memcpy_at [of "ctx_used c" "take n p" "ctx_block c"] by (auto simp: c1_def)
    have "ctx_ok c2 (msg @ take n p)"
    proof (cases "ctx_used c1 = 64")
      case True
      then have b: "ctx_block c1 = take (ctx_used c) (ctx_block c) @ take n p"
        using blk by simp
      then have "ctx_h c2 = absorb (msg @ take n p)"
        using True a blk absorb_append [of a "ctx_block c1"] by (simp add: c2_def c1_def)
      moreover have "64 dvd length (msg @ take n p)"
        using a blk(1) unfolding a(2) append.assoc b [symmetric] by simp
      ultimately show ?thesis using True blk
        unfolding ctx_ok_def by (intro conjI exI [of _ "msg @ take n p"]) (simp_all add: c2_def)
    next
      case False
      then show ?thesis using a blk n
        unfolding ctx_ok_def by (intro conjI exI [of _ a]) (simp_all add: c2_def, simp_all add: c1_def)
    qed
    moreover have "length (drop n p) < length p" using n False by simp
    ultimately obtain c' where "sha256_update_loop c2 (drop n p) = Some c'"
      "ctx_ok c' ((msg @ take n p) @ drop n p)" "ctx_total c' = ctx_total c2"
      using "1.IH" by blast
    moreover have "sha256_update_loop c p = sha256_update_loop c2 (drop n p)"
      using False by (subst sha256_update_loop.simps) (simp add: Let_def n_def c1_def c2_def)
    ultimately show ?thesis by (simp add: c2_def c1_def)
  qed
qed

lemma sha256_update_ok:
  assumes "ctx_ok c msg"
  obtains c' where "sha256_update c p = Some c'" "ctx_ok c' (msg @ p)"
    "ctx_total c' = ctx_total c + of_nat (length p)"
  using assms sha256_update_loop_ok [of "c\<lparr>ctx_total := ctx_total c + of_nat (length p)\<rparr>" msg p]
  by (auto simp: sha256_update_def)

lemma pad_count:
  fixes u :: nat
  assumes "u < 64"
  shows "(120 - u) mod 64 = (if u \<le> 56 then 56 - u else 120 - u)"
proof (cases "u \<le> 56")
  case True
  then have "120 - u = 56 - u + 64" by simp
  then show ?thesis using True by (simp only: mod_add_self2) simp
qed (use assms in simp)

lemma sha256_pad_loop_ok:
  assumes "ctx_ok c msg"
  shows "\<exists>c'. sha256_pad_loop c = Some c'
     \<and> ctx_ok c' (msg @ replicate ((120 - ctx_used c) mod 64) 0)"
  using assms
proof (induction "(120 - ctx_used c) mod 64" arbitrary: c msg)
  case 0
  have "ctx_used c < 64" using "0.prems" by (simp add: ctx_ok_def)
  then have "ctx_used c = 56" using "0.hyps" by (simp add: pad_count split: if_splits)
  then show ?case using "0.prems" by (subst sha256_pad_loop.simps) simp
next
  case (Suc k)
  have u: "ctx_used c < 64" using Suc.prems by (simp add: ctx_ok_def)
  then have ne: "ctx_used c \<noteq> 56" using Suc.hyps(2) by auto
  obtain c1 where c1: "sha256_update c [0] = Some c1" "ctx_ok c1 (msg @ [0])"
    using sha256_update_ok [OF Suc.prems, of "[0]"] by auto
  have "ctx_used c1 = (ctx_used c + 1) mod 64"
    using ctx_ok_used [OF c1(2)] ctx_ok_used [OF Suc.prems] by (simp add: mod_Suc_eq)
  moreover have "ctx_used c1 < 64" using c1(2) by (simp add: ctx_ok_def)
  ultimately have "k = (120 - ctx_used c1) mod 64"
    using Suc.hyps(2) u ne pad_count [OF u] pad_count [of "ctx_used c1"]
    by (cases "ctx_used c = 63") (auto split: if_splits)
  with Suc.hyps(1) c1(2) obtain c' where "sha256_pad_loop c1 = Some c'"
    "ctx_ok c' ((msg @ [0]) @ replicate k 0)" by blast
  then show ?case using ne c1(1) Suc.hyps(2) [symmetric]
    by (subst sha256_pad_loop.simps) simp
qed

text \<open>The length field: the code shifts a 64-bit counter, the standard writes a number in base 256.\<close>

lemma length_field:
  "map (\<lambda>i. ucast (drop_bit (56 - 8 * i) (of_nat n * 8 :: u64)) :: u8) [0..<8]
   = map (\<lambda>i. of_nat (8 * n div 256 ^ (7 - i))) [0..<8]"
proof (rule map_cong [OF refl])
  fix i
  assume "i \<in> set [0..<8]"
  then have i: "56 - 8 * i = 8 * (7 - i)" and le: "8 * (7 - i) + 8 \<le> 64" by auto
  let ?k = "8 * (7 - i)"
  define m where "m = 8 * n"
  have "(of_nat n * 8 :: u64) = of_nat m" by (simp add: m_def)
  then have "ucast (drop_bit ?k (of_nat n * 8 :: u64)) = (ucast (drop_bit ?k (of_nat m :: u64)) :: u8)"
    by simp
  also have "\<dots> = of_nat (drop_bit ?k m)"
    using le by (intro bit_word_eqI)
      (auto simp: bit_ucast_iff bit_drop_bit_eq bit_of_nat_iff possible_bit_def)
  also have "of_nat (drop_bit ?k m) = (of_nat (8 * n div 256 ^ (7 - i)) :: u8)"
    by (simp add: drop_bit_eq_div power_mult m_def)
  finally show "ucast (drop_bit (56 - 8 * i) (of_nat n * 8 :: u64)) = (of_nat (8 * n div 256 ^ (7 - i)) :: u8)"
    by (simp only: i)
qed

lemma digest_bytes:
  assumes "length h = 8"
  shows "concat (map (\<lambda>i. [ucast (drop_bit 24 (h ! i)), ucast (drop_bit 16 (h ! i)),
           ucast (drop_bit 8 (h ! i)), ucast (h ! i)]) [0..<8]) = concat (map be32_bytes h)"
proof -
  have "map be32_bytes h = map (\<lambda>i. be32_bytes (h ! i)) [0..<8]"
    by (rule nth_equalityI) (simp_all add: assms)
  then show ?thesis unfolding be32_bytes_def by (rule arg_cong [OF sym])
qed

lemma length_absorb [simp]: "length (absorb a) = 8"
  by (simp add: absorb_def length_foldl_compress)

lemma pad_zeros:
  fixes n :: nat
  shows "(119 - n mod 64) mod 64 = (if n mod 64 \<le> 55 then 55 - n mod 64 else 119 - n mod 64)"
proof (cases "n mod 64 \<le> 55")
  case True
  then have "119 - n mod 64 = 55 - n mod 64 + 64" by simp
  then show ?thesis using True by (simp only: mod_add_self2) simp
qed simp

lemma pad_zeros_used:
  fixes n :: nat
  shows "(120 - (n + 1) mod 64) mod 64 = (119 - n mod 64) mod 64"
proof -
  have "(n + 1) mod 64 = (if n mod 64 = 63 then 0 else n mod 64 + 1)"
    using mod_Suc [of n 64] by simp
  then show ?thesis by simp
qed

lemma length_pad_spec: "64 dvd length (pad_spec msg)"
proof -
  let ?n = "length msg" and ?r = "length msg mod 64"
  have r: "?r < 64" by simp
  have "?n + 1 + (119 - ?r) mod 64 + 8 = 64 * (?n div 64) + (?r + 1 + (119 - ?r) mod 64 + 8)"
    by (simp add: mult.commute)
  also have "?r + 1 + (119 - ?r) mod 64 + 8 = (if ?r \<le> 55 then 64 else 128)"
    using r by (simp only: pad_zeros split: if_split) arith
  finally have "64 dvd ?n + 1 + (119 - ?r) mod 64 + 8" by (simp split: if_splits)
  then show ?thesis by (simp add: pad_spec_def add_ac)
qed

lemma sha256_final_ok:
  assumes "ctx_ok c msg" "ctx_total c = of_nat (length msg)"
  obtains c' where "sha256_final c = Some (sha256_spec msg, c')" "length (ctx_block c') = 64"
proof -
  obtain c1 where c1: "sha256_update c [0x80] = Some c1" "ctx_ok c1 (msg @ [0x80])"
    using sha256_update_ok [OF assms(1), of "[0x80]"] by metis
  obtain c2 where c2: "sha256_pad_loop c1 = Some c2"
    "ctx_ok c2 ((msg @ [0x80]) @ replicate ((120 - ctx_used c1) mod 64) 0)"
    using sha256_pad_loop_ok [OF c1(2)] by blast
  obtain c3 where c3: "sha256_update c2 (map (\<lambda>i. ucast (drop_bit (56 - 8 * i) (ctx_total c * 8))) [0..<8])
      = Some c3" and ok3: "ctx_ok c3 (((msg @ [0x80]) @ replicate ((120 - ctx_used c1) mod 64) 0)
        @ map (\<lambda>i. ucast (drop_bit (56 - 8 * i) (ctx_total c * 8))) [0..<8])"
    using sha256_update_ok [OF c2(2)] by metis
  have "(120 - ctx_used c1) mod 64 = (119 - length msg mod 64) mod 64"
    using ctx_ok_used [OF c1(2)] pad_zeros_used [of "length msg"] by simp
  with ok3 have ok: "ctx_ok c3 (pad_spec msg)"
    unfolding assms(2) length_field by (simp only: pad_spec_def append.assoc)
  then have "ctx_used c3 = 0"
    using ctx_ok_used [OF ok] length_pad_spec [of msg] by (simp only: dvd_imp_mod_0)
  with ok have h: "ctx_h c3 = absorb (pad_spec msg)" "length (ctx_block c3) = 64"
    by (auto simp: ctx_ok_def)
  have "sha256_final c = Some (concat (map be32_bytes (ctx_h c3)), c3)"
    by (simp only: sha256_final_def Let_def c1(1) c2(1) c3 bind.bind_lunit
        digest_bytes [of "ctx_h c3", unfolded h, OF length_absorb] h)
  also have "concat (map be32_bytes (ctx_h c3)) = sha256_spec msg"
    by (simp only: h absorb_def sha256_spec_def foldl_compress_spec length_sha256_iv)
  finally show thesis using that h(2) by blast
qed

lemma sha256_ok:
  assumes "length (ctx_block c0) = 64"
  shows "sha256 c0 msg = Some (sha256_spec msg)"
proof -
  obtain c where c: "sha256_update (sha256_init c0) msg = Some c" "ctx_ok c msg"
    "ctx_total c = of_nat (length msg)"
    using sha256_update_ok [OF ctx_ok_init [OF assms], of msg] by (auto simp: sha256_init_def)
  obtain c' where "sha256_final c = Some (sha256_spec msg, c')"
    by (rule sha256_final_ok [OF c(2,3)])
  then show ?thesis by (simp only: sha256_def c(1) bind.bind_lunit prod.case)
qed

lemma sha256_two_updates_ok:
  assumes "length (ctx_block c0) = 64"
  obtains c1 c2 c3 where "sha256_update (sha256_init c0) p = Some c1" "sha256_update c1 q = Some c2"
    "sha256_final c2 = Some (sha256_spec (p @ q), c3)" "length (ctx_block c3) = 64"
proof -
  obtain c1 where c1: "sha256_update (sha256_init c0) p = Some c1" "ctx_ok c1 p"
    "ctx_total c1 = of_nat (length p)"
    using sha256_update_ok [OF ctx_ok_init [OF assms], of p] by (auto simp: sha256_init_def)
  obtain c2 where c2: "sha256_update c1 q = Some c2" "ctx_ok c2 (p @ q)"
    "ctx_total c2 = of_nat (length (p @ q))"
    using sha256_update_ok [OF c1(2), of q] c1(3) by auto
  show thesis by (rule sha256_final_ok [OF c2(2,3)], rule that [OF c1(1) c2(1)])
qed

lemma length_foldl_compress_spec:
  "length h = 8 \<Longrightarrow> length (foldl compress_spec h bs) = 8"
  by (simp add: length_foldl_compress flip: foldl_compress_spec)

lemma length_concat_be32: "length (concat (map be32_bytes h)) = 4 * length h"
  by (induction h) simp_all

lemma length_sha256_spec [simp]: "length (sha256_spec msg) = 32"
  unfolding sha256_spec_def length_concat_be32 length_foldl_compress_spec [OF length_sha256_iv] by simp

lemma map_nth_all: "length k = n \<Longrightarrow> map (\<lambda>i. f (k ! i)) [0..<n] = map f k"
  by (rule nth_equalityI) simp_all

lemma hmac_ok:
  assumes "length (ctx_block c0) = 64"
  shows "hmac_sha256 c0 key msg = Some (hmac_spec key msg)"
proof -
  define k0 where "k0 = (if length key > 64 then sha256_spec key else key)"
  define k where "k = k0 @ replicate (64 - length k0) 0"
  have "length k0 \<le> 64" by (simp add: k0_def)
  then have len: "length k = 64" and cpy: "memcpy_at (replicate 64 0) 0 k0 = k"
    by (simp_all add: k_def memcpy_at_def)
  have key: "(if length key > 64
      then do { hk \<leftarrow> sha256 c0 key; Some (memcpy_at (replicate 64 0) 0 hk) }
      else Some (memcpy_at (replicate 64 0) 0 key)) = Some k"
    unfolding sha256_ok [OF assms] bind.bind_lunit using cpy
    by (cases "length key > 64") (simp_all only: k0_def if_True if_False)
  obtain c1 c2 c3 where c: "sha256_update (sha256_init c0) (map (\<lambda>b. b XOR 0x36) k) = Some c1"
    "sha256_update c1 msg = Some c2"
    "sha256_final c2 = Some (sha256_spec (map (\<lambda>b. b XOR 0x36) k @ msg), c3)" "length (ctx_block c3) = 64"
    by (rule sha256_two_updates_ok [OF assms])
  obtain c4 c5 c6 where d: "sha256_update (sha256_init c3) (map (\<lambda>b. b XOR 0x5c) k) = Some c4"
    "sha256_update c4 (sha256_spec (map (\<lambda>b. b XOR 0x36) k @ msg)) = Some c5"
    "sha256_final c5 = Some (sha256_spec (map (\<lambda>b. b XOR 0x5c) k
        @ sha256_spec (map (\<lambda>b. b XOR 0x36) k @ msg)), c6)"
    by (rule sha256_two_updates_ok [OF c(4)])
  have "hmac_sha256 c0 key msg
      = Some (sha256_spec (map (\<lambda>b. b XOR 0x5c) k @ sha256_spec (map (\<lambda>b. b XOR 0x36) k @ msg)))"
    unfolding hmac_sha256_def key bind.bind_lunit map_nth_all [OF len, of "\<lambda>b. b XOR 0x36"]
      map_nth_all [OF len, of "\<lambda>b. b XOR 0x5c"] c(1-3) d prod.case ..
  then show ?thesis by (simp only: hmac_spec_def Let_def k_def k0_def)
qed

lemma length_hmac_spec [simp]: "length (hmac_spec key msg) = 32"
  unfolding hmac_spec_def Let_def by (rule length_sha256_spec)

lemma be32_bytes_shifts: "map (\<lambda>i. ucast (drop_bit (24 - 8 * i) (x :: u32))) [0..<4] = be32_bytes x"
  by (simp add: be32_bytes_def upt_conv_Cons)

definition devauth_spec :: "u8 list \<Rightarrow> u32 \<Rightarrow> u32 \<Rightarrow> u8 list \<Rightarrow> u8 list" where
  "devauth_spec key device_id fw_version nonce =
     take 16 (hmac_spec key (map of_char ''acq-auth-v1'' @ be32_bytes device_id @ be32_bytes fw_version @ nonce))"

lemma devauth_compute_ok:
  assumes "length (ctx_block c0) = 64"
  shows "devauth_compute c0 key device_id fw_version nonce = Some (devauth_spec key device_id fw_version nonce)"
  unfolding devauth_compute_def hmac_ok [OF assms] bind.bind_lunit devauth_msg_def be32_bytes_shifts
    DEVAUTH_DOMAIN_def devauth_spec_def ..

lemma length_devauth_spec [simp]: "length (devauth_spec key i f n) = 16"
  by (simp add: devauth_spec_def)

lemma devauth_key_present_iff: "devauth_key_present key \<longleftrightarrow> (\<exists>b \<in> set key. b \<noteq> 0xFF)"
  by (induction key) simp_all

section \<open>Properties\<close>

definition zero_ctx :: sha256_ctx where
  "zero_ctx = \<lparr>ctx_h = [], ctx_block = replicate 64 0, ctx_used = 0, ctx_total = 0\<rparr>"

text \<open>C2. The streaming SHA-256 of the firmware returns for every message and computes the digest that
  FIPS 180-4 defines by padding, the message-schedule recurrence and the 64 rounds per block;
  the previous content of the context does not matter.\<close>

theorem sha256_correct:
  assumes "length (ctx_block c0) = 64"
  shows "sha256 c0 msg = Some (concat (map be32_bytes
           (foldl compress_spec sha256_iv (blocks64 (pad_spec msg)))))"
  using sha256_ok [OF assms] by (simp add: sha256_spec_def)

theorem sha256_correct_witness:
  "length (ctx_block zero_ctx) = 64
   \<and> sha256 zero_ctx [0x61, 0x62, 0x63] = Some (concat (map be32_bytes
       (foldl compress_spec sha256_iv (blocks64 (pad_spec [0x61, 0x62, 0x63])))))
   \<and> length (pad_spec [0x61, 0x62, 0x63]) = 64"
proof -
  have z: "length (ctx_block zero_ctx) = 64" by (simp add: zero_ctx_def)
  have "length (pad_spec [0x61, 0x62, 0x63]) = 64" by (simp add: pad_spec_def)
  then show ?thesis by (intro conjI sha256_correct [OF z] z)
qed

text \<open>C3. HMAC-SHA256 returns for every key and message and is the function of RFC 2104, including
  keys longer than a block, which are hashed first.\<close>

theorem hmac_sha256_correct:
  assumes "length (ctx_block c0) = 64"
  shows "hmac_sha256 c0 key msg = Some (hmac_spec key msg)"
  by (rule hmac_ok [OF assms])

theorem hmac_sha256_correct_witness:
  "length (ctx_block zero_ctx) = 64
   \<and> hmac_sha256 zero_ctx (replicate 65 1) [1, 2, 3] = Some (hmac_spec (replicate 65 1) [1, 2, 3])"
proof -
  have z: "length (ctx_block zero_ctx) = 64" by (simp add: zero_ctx_def)
  then show ?thesis by (intro conjI hmac_sha256_correct [OF z])
qed

end
