(* ===== verification/Hal.thy ===== *)
theory Hal
  imports Prelude
begin

text \<open>
  The parts of the STM32F1 HAL the firmware runs on (Drivers/STM32F1xx_HAL_Driver): the
  interrupt-mode full-duplex SPI transfer of an 8-bit slave without CRC and without DMA
  (stm32f1xx_hal_spi.c), as it is configured in Core/Src/spi.c, and the base timer with its
  update interrupt (stm32f1xx_hal_tim.c). Status flags and the data register are inputs of the
  interrupt handler: the hardware sets them.
\<close>

section \<open>SPI handle and port\<close>

datatype HAL_StatusTypeDef = HAL_OK | HAL_ERROR | HAL_BUSY | HAL_TIMEOUT

datatype HAL_SPI_StateTypeDef =
    HAL_SPI_STATE_RESET | HAL_SPI_STATE_READY | HAL_SPI_STATE_BUSY | HAL_SPI_STATE_BUSY_TX
  | HAL_SPI_STATE_BUSY_RX | HAL_SPI_STATE_BUSY_TX_RX | HAL_SPI_STATE_ERROR | HAL_SPI_STATE_ABORT

text \<open>
  The handle: \<open>spi_pTx\<close> and \<open>spi_pRx\<close> are the offsets of the buffer pointers, \<open>spi_SPE\<close> the enable
  bit of CR1 and the last three the interrupt enables of CR2.
\<close>

record SPI_HandleTypeDef =
  spi_State :: HAL_SPI_StateTypeDef
  spi_ErrorCode :: u32
  spi_Lock :: bool
  spi_pTx :: nat
  spi_TxXferCount :: u16
  spi_pRx :: nat
  spi_RxXferCount :: u16
  spi_SPE :: bool
  spi_TXEIE :: bool
  spi_RXNEIE :: bool
  spi_ERRIE :: bool

abbreviation (input) HAL_SPI_ERROR_NONE :: u32 where "HAL_SPI_ERROR_NONE \<equiv> 0x00"
abbreviation (input) HAL_SPI_ERROR_MODF :: u32 where "HAL_SPI_ERROR_MODF \<equiv> 0x01"
abbreviation (input) HAL_SPI_ERROR_OVR :: u32 where "HAL_SPI_ERROR_OVR \<equiv> 0x04"
abbreviation (input) HAL_SPI_ERROR_FLAG :: u32 where "HAL_SPI_ERROR_FLAG \<equiv> 0x20"

text \<open>
  Arming a transfer. A slave is accepted in state READY only; an empty list stands for a null
  buffer; a held lock is refused.
\<close>

definition HAL_SPI_TransmitReceive_IT ::
  "u8 list \<Rightarrow> u8 list \<Rightarrow> u16 \<Rightarrow> SPI_HandleTypeDef \<Rightarrow> HAL_StatusTypeDef \<times> SPI_HandleTypeDef" where
  "HAL_SPI_TransmitReceive_IT pTxData pRxData Size h =
     (if spi_State h \<noteq> HAL_SPI_STATE_READY then (HAL_BUSY, h)
      else if pTxData = [] \<or> pRxData = [] \<or> Size = 0 then (HAL_ERROR, h)
      else if spi_Lock h then (HAL_BUSY, h)
      else (HAL_OK,
            h\<lparr>spi_State := HAL_SPI_STATE_BUSY_TX_RX, spi_ErrorCode := HAL_SPI_ERROR_NONE,
              spi_pTx := 0, spi_TxXferCount := Size, spi_pRx := 0, spi_RxXferCount := Size,
              spi_SPE := True, spi_Lock := False,
              spi_TXEIE := True, spi_RXNEIE := True, spi_ERRIE := True\<rparr>))"

text \<open>The handle with the two buffers it points to and the bytes written to the data register.\<close>

record spi_port =
  port_h :: SPI_HandleTypeDef
  port_tx :: "u8 list"
  port_rx :: "u8 list"
  port_out :: "u8 list"

text \<open>The status register as the handler reads it, the data register, and whether the flag waits
  at the end of a transfer succeed.\<close>

record spi_irq =
  fl_OVR :: bool
  fl_MODF :: bool
  fl_RXNE :: bool
  fl_TXE :: bool
  irq_DR :: u8
  irq_flags_ok :: bool

datatype spi_callback = TxRxCplt_cb | RxCplt_cb | Error_cb

section \<open>SPI interrupt handling\<close>

definition SPI_CloseRxTx_ISR :: "bool \<Rightarrow> SPI_HandleTypeDef \<Rightarrow> SPI_HandleTypeDef \<times> spi_callback option" where
  "SPI_CloseRxTx_ISR flags_ok h0 =
     (let h1 = h0\<lparr>spi_ERRIE := False\<rparr>;
          h = (if flags_ok then h1 else h1\<lparr>spi_ErrorCode := spi_ErrorCode h1 OR HAL_SPI_ERROR_FLAG\<rparr>)
      in if spi_ErrorCode h = HAL_SPI_ERROR_NONE
         then (if spi_State h = HAL_SPI_STATE_BUSY_RX
               then (h\<lparr>spi_State := HAL_SPI_STATE_READY\<rparr>, Some RxCplt_cb)
               else (h\<lparr>spi_State := HAL_SPI_STATE_READY\<rparr>, Some TxRxCplt_cb))
         else (h\<lparr>spi_State := HAL_SPI_STATE_READY\<rparr>, Some Error_cb))"

definition port_close :: "bool \<Rightarrow> spi_port \<Rightarrow> spi_port \<times> spi_callback option" where
  "port_close flags_ok p =
     (let (h, cb) = SPI_CloseRxTx_ISR flags_ok (port_h p) in (p\<lparr>port_h := h\<rparr>, cb))"

definition SPI_2linesRxISR_8BIT :: "spi_irq \<Rightarrow> spi_port \<Rightarrow> spi_port \<times> spi_callback option" where
  "SPI_2linesRxISR_8BIT irq p =
     (let h = port_h p;
          h1 = h\<lparr>spi_pRx := spi_pRx h + 1, spi_RxXferCount := spi_RxXferCount h - 1\<rparr>;
          p1 = p\<lparr>port_rx := (port_rx p)[spi_pRx h := irq_DR irq], port_h := h1\<rparr>
      in if spi_RxXferCount h1 = 0
         then let h2 = h1\<lparr>spi_RXNEIE := False, spi_ERRIE := False\<rparr>;
                  p2 = p1\<lparr>port_h := h2\<rparr>
              in if spi_TxXferCount h2 = 0 then port_close (irq_flags_ok irq) p2 else (p2, None)
         else (p1, None))"

definition SPI_2linesTxISR_8BIT :: "spi_irq \<Rightarrow> spi_port \<Rightarrow> spi_port \<times> spi_callback option" where
  "SPI_2linesTxISR_8BIT irq p =
     (let h = port_h p;
          h1 = h\<lparr>spi_pTx := spi_pTx h + 1, spi_TxXferCount := spi_TxXferCount h - 1\<rparr>;
          p1 = p\<lparr>port_out := port_out p @ [port_tx p ! spi_pTx h], port_h := h1\<rparr>
      in if spi_TxXferCount h1 = 0
         then let h2 = h1\<lparr>spi_TXEIE := False\<rparr>;
                  p2 = p1\<lparr>port_h := h2\<rparr>
              in if spi_RxXferCount h2 = 0 then port_close (irq_flags_ok irq) p2 else (p2, None)
         else (p1, None))"

definition HAL_SPI_IRQHandler :: "spi_irq \<Rightarrow> spi_port \<Rightarrow> spi_port \<times> spi_callback option" where
  "HAL_SPI_IRQHandler irq p =
     (let h = port_h p
      in if \<not> fl_OVR irq \<and> fl_RXNE irq \<and> spi_RXNEIE h then SPI_2linesRxISR_8BIT irq p
         else if fl_TXE irq \<and> spi_TXEIE h then SPI_2linesTxISR_8BIT irq p
         else if (fl_MODF irq \<or> fl_OVR irq) \<and> spi_ERRIE h
         then (if fl_OVR irq \<and> spi_State h = HAL_SPI_STATE_BUSY_TX then (p, None)
               else let e1 = (if fl_OVR irq then spi_ErrorCode h OR HAL_SPI_ERROR_OVR
                              else spi_ErrorCode h);
                        e2 = (if fl_MODF irq then e1 OR HAL_SPI_ERROR_MODF else e1);
                        h1 = h\<lparr>spi_ErrorCode := e2\<rparr>
                    in if e2 \<noteq> HAL_SPI_ERROR_NONE
                       then (p\<lparr>port_h := h1\<lparr>spi_RXNEIE := False, spi_TXEIE := False, spi_ERRIE := False,
                                           spi_State := HAL_SPI_STATE_READY\<rparr>\<rparr>, Some Error_cb)
                       else (p\<lparr>port_h := h1\<rparr>, None))
         else (p, None))"

primrec spi_irqs :: "spi_irq list \<Rightarrow> spi_port \<Rightarrow> spi_port \<times> spi_callback list" where
  "spi_irqs [] p = (p, [])"
| "spi_irqs (i # is) p =
     (let (p1, cb) = HAL_SPI_IRQHandler i p;
          (p2, cbs) = spi_irqs is p1
      in (p2, (case cb of None \<Rightarrow> [] | Some c \<Rightarrow> [c]) @ cbs))"

section \<open>Timer\<close>

datatype HAL_TIM_StateTypeDef =
    HAL_TIM_STATE_RESET | HAL_TIM_STATE_READY | HAL_TIM_STATE_BUSY | HAL_TIM_STATE_TIMEOUT
  | HAL_TIM_STATE_ERROR

text \<open>The timer handle; \<open>tim_CEN\<close> is the enable bit of CR1, \<open>tim_UIE\<close> the update interrupt enable.
  No capture/compare channel is configured, so disabling is never held off.\<close>

record TIM_HandleTypeDef =
  tim_State :: HAL_TIM_StateTypeDef
  tim_Period :: u32
  tim_ARR :: u32
  tim_CNT :: u32
  tim_CEN :: bool
  tim_UIE :: bool

definition HAL_TIM_Base_Start_IT :: "TIM_HandleTypeDef \<Rightarrow> HAL_StatusTypeDef \<times> TIM_HandleTypeDef" where
  "HAL_TIM_Base_Start_IT h =
     (if tim_State h \<noteq> HAL_TIM_STATE_READY then (HAL_ERROR, h)
      else (HAL_OK, h\<lparr>tim_State := HAL_TIM_STATE_BUSY, tim_UIE := True, tim_CEN := True\<rparr>))"

definition HAL_TIM_Base_Stop_IT :: "TIM_HandleTypeDef \<Rightarrow> HAL_StatusTypeDef \<times> TIM_HandleTypeDef" where
  "HAL_TIM_Base_Stop_IT h =
     (HAL_OK, h\<lparr>tim_UIE := False, tim_CEN := False, tim_State := HAL_TIM_STATE_READY\<rparr>)"

definition HAL_TIM_SET_AUTORELOAD :: "u32 \<Rightarrow> TIM_HandleTypeDef \<Rightarrow> TIM_HandleTypeDef" where
  "HAL_TIM_SET_AUTORELOAD v h = h\<lparr>tim_ARR := v, tim_Period := v\<rparr>"

definition HAL_TIM_SET_COUNTER :: "u32 \<Rightarrow> TIM_HandleTypeDef \<Rightarrow> TIM_HandleTypeDef" where
  "HAL_TIM_SET_COUNTER v h = h\<lparr>tim_CNT := v\<rparr>"

text \<open>\<open>HAL_TIM_IRQHandler\<close> on an update event: the user callback runs when the interrupt is enabled.\<close>

definition HAL_TIM_update_enabled :: "TIM_HandleTypeDef \<Rightarrow> bool" where
  "HAL_TIM_update_enabled h = tim_UIE h"

section \<open>A frame is complete after any interleaving of its byte interrupts\<close>

definition data_irq :: "spi_irq \<Rightarrow> bool" where
  "data_irq i \<longleftrightarrow> \<not> fl_OVR i \<and> \<not> fl_MODF i \<and> (fl_RXNE i \<or> fl_TXE i) \<and> irq_flags_ok i"

definition rx_bytes :: "spi_irq list \<Rightarrow> u8 list" where
  "rx_bytes is = map irq_DR (filter fl_RXNE is)"

definition tx_count :: "spi_irq list \<Rightarrow> nat" where
  "tx_count is = length (filter (\<lambda>i. \<not> fl_RXNE i) is)"

text \<open>An armed transfer in progress, and the same handle once the transfer has been closed.\<close>

definition xfer_active :: "spi_port \<Rightarrow> bool" where
  "xfer_active p \<longleftrightarrow>
     spi_State (port_h p) = HAL_SPI_STATE_BUSY_TX_RX \<and> spi_ErrorCode (port_h p) = HAL_SPI_ERROR_NONE
     \<and> (spi_TXEIE (port_h p) \<longleftrightarrow> spi_TxXferCount (port_h p) \<noteq> 0)
     \<and> (spi_RXNEIE (port_h p) \<longleftrightarrow> spi_RxXferCount (port_h p) \<noteq> 0)
     \<and> length (port_tx p) = spi_pTx (port_h p) + unat (spi_TxXferCount (port_h p))
     \<and> length (port_rx p) = spi_pRx (port_h p) + unat (spi_RxXferCount (port_h p))"

definition xfer_closed :: "spi_port \<Rightarrow> SPI_HandleTypeDef" where
  "xfer_closed p =
     (port_h p)\<lparr>spi_State := HAL_SPI_STATE_READY,
       spi_pTx := length (port_tx p), spi_TxXferCount := 0,
       spi_pRx := length (port_rx p), spi_RxXferCount := 0,
       spi_TXEIE := False, spi_RXNEIE := False, spi_ERRIE := False\<rparr>"

definition xfer_result :: "spi_irq list \<Rightarrow> spi_port \<Rightarrow> spi_port" where
  "xfer_result is p =
     p\<lparr>port_h := xfer_closed p,
       port_rx := take (spi_pRx (port_h p)) (port_rx p) @ rx_bytes is,
       port_out := port_out p @ drop (spi_pTx (port_h p)) (port_tx p)\<rparr>"

lemma rx_bytes_simps [simp]:
  "rx_bytes [] = []"
  "rx_bytes (i # is) = (if fl_RXNE i then irq_DR i # rx_bytes is else rx_bytes is)"
  by (simp_all add: rx_bytes_def)

lemma tx_count_simps [simp]:
  "tx_count [] = 0"
  "tx_count (i # is) = (if fl_RXNE i then tx_count is else Suc (tx_count is))"
  by (simp_all add: tx_count_def)

lemma no_more_irqs: "rx_bytes is = [] \<Longrightarrow> tx_count is = 0 \<Longrightarrow> is = []"
  by (cases "is") (auto split: if_splits)

lemma count_pred:
  fixes c :: u16
  assumes "unat c = Suc n"
  shows "c - 1 = of_nat n" "(of_nat n :: u16) = 0 \<longleftrightarrow> n = 0" "unat (of_nat n :: u16) = n" "c \<noteq> 0"
    "c = 1 \<longleftrightarrow> n = 0"
proof -
  have "c = of_nat (unat c)" by simp
  then show *: "c - 1 = of_nat n" using assms by simp
  show "c \<noteq> 0" using assms by auto
  then show **: "unat (of_nat n :: u16) = n"
    using assms unat_minus_one [of c] unfolding * by simp
  then show z: "(of_nat n :: u16) = 0 \<longleftrightarrow> n = 0" by (metis unat_eq_zero of_nat_0)
  show "c = 1 \<longleftrightarrow> n = 0" unfolding z [symmetric] * [symmetric] by simp
qed

lemma rx_irq:
  assumes "xfer_active p" "data_irq i" "fl_RXNE i" "unat (spi_RxXferCount (port_h p)) = Suc n"
  defines "h \<equiv> port_h p"
  defines "p1 \<equiv> p\<lparr>port_rx := (port_rx p)[spi_pRx h := irq_DR i],
                  port_h := h\<lparr>spi_pRx := spi_pRx h + 1, spi_RxXferCount := of_nat n,
                     spi_RXNEIE := (n \<noteq> 0), spi_ERRIE := (n \<noteq> 0 \<and> spi_ERRIE h)\<rparr>\<rparr>"
  shows "HAL_SPI_IRQHandler i p =
     (if n = 0 \<and> spi_TxXferCount h = 0 then (p1\<lparr>port_h := (port_h p1)\<lparr>spi_State := HAL_SPI_STATE_READY\<rparr>\<rparr>, Some TxRxCplt_cb)
      else (p1, None))"
proof -
  note c = count_pred [OF assms(4), folded h_def]
  have "spi_RXNEIE h" "spi_State h = HAL_SPI_STATE_BUSY_TX_RX" "spi_ErrorCode h = 0"
    using assms(1) c(4) by (simp_all add: xfer_active_def h_def)
  moreover have "\<not> fl_OVR i" "fl_RXNE i" "irq_flags_ok i" using assms(2,3) by (auto simp: data_irq_def)
  ultimately show ?thesis
    using assms(3) c unfolding HAL_SPI_IRQHandler_def SPI_2linesRxISR_8BIT_def p1_def
    by (cases "n = 0") (simp_all add: port_close_def SPI_CloseRxTx_ISR_def Let_def flip: h_def)
qed

lemma tx_irq:
  assumes "xfer_active p" "data_irq i" "\<not> fl_RXNE i" "unat (spi_TxXferCount (port_h p)) = Suc n"
  defines "h \<equiv> port_h p"
  defines "p1 \<equiv> p\<lparr>port_out := port_out p @ [port_tx p ! spi_pTx h],
                  port_h := h\<lparr>spi_pTx := spi_pTx h + 1, spi_TxXferCount := of_nat n,
                     spi_TXEIE := (n \<noteq> 0)\<rparr>\<rparr>"
  shows "HAL_SPI_IRQHandler i p =
     (if n = 0 \<and> spi_RxXferCount h = 0
      then (p1\<lparr>port_h := (port_h p1)\<lparr>spi_State := HAL_SPI_STATE_READY, spi_ERRIE := False\<rparr>\<rparr>, Some TxRxCplt_cb)
      else (p1, None))"
proof -
  note c = count_pred [OF assms(4), folded h_def]
  have "spi_TXEIE h" "spi_State h = HAL_SPI_STATE_BUSY_TX_RX" "spi_ErrorCode h = 0"
    using assms(1) c(4) by (simp_all add: xfer_active_def h_def)
  moreover have "\<not> fl_OVR i" "fl_TXE i" "irq_flags_ok i" using assms(2,3) by (auto simp: data_irq_def)
  ultimately show ?thesis
    using assms(3) c unfolding HAL_SPI_IRQHandler_def SPI_2linesTxISR_8BIT_def p1_def
    by (cases "n = 0") (simp_all add: port_close_def SPI_CloseRxTx_ISR_def Let_def flip: h_def)
qed

lemma take_Suc_update: "k < length xs \<Longrightarrow> take (Suc k) (xs[k := b]) = take k xs @ [b]"
  by (simp add: take_Suc_conv_app_nth)

lemma drop_last: "length xs = Suc k \<Longrightarrow> drop k xs = [xs ! k]"
  by (simp add: Cons_nth_drop_Suc [symmetric])

lemma rx_irq_more:
  assumes act: "xfer_active p" and d: "data_irq i" "fl_RXNE i"
    and n: "unat (spi_RxXferCount (port_h p)) = Suc n"
    and more: "\<not> (n = 0 \<and> spi_TxXferCount (port_h p) = 0)"
  obtains p1 where "HAL_SPI_IRQHandler i p = (p1, None)" "xfer_active p1"
    "unat (spi_RxXferCount (port_h p1)) = n"
    "spi_TxXferCount (port_h p1) = spi_TxXferCount (port_h p)" "port_tx p1 = port_tx p"
    "\<And>is. xfer_result is p1 = xfer_result (i # is) p"
proof -
  note step = rx_irq [OF act d n, unfolded if_not_P [OF more]] and c = count_pred [OF n]
  show thesis
    by (rule that [OF step])
      (use act c n d in \<open>auto simp: xfer_active_def xfer_result_def xfer_closed_def take_Suc_update
         Cons_nth_drop_Suc intro!: spi_port.equality SPI_HandleTypeDef.equality\<close>)
qed

lemma rx_irq_last:
  assumes act: "xfer_active p" and d: "data_irq i" "fl_RXNE i"
    and n: "unat (spi_RxXferCount (port_h p)) = Suc n"
    and last: "n = 0 \<and> spi_TxXferCount (port_h p) = 0"
  shows "HAL_SPI_IRQHandler i p = (xfer_result [i] p, Some TxRxCplt_cb)"
  unfolding rx_irq [OF act d n] if_P [OF last]
  using act d n last
  by (auto simp: xfer_active_def xfer_result_def xfer_closed_def take_Suc_update
      take_Suc_update [of "spi_pRx (port_h p)" "port_rx p", symmetric] drop_last
      intro!: spi_port.equality SPI_HandleTypeDef.equality)

lemma tx_irq_more:
  assumes act: "xfer_active p" and d: "data_irq i" "\<not> fl_RXNE i"
    and n: "unat (spi_TxXferCount (port_h p)) = Suc n"
    and more: "\<not> (n = 0 \<and> spi_RxXferCount (port_h p) = 0)"
  obtains p1 where "HAL_SPI_IRQHandler i p = (p1, None)" "xfer_active p1"
    "unat (spi_TxXferCount (port_h p1)) = n"
    "spi_RxXferCount (port_h p1) = spi_RxXferCount (port_h p)" "port_tx p1 = port_tx p"
    "\<And>is. xfer_result is p1 = xfer_result (i # is) p"
proof -
  note step = tx_irq [OF act d n, unfolded if_not_P [OF more]] and c = count_pred [OF n]
  show thesis
    by (rule that [OF step])
      (use act c n d in \<open>auto simp: xfer_active_def xfer_result_def xfer_closed_def take_Suc_update
         Cons_nth_drop_Suc intro!: spi_port.equality SPI_HandleTypeDef.equality\<close>)
qed

lemma tx_irq_last:
  assumes act: "xfer_active p" and d: "data_irq i" "\<not> fl_RXNE i"
    and n: "unat (spi_TxXferCount (port_h p)) = Suc n"
    and last: "n = 0 \<and> spi_RxXferCount (port_h p) = 0"
  shows "HAL_SPI_IRQHandler i p = (xfer_result [i] p, Some TxRxCplt_cb)"
  unfolding tx_irq [OF act d n] if_P [OF last]
  using act d n last
  by (auto simp: xfer_active_def xfer_result_def xfer_closed_def take_Suc_update
      take_Suc_update [of "spi_pRx (port_h p)" "port_rx p", symmetric] drop_last
      intro!: spi_port.equality SPI_HandleTypeDef.equality)

text \<open>
  \<open>xfer_expects is p\<close>: the interrupts \<open>is\<close> are the data interrupts that are left of the transfer
  in progress, in any order. The first of them either ends the transfer or leaves one that
  expects the rest.
\<close>

definition xfer_expects :: "spi_irq list \<Rightarrow> spi_port \<Rightarrow> bool" where
  "xfer_expects is p \<longleftrightarrow>
     xfer_active p \<and> list_all data_irq is \<and> is \<noteq> []
     \<and> length (rx_bytes is) = unat (spi_RxXferCount (port_h p))
     \<and> tx_count is = unat (spi_TxXferCount (port_h p))"

lemma xfer_expects_cases:
  assumes "xfer_expects (i # is) p"
  obtains (last) "is = []" "HAL_SPI_IRQHandler i p = (xfer_result [i] p, Some TxRxCplt_cb)"
  | (more) p1 where "HAL_SPI_IRQHandler i p = (p1, None)" "xfer_expects is p1" "port_tx p1 = port_tx p"
      "xfer_result is p1 = xfer_result (i # is) p"
proof (cases "fl_RXNE i")
  let ?h = "port_h p"
  have act: "xfer_active p" and d: "data_irq i" "list_all data_irq is"
    using assms by (auto simp: xfer_expects_def)
  case rx: True
  then obtain n where n: "unat (spi_RxXferCount ?h) = Suc n" "length (rx_bytes is) = n"
    and t: "tx_count is = unat (spi_TxXferCount ?h)" using assms by (auto simp: xfer_expects_def)
  show thesis
  proof (cases "n = 0 \<and> spi_TxXferCount ?h = 0")
    case True
    then have "is = []" using n t by (intro no_more_irqs) auto
    then show thesis using rx_irq_last [OF act d(1) rx n(1) True] by (intro last)
  next
    case False
    then have "is \<noteq> []" using n t by (auto simp: unat_eq_zero)
    moreover obtain p1 where p1: "HAL_SPI_IRQHandler i p = (p1, None)" "xfer_active p1"
      "unat (spi_RxXferCount (port_h p1)) = n"
      "spi_TxXferCount (port_h p1) = spi_TxXferCount (port_h p)" "port_tx p1 = port_tx p"
      "\<And>is. xfer_result is p1 = xfer_result (i # is) p"
      by (rule rx_irq_more [OF act d(1) rx n(1) False]) metis
    ultimately show thesis
      using n t d(2) by (intro more [OF p1(1) _ p1(5,6)]) (simp add: xfer_expects_def)
  qed
next
  let ?h = "port_h p"
  have act: "xfer_active p" and d: "data_irq i" "list_all data_irq is"
    using assms by (auto simp: xfer_expects_def)
  case tx: False
  then obtain n where n: "unat (spi_TxXferCount ?h) = Suc n" "tx_count is = n"
    and t: "length (rx_bytes is) = unat (spi_RxXferCount ?h)" using assms by (auto simp: xfer_expects_def)
  show thesis
  proof (cases "n = 0 \<and> spi_RxXferCount ?h = 0")
    case True
    then have "is = []" using n t by (intro no_more_irqs) auto
    then show thesis using tx_irq_last [OF act d(1) tx n(1) True] by (intro last)
  next
    case False
    then have "is \<noteq> []" using n t by (auto simp: unat_eq_zero)
    moreover obtain p1 where p1: "HAL_SPI_IRQHandler i p = (p1, None)" "xfer_active p1"
      "unat (spi_TxXferCount (port_h p1)) = n"
      "spi_RxXferCount (port_h p1) = spi_RxXferCount (port_h p)" "port_tx p1 = port_tx p"
      "\<And>is. xfer_result is p1 = xfer_result (i # is) p"
      by (rule tx_irq_more [OF act d(1) tx n(1) False]) metis
    ultimately show thesis
      using n t d(2) by (intro more [OF p1(1) _ p1(5,6)]) (simp add: xfer_expects_def)
  qed
qed

lemma spi_irqs_complete:
  "xfer_expects is p \<Longrightarrow> spi_irqs is p = (xfer_result is p, [TxRxCplt_cb])"
proof (induction "is" arbitrary: p)
  case Nil
  then show ?case by (simp add: xfer_expects_def)
next
  case (Cons i "is")
  from Cons.prems show ?case by (cases rule: xfer_expects_cases) (simp_all add: Cons.IH)
qed

section \<open>An armed transfer stays armed or ends in a callback\<close>

definition port_armed :: "spi_port \<Rightarrow> bool" where
  "port_armed p \<longleftrightarrow>
     xfer_active p \<and> \<not> spi_Lock (port_h p) \<and> spi_SPE (port_h p)
     \<and> (spi_TxXferCount (port_h p) \<noteq> 0 \<or> spi_RxXferCount (port_h p) \<noteq> 0)"

text \<open>What a handler may leave behind: an armed transfer, or READY, unlocked, and a user callback.\<close>

definition isr_outcome :: "spi_port \<Rightarrow> spi_port \<times> spi_callback option \<Rightarrow> bool" where
  "isr_outcome p r \<longleftrightarrow>
     port_tx (fst r) = port_tx p \<and> length (port_rx (fst r)) = length (port_rx p)
     \<and> (snd r = None \<and> port_armed (fst r)
        \<or> (snd r = Some TxRxCplt_cb \<or> snd r = Some Error_cb)
          \<and> spi_State (port_h (fst r)) = HAL_SPI_STATE_READY \<and> \<not> spi_Lock (port_h (fst r)))"

lemma SPI_2linesRxISR_8BIT_outcome:
  assumes "port_armed p" "spi_RXNEIE (port_h p)"
  shows "isr_outcome p (SPI_2linesRxISR_8BIT i p)"
proof -
  have "spi_RxXferCount (port_h p) \<noteq> 0" using assms by (simp add: port_armed_def xfer_active_def)
  then obtain n where n: "unat (spi_RxXferCount (port_h p)) = Suc n"
    by (metis unat_eq_zero not0_implies_Suc)
  show ?thesis using assms n count_pred [OF n]
    by (cases "n = 0") (simp_all add: isr_outcome_def SPI_2linesRxISR_8BIT_def port_close_def SPI_CloseRxTx_ISR_def
        Let_def port_armed_def xfer_active_def)
qed

lemma SPI_2linesTxISR_8BIT_outcome:
  assumes "port_armed p" "spi_TXEIE (port_h p)"
  shows "isr_outcome p (SPI_2linesTxISR_8BIT i p)"
proof -
  have "spi_TxXferCount (port_h p) \<noteq> 0" using assms by (simp add: port_armed_def xfer_active_def)
  then obtain n where n: "unat (spi_TxXferCount (port_h p)) = Suc n"
    by (metis unat_eq_zero not0_implies_Suc)
  show ?thesis using assms n count_pred [OF n]
    by (cases "n = 0") (simp_all add: isr_outcome_def SPI_2linesTxISR_8BIT_def port_close_def SPI_CloseRxTx_ISR_def
        Let_def port_armed_def xfer_active_def)
qed

lemma HAL_SPI_IRQHandler_outcome:
  assumes "port_armed p"
  shows "isr_outcome p (HAL_SPI_IRQHandler i p)"
proof -
  have none: "isr_outcome p (p, None)" using assms by (simp add: isr_outcome_def)
  have err: "isr_outcome p (p\<lparr>port_h := (port_h p)\<lparr>spi_ErrorCode := e, spi_RXNEIE := False, spi_TXEIE := False,
        spi_ERRIE := False, spi_State := HAL_SPI_STATE_READY\<rparr>\<rparr>, Some Error_cb)" for e
    using assms by (simp add: isr_outcome_def port_armed_def)
  have keep: "isr_outcome p (p\<lparr>port_h := (port_h p)\<lparr>spi_ErrorCode := 0\<rparr>\<rparr>, None)"
    using assms by (simp add: isr_outcome_def port_armed_def xfer_active_def)
  show ?thesis
    using assms SPI_2linesRxISR_8BIT_outcome [of p i] SPI_2linesTxISR_8BIT_outcome [of p i] none err keep
    unfolding HAL_SPI_IRQHandler_def Let_def by (auto split: if_split)
qed

lemma arm_ok:
  assumes "spi_State h = HAL_SPI_STATE_READY" "\<not> spi_Lock h" "length tx = 5" "length rx = 5"
  shows "fst (HAL_SPI_TransmitReceive_IT tx rx 5 h) = HAL_OK"
    and "port_armed \<lparr>port_h = snd (HAL_SPI_TransmitReceive_IT tx rx 5 h), port_tx = tx, port_rx = rx, port_out = out\<rparr>"
    and "spi_pTx (snd (HAL_SPI_TransmitReceive_IT tx rx 5 h)) = 0"
    and "spi_pRx (snd (HAL_SPI_TransmitReceive_IT tx rx 5 h)) = 0"
  using assms by (auto simp: HAL_SPI_TransmitReceive_IT_def port_armed_def xfer_active_def)

end
