(* ===== verification/Mcu_Firmware.thy ===== *)
theory Mcu_Firmware
  imports Mcu_Fifo Devauth Hal
begin

text \<open>
  The firmware of the acquisition board (Core/Src/main.c) on top of the HAL. The state is one
  record of the file's globals, the two peripheral handles and the pins; each function of the
  file is one definition on it. Interrupt handlers run to completion here; theory
  Mcu_Interrupts splits them where they can be preempted.
\<close>

section \<open>Constants and state\<close>

abbreviation (input) FRAME_LEN :: u16 where "FRAME_LEN \<equiv> 5"
abbreviation (input) CMD_WRITE_FLAG :: u8 where "CMD_WRITE_FLAG \<equiv> 0x80"
abbreviation (input) CMD_ADDR_MASK :: u8 where "CMD_ADDR_MASK \<equiv> 0x7F"

abbreviation (input) REG_DEVICE_ID :: u8 where "REG_DEVICE_ID \<equiv> 0x00"
abbreviation (input) REG_FW_VERSION :: u8 where "REG_FW_VERSION \<equiv> 0x01"
abbreviation (input) REG_STATUS :: u8 where "REG_STATUS \<equiv> 0x02"
abbreviation (input) REG_CONTROL :: u8 where "REG_CONTROL \<equiv> 0x03"
abbreviation (input) REG_SAMPLE_RATE :: u8 where "REG_SAMPLE_RATE \<equiv> 0x04"
abbreviation (input) REG_FIFO_LEVEL :: u8 where "REG_FIFO_LEVEL \<equiv> 0x05"
abbreviation (input) REG_DATA_SEQ :: u8 where "REG_DATA_SEQ \<equiv> 0x06"
abbreviation (input) REG_DATA_VAL :: u8 where "REG_DATA_VAL \<equiv> 0x07"
abbreviation (input) REG_OVERFLOW_COUNT :: u8 where "REG_OVERFLOW_COUNT \<equiv> 0x08"
abbreviation (input) REG_SPI_REARM_FAIL :: u8 where "REG_SPI_REARM_FAIL \<equiv> 0x09"
abbreviation (input) REG_SPI_ERROR_COUNT :: u8 where "REG_SPI_ERROR_COUNT \<equiv> 0x0A"
abbreviation (input) REG_AUTH_NONCE0 :: u8 where "REG_AUTH_NONCE0 \<equiv> 0x10"
abbreviation (input) REG_AUTH_CTRL :: u8 where "REG_AUTH_CTRL \<equiv> 0x14"
abbreviation (input) REG_AUTH_MAC0 :: u8 where "REG_AUTH_MAC0 \<equiv> 0x15"
abbreviation (input) REG_AUTH_CYCLES :: u8 where "REG_AUTH_CYCLES \<equiv> 0x19"
abbreviation (input) REG_NOP :: u8 where "REG_NOP \<equiv> 0x7F"

abbreviation (input) ST_RUNNING :: u32 where "ST_RUNNING \<equiv> 0x01"
abbreviation (input) ST_CMD_ERR :: u32 where "ST_CMD_ERR \<equiv> 0x02"
abbreviation (input) ST_RANGE_ERR :: u32 where "ST_RANGE_ERR \<equiv> 0x04"
abbreviation (input) ST_SPI_RESYNC :: u32 where "ST_SPI_RESYNC \<equiv> 0x08"
abbreviation (input) ST_AUTH_BUSY :: u32 where "ST_AUTH_BUSY \<equiv> 0x10"
abbreviation (input) ST_AUTH_DONE :: u32 where "ST_AUTH_DONE \<equiv> 0x20"
abbreviation (input) ST_AUTH_NOKEY :: u32 where "ST_AUTH_NOKEY \<equiv> 0x40"

definition DEVICE_ID :: u32 where "DEVICE_ID = 0xAC00ACC0"
definition FW_VERSION :: u32 where "FW_VERSION = 0x00010400"

text \<open>
  The globals of main.c. The FIFO's own are in the record this one extends. \<open>data_ready\<close> and
  \<open>sample_mark\<close> are the output levels of PA8 and PA9; \<open>miso\<close> is the sequence of bytes that the
  SPI peripheral has been given to send.
\<close>

record mcu = mcu_fifo +
  rx_buf :: "u8 list"
  tx_buf :: "u8 list"
  reg_status :: u32
  reg_control :: u32
  reg_sample_rate :: u32
  auth_nonce :: "u32 list"
  auth_mac :: "u32 list"
  auth_cycles :: u32
  auth_request :: bool
  spi_rearm_fail :: u32
  spi_error_count :: u32
  last_seq :: u32
  last_val :: u32
  item_peeked :: bool
  hspi2 :: SPI_HandleTypeDef
  htim2 :: TIM_HandleTypeDef
  data_ready :: bool
  sample_mark :: bool
  miso :: "u8 list"

section \<open>Utility functions\<close>

text \<open>Pointers into a byte array are the array and an offset.\<close>

definition unpack_u32 :: "u8 list \<Rightarrow> nat \<Rightarrow> u32" where
  "unpack_u32 b p = be32_word (b ! p) (b ! (p + 1)) (b ! (p + 2)) (b ! (p + 3))"

definition pack_u32 :: "u8 list \<Rightarrow> nat \<Rightarrow> u32 \<Rightarrow> u8 list" where
  "pack_u32 b p v =
     b[p := ucast (drop_bit 24 v), p + 1 := ucast (drop_bit 16 v),
       p + 2 := ucast (drop_bit 8 v), p + 3 := ucast v]"

definition update_data_ready_gpio :: "mcu \<Rightarrow> mcu" where
  "update_data_ready_gpio s =
     (if fifo_head s \<noteq> fifo_tail s then s\<lparr>data_ready := True\<rparr> else s\<lparr>data_ready := False\<rparr>)"

text \<open>\<open>rate_hz\<close> is never zero where the function is called; in C the division would be undefined.\<close>

definition update_timer_rate :: "u32 \<Rightarrow> mcu \<Rightarrow> mcu" where
  "update_timer_rate rate_hz s =
     (let period0 = 10000 div rate_hz;
          period = (if period0 < 1 then 1 else period0)
      in s\<lparr>htim2 := HAL_TIM_SET_COUNTER 0 (HAL_TIM_SET_AUTORELOAD (period - 1) (htim2 s))\<rparr>)"

definition spi_resync :: "mcu \<Rightarrow> mcu" where
  "spi_resync s =
     (let h0 = (hspi2 s)\<lparr>spi_SPE := False\<rparr>;
          h1 = h0\<lparr>spi_State := HAL_SPI_STATE_READY, spi_ErrorCode := HAL_SPI_ERROR_NONE, spi_Lock := False\<rparr>
      in s\<lparr>reg_status := reg_status s OR ST_SPI_RESYNC, hspi2 := h1\<lparr>spi_SPE := True\<rparr>\<rparr>)"

section \<open>Register file\<close>

definition reg_read :: "u8 \<Rightarrow> mcu \<Rightarrow> u32 \<times> mcu" where
  "reg_read addr s =
     (if addr = REG_DEVICE_ID then (DEVICE_ID, s)
      else if addr = REG_FW_VERSION then (FW_VERSION, s)
      else if addr = REG_STATUS then (reg_status s, s)
      else if addr = REG_CONTROL then (reg_control s, s)
      else if addr = REG_SAMPLE_RATE then (reg_sample_rate s, s)
      else if addr = REG_NOP then (0, s)
      else if addr = REG_FIFO_LEVEL then (ucast (fifo_level s), s)
      else if addr = REG_DATA_SEQ then
        (case fifo_peek s of
           Some x \<Rightarrow> (fi_sequence x, s\<lparr>last_seq := fi_sequence x, last_val := fi_value x, item_peeked := True\<rparr>)
         | None \<Rightarrow> (0, s))
      else if addr = REG_DATA_VAL then
        (if item_peeked s
         then (last_val s, update_data_ready_gpio (snd (fifo_pop (s\<lparr>item_peeked := False\<rparr>))))
         else case fifo_peek s of
           Some x \<Rightarrow> (fi_value x, update_data_ready_gpio
                       (snd (fifo_pop (s\<lparr>last_seq := fi_sequence x, last_val := fi_value x\<rparr>))))
         | None \<Rightarrow> (0, s))
      else if addr = REG_OVERFLOW_COUNT then (fifo_overflow s, s)
      else if addr = REG_SPI_REARM_FAIL then (spi_rearm_fail s, s)
      else if REG_AUTH_NONCE0 \<le> addr \<and> addr \<le> REG_AUTH_NONCE0 + 3
        then (auth_nonce s ! unat (addr - REG_AUTH_NONCE0), s)
      else if REG_AUTH_MAC0 \<le> addr \<and> addr \<le> REG_AUTH_MAC0 + 3
        then (auth_mac s ! unat (addr - REG_AUTH_MAC0), s)
      else if addr = REG_AUTH_CYCLES then (auth_cycles s, s)
      else if addr = REG_SPI_ERROR_COUNT then (spi_error_count s, s)
      else (0, s\<lparr>reg_status := reg_status s OR ST_CMD_ERR\<rparr>))"

definition reg_write_control :: "u32 \<Rightarrow> mcu \<Rightarrow> mcu" where
  "reg_write_control val0 s0 =
     (let (val, s1) =
            (if val0 AND 0x02 \<noteq> 0
             then (val0 AND NOT 0x02,
                   s0\<lparr>reg_status := reg_status s0 AND NOT (ST_CMD_ERR OR ST_RANGE_ERR OR ST_SPI_RESYNC)\<rparr>)
             else (val0, s0));
          s2 = s1\<lparr>reg_control := val AND 0x01\<rparr>
      in if reg_control s2 AND 0x01 \<noteq> 0
         then let s3 = s2\<lparr>reg_status := reg_status s2 OR ST_RUNNING,
                          seq_counter := 0, fifo_head := 0, fifo_tail := 0, fifo_overflow := 0,
                          item_peeked := False\<rparr>;
                  s4 = update_data_ready_gpio s3;
                  s5 = update_timer_rate (reg_sample_rate s4) s4
              in s5\<lparr>htim2 := snd (HAL_TIM_Base_Start_IT (htim2 s5))\<rparr>
         else let s3 = s2\<lparr>reg_status := reg_status s2 AND NOT ST_RUNNING\<rparr>;
                  s4 = s3\<lparr>htim2 := snd (HAL_TIM_Base_Stop_IT (htim2 s3))\<rparr>
              in update_data_ready_gpio s4)"

definition reg_write :: "u8 \<Rightarrow> u32 \<Rightarrow> mcu \<Rightarrow> mcu" where
  "reg_write addr val s =
     (if REG_AUTH_NONCE0 \<le> addr \<and> addr \<le> REG_AUTH_NONCE0 + 3
        then s\<lparr>auth_nonce := (auth_nonce s)[unat (addr - REG_AUTH_NONCE0) := val]\<rparr>
      else if addr = REG_AUTH_CTRL then
        (if val AND 0x01 \<noteq> 0
         then s\<lparr>reg_status := (reg_status s AND NOT (ST_AUTH_DONE OR ST_AUTH_NOKEY)) OR ST_AUTH_BUSY,
                auth_request := True\<rparr>
         else s)
      else if addr = REG_CONTROL then reg_write_control val s
      else if addr = REG_SAMPLE_RATE then
        (if val \<ge> 1 \<and> val \<le> 10000
         then let s1 = s\<lparr>reg_sample_rate := val\<rparr>
              in if reg_control s1 AND 0x01 \<noteq> 0 then update_timer_rate val s1 else s1
         else s\<lparr>reg_status := reg_status s OR ST_RANGE_ERR\<rparr>)
      else s\<lparr>reg_status := reg_status s OR ST_CMD_ERR\<rparr>)"

definition handle_frame :: "mcu \<Rightarrow> mcu" where
  "handle_frame s =
     (let cmd = rx_buf s ! 0;
          addr = cmd AND CMD_ADDR_MASK;
          (resp, s1) = (if cmd AND CMD_WRITE_FLAG \<noteq> 0
                        then (0, reg_write addr (unpack_u32 (rx_buf s) 1) s)
                        else reg_read addr s)
      in s1\<lparr>tx_buf := pack_u32 ((tx_buf s1)[0 := cmd]) 1 resp\<rparr>)"

section \<open>Device authentication service\<close>

text \<open>
  \<open>key\<close> is the flash page at \<open>DEVAUTH_KEY\<close>, \<open>t0\<close> and \<open>t1\<close> the two readings of the cycle counter,
  \<open>c0\<close> the initial content of the hash context on the stack. \<open>None\<close> means that the MAC
  computation does not return.
\<close>

definition devauth_service ::
  "u8 list \<Rightarrow> sha256_ctx \<Rightarrow> u32 \<Rightarrow> u32 \<Rightarrow> mcu \<Rightarrow> mcu option" where
  "devauth_service key c0 t0 t1 s0 =
     (let s = s0\<lparr>auth_request := False\<rparr>;
          nonce = foldl (\<lambda>b i. pack_u32 b (4 * i) (auth_nonce s ! i)) (replicate 16 0) [0..<4]
      in if \<not> devauth_key_present key
         then Some (s\<lparr>auth_mac := [0, 0, 0, 0],
                      reg_status := (reg_status s AND NOT ST_AUTH_BUSY) OR ST_AUTH_NOKEY OR ST_AUTH_DONE\<rparr>)
         else do {
           mac \<leftarrow> devauth_compute c0 key DEVICE_ID FW_VERSION nonce;
           Some (s\<lparr>auth_cycles := t1 - t0,
                   auth_mac := map (\<lambda>i. unpack_u32 mac (4 * i)) [0..<4],
                   reg_status := (reg_status s AND NOT ST_AUTH_BUSY) OR ST_AUTH_DONE\<rparr>)
         })"

section \<open>Start-up, main loop and callbacks\<close>

text \<open>The handles as \<open>MX_SPI2_Init\<close> and \<open>MX_TIM2_Init\<close> leave them.\<close>

definition MX_SPI2_Init :: SPI_HandleTypeDef where
  "MX_SPI2_Init =
     \<lparr>spi_State = HAL_SPI_STATE_READY, spi_ErrorCode = HAL_SPI_ERROR_NONE, spi_Lock = False,
      spi_pTx = 0, spi_TxXferCount = 0, spi_pRx = 0, spi_RxXferCount = 0,
      spi_SPE = False, spi_TXEIE = False, spi_RXNEIE = False, spi_ERRIE = False\<rparr>"

definition MX_TIM2_Init :: TIM_HandleTypeDef where
  "MX_TIM2_Init =
     \<lparr>tim_State = HAL_TIM_STATE_READY, tim_Period = 9, tim_ARR = 9, tim_CNT = 0,
      tim_CEN = False, tim_UIE = False\<rparr>"

text \<open>The state after the C start-up code has run and the peripherals are initialised.\<close>

definition mcu_reset :: mcu where
  "mcu_reset =
     \<lparr>fifo_buf = replicate 32 \<lparr>fi_sequence = 0, fi_value = 0\<rparr>, fifo_head = 0, fifo_tail = 0,
      fifo_overflow = 0, seq_counter = 0,
      rx_buf = replicate 5 0, tx_buf = replicate 5 0, reg_status = 0, reg_control = 0,
      reg_sample_rate = 1000, auth_nonce = [0, 0, 0, 0], auth_mac = [0, 0, 0, 0], auth_cycles = 0,
      auth_request = False, spi_rearm_fail = 0, spi_error_count = 0, last_seq = 0, last_val = 0,
      item_peeked = False, hspi2 = MX_SPI2_Init, htim2 = MX_TIM2_Init, data_ready = False,
      sample_mark = False, miso = []\<rparr>"

text \<open>\<open>main\<close> up to its loop.\<close>

definition mcu_main_init :: mcu where
  "mcu_main_init =
     (let s0 = mcu_reset;
          s1 = s0\<lparr>tx_buf := pack_u32 ((tx_buf s0)[0 := REG_NOP]) 1 0\<rparr>;
          s2 = s1\<lparr>data_ready := False, sample_mark := False\<rparr>
      in s2\<lparr>hspi2 := snd (HAL_SPI_TransmitReceive_IT (tx_buf s2) (rx_buf s2) FRAME_LEN (hspi2 s2))\<rparr>)"

text \<open>One iteration of the loop of \<open>main\<close>.\<close>

definition mcu_main_loop ::
  "u8 list \<Rightarrow> sha256_ctx \<Rightarrow> u32 \<Rightarrow> u32 \<Rightarrow> mcu \<Rightarrow> mcu option" where
  "mcu_main_loop key c0 t0 t1 s =
     (if auth_request s then devauth_service key c0 t0 t1 s else Some s)"

definition spi_rearm :: "mcu \<Rightarrow> mcu" where
  "spi_rearm s =
     (let (r, h) = HAL_SPI_TransmitReceive_IT (tx_buf s) (rx_buf s) FRAME_LEN (hspi2 s);
          s1 = s\<lparr>hspi2 := h\<rparr>
      in if r \<noteq> HAL_OK then s1\<lparr>spi_rearm_fail := spi_rearm_fail s1 + 1\<rparr> else s1)"

definition HAL_SPI_TxRxCpltCallback :: "mcu \<Rightarrow> mcu" where
  "HAL_SPI_TxRxCpltCallback s = spi_rearm (handle_frame s)"

definition HAL_SPI_ErrorCallback :: "mcu \<Rightarrow> mcu" where
  "HAL_SPI_ErrorCallback s = spi_rearm (spi_resync (s\<lparr>spi_error_count := spi_error_count s + 1\<rparr>))"

definition HAL_TIM_PeriodElapsedCallback :: "mcu \<Rightarrow> mcu" where
  "HAL_TIM_PeriodElapsedCallback s =
     (if reg_control s AND 0x01 \<noteq> 0
      then let sample_value = seq_counter s AND 0xFFFF;
               s1 = update_data_ready_gpio (fifo_push sample_value s)
           in s1\<lparr>sample_mark := \<not> sample_mark s1\<rparr>
      else s)"

section \<open>Interrupts\<close>

definition mcu_port :: "mcu \<Rightarrow> spi_port" where
  "mcu_port s = \<lparr>port_h = hspi2 s, port_tx = tx_buf s, port_rx = rx_buf s, port_out = miso s\<rparr>"

definition set_port :: "spi_port \<Rightarrow> mcu \<Rightarrow> mcu" where
  "set_port p s = s\<lparr>hspi2 := port_h p, rx_buf := port_rx p, miso := port_out p\<rparr>"

text \<open>The SPI2 interrupt: the HAL handler, then the user callback it ends with, if any.\<close>

definition SPI2_IRQHandler :: "spi_irq \<Rightarrow> mcu \<Rightarrow> mcu" where
  "SPI2_IRQHandler i s =
     (let (p, cb) = HAL_SPI_IRQHandler i (mcu_port s);
          s1 = set_port p s
      in case cb of
           None \<Rightarrow> s1
         | Some TxRxCplt_cb \<Rightarrow> HAL_SPI_TxRxCpltCallback s1
         | Some RxCplt_cb \<Rightarrow> s1
         | Some Error_cb \<Rightarrow> HAL_SPI_ErrorCallback s1)"

definition TIM2_IRQHandler :: "mcu \<Rightarrow> mcu" where
  "TIM2_IRQHandler s =
     (if HAL_TIM_update_enabled (htim2 s) then HAL_TIM_PeriodElapsedCallback s else s)"

datatype mcu_event =
    SpiIrq spi_irq
  | TimUpdate
  | MainLoop sha256_ctx u32 u32

fun mcu_exec :: "u8 list \<Rightarrow> mcu_event \<Rightarrow> mcu \<Rightarrow> mcu option" where
  "mcu_exec key (SpiIrq i) s = Some (SPI2_IRQHandler i s)"
| "mcu_exec key TimUpdate s = Some (TIM2_IRQHandler s)"
| "mcu_exec key (MainLoop c0 t0 t1) s = mcu_main_loop key c0 t0 t1 s"

text \<open>The states the firmware can be in, whatever the order of interrupts and loop iterations.\<close>

inductive mcu_reach :: "u8 list \<Rightarrow> mcu \<Rightarrow> bool" for key where
  init: "mcu_reach key mcu_main_init"
| step: "mcu_reach key s \<Longrightarrow> mcu_exec key e s = Some s' \<Longrightarrow> mcu_reach key s'"

section \<open>Invariants\<close>

text \<open>
  The FIFO half: indices in range, consecutive sequence numbers, values derived from them,
  DATA\_READY high exactly while the FIFO is non-empty, and a peeked item that is still the
  oldest one, so that the value that is popped belongs to the sequence number that was read.
\<close>

definition inv_fifo :: "mcu \<Rightarrow> bool" where
  "inv_fifo s \<longleftrightarrow>
     fifo_inv s \<and> fifo_seq_inv s
     \<and> (\<forall>x \<in> set (fifo_items s). fi_value x = fi_sequence x AND 0xFFFF)
     \<and> (data_ready s \<longleftrightarrow> fifo_items s \<noteq> [])
     \<and> (item_peeked s \<longrightarrow>
          (\<exists>xs. fifo_items s = \<lparr>fi_sequence = last_seq s, fi_value = last_val s\<rparr> # xs))"

text \<open>The register half: the rate is valid, RUNNING mirrors CONTROL and the timer follows both.\<close>

definition inv_regs :: "mcu \<Rightarrow> bool" where
  "inv_regs s \<longleftrightarrow>
     1 \<le> reg_sample_rate s \<and> reg_sample_rate s \<le> 10000
     \<and> reg_control s = reg_status s AND ST_RUNNING
     \<and> (tim_UIE (htim2 s) \<longleftrightarrow> reg_control s = 1) \<and> (tim_CEN (htim2 s) \<longleftrightarrow> reg_control s = 1)
     \<and> tim_State (htim2 s) = (if reg_control s = 1 then HAL_TIM_STATE_BUSY else HAL_TIM_STATE_READY)
     \<and> (reg_control s = 1 \<longrightarrow> tim_ARR (htim2 s) = 10000 div reg_sample_rate s - 1)
     \<and> length (auth_nonce s) = 4 \<and> length (auth_mac s) = 4
     \<and> (auth_request s \<longleftrightarrow> reg_status s AND ST_AUTH_BUSY \<noteq> 0)"

text \<open>The SPI half: a transfer of one frame is always armed.\<close>

definition spi_armed :: "mcu \<Rightarrow> bool" where
  "spi_armed s \<longleftrightarrow>
     port_armed (mcu_port s) \<and> length (tx_buf s) = 5 \<and> length (rx_buf s) = 5"

definition mcu_inv :: "mcu \<Rightarrow> bool" where
  "mcu_inv s \<longleftrightarrow> inv_fifo s \<and> inv_regs s \<and> spi_armed s \<and> spi_rearm_fail s = 0"

lemma inv_fifo_cong:
  assumes "fifo_buf s' = fifo_buf s" "fifo_head s' = fifo_head s" "fifo_tail s' = fifo_tail s"
    "seq_counter s' = seq_counter s" "data_ready s' = data_ready s" "item_peeked s' = item_peeked s"
    "last_seq s' = last_seq s" "last_val s' = last_val s"
  shows "inv_fifo s' = inv_fifo s"
  using assms by (simp add: inv_fifo_def fifo_inv_def fifo_seq_inv_def fifo_items_def fifo_level_def)

lemma inv_regs_cong:
  assumes "reg_sample_rate s' = reg_sample_rate s" "reg_control s' = reg_control s"
    "reg_status s' AND ST_RUNNING = reg_status s AND ST_RUNNING"
    "reg_status s' AND ST_AUTH_BUSY = reg_status s AND ST_AUTH_BUSY" "htim2 s' = htim2 s"
    "length (auth_nonce s') = length (auth_nonce s)" "length (auth_mac s') = length (auth_mac s)"
    "auth_request s' = auth_request s"
  shows "inv_regs s' = inv_regs s"
  using assms by (simp add: inv_regs_def)

subsection \<open>FIFO half\<close>

lemma fifo_items_cong:
  assumes "fifo_buf s' = fifo_buf s" "fifo_head s' = fifo_head s" "fifo_tail s' = fifo_tail s"
  shows "fifo_items s' = fifo_items s"
  using assms by (simp add: fifo_items_def fifo_level_def)

lemma inv_fifo_gpio:
  assumes "fifo_inv s" "fifo_seq_inv s" "\<forall>x \<in> set (fifo_items s). fi_value x = fi_sequence x AND 0xFFFF"
    "item_peeked s \<Longrightarrow> \<exists>xs. fifo_items s = \<lparr>fi_sequence = last_seq s, fi_value = last_val s\<rparr> # xs"
  shows "inv_fifo (update_data_ready_gpio s)"
proof -
  let ?s = "update_data_ready_gpio s"
  have "fifo_inv ?s = fifo_inv s" "fifo_items ?s = fifo_items s" "seq_counter ?s = seq_counter s"
    "item_peeked ?s = item_peeked s" "last_seq ?s = last_seq s" "last_val ?s = last_val s"
    by (simp_all add: update_data_ready_gpio_def fifo_inv_def fifo_items_def fifo_level_def)
  moreover have "data_ready ?s \<longleftrightarrow> fifo_items s \<noteq> []"
    using fifo_empty_iff [OF assms(1)] by (simp add: update_data_ready_gpio_def)
  ultimately show ?thesis using assms by (simp add: inv_fifo_def fifo_seq_inv_def)
qed

lemma fifo_pop_frame [simp, frame_simps]:
  "item_peeked (snd (fifo_pop s)) = item_peeked s" "last_seq (snd (fifo_pop s)) = last_seq s"
  "last_val (snd (fifo_pop s)) = last_val s" "reg_status (snd (fifo_pop s)) = reg_status s"
  "reg_control (snd (fifo_pop s)) = reg_control s" "htim2 (snd (fifo_pop s)) = htim2 s"
  "reg_sample_rate (snd (fifo_pop s)) = reg_sample_rate s" "auth_nonce (snd (fifo_pop s)) = auth_nonce s"
  "auth_mac (snd (fifo_pop s)) = auth_mac s" "auth_request (snd (fifo_pop s)) = auth_request s"
  "hspi2 (snd (fifo_pop s)) = hspi2 s" "tx_buf (snd (fifo_pop s)) = tx_buf s"
  "rx_buf (snd (fifo_pop s)) = rx_buf s" "miso (snd (fifo_pop s)) = miso s"
  "spi_rearm_fail (snd (fifo_pop s)) = spi_rearm_fail s"
  by (simp_all add: fifo_pop_def)

lemma fifo_push_frame [simp, frame_simps]:
  "item_peeked (fifo_push v s) = item_peeked s" "last_seq (fifo_push v s) = last_seq s"
  "last_val (fifo_push v s) = last_val s" "reg_status (fifo_push v s) = reg_status s"
  "reg_control (fifo_push v s) = reg_control s" "htim2 (fifo_push v s) = htim2 s"
  "reg_sample_rate (fifo_push v s) = reg_sample_rate s" "auth_nonce (fifo_push v s) = auth_nonce s"
  "auth_mac (fifo_push v s) = auth_mac s" "auth_request (fifo_push v s) = auth_request s"
  "hspi2 (fifo_push v s) = hspi2 s" "tx_buf (fifo_push v s) = tx_buf s"
  "rx_buf (fifo_push v s) = rx_buf s" "miso (fifo_push v s) = miso s"
  "spi_rearm_fail (fifo_push v s) = spi_rearm_fail s"
  by (simp_all add: fifo_push_def Let_def)

lemma gpio_frame [simp, frame_simps]:
  "item_peeked (update_data_ready_gpio s) = item_peeked s" "last_seq (update_data_ready_gpio s) = last_seq s"
  "last_val (update_data_ready_gpio s) = last_val s" "reg_status (update_data_ready_gpio s) = reg_status s"
  "reg_control (update_data_ready_gpio s) = reg_control s" "htim2 (update_data_ready_gpio s) = htim2 s"
  "reg_sample_rate (update_data_ready_gpio s) = reg_sample_rate s"
  "auth_nonce (update_data_ready_gpio s) = auth_nonce s"
  "auth_mac (update_data_ready_gpio s) = auth_mac s" "auth_request (update_data_ready_gpio s) = auth_request s"
  "hspi2 (update_data_ready_gpio s) = hspi2 s" "tx_buf (update_data_ready_gpio s) = tx_buf s"
  "rx_buf (update_data_ready_gpio s) = rx_buf s" "miso (update_data_ready_gpio s) = miso s"
  "spi_rearm_fail (update_data_ready_gpio s) = spi_rearm_fail s"
  "fifo_items (update_data_ready_gpio s) = fifo_items s" "seq_counter (update_data_ready_gpio s) = seq_counter s"
  "fifo_overflow (update_data_ready_gpio s) = fifo_overflow s" "fifo_inv (update_data_ready_gpio s) = fifo_inv s"
  by (simp_all add: update_data_ready_gpio_def fifo_items_def fifo_level_def fifo_inv_def)

lemma inv_fifo_frame [simp, frame_simps]:
  "inv_fifo (s\<lparr>htim2 := x0\<rparr>) = inv_fifo s"
  "inv_fifo (s\<lparr>reg_status := x1\<rparr>) = inv_fifo s"
  "inv_fifo (s\<lparr>reg_control := x2\<rparr>) = inv_fifo s"
  "inv_fifo (s\<lparr>reg_sample_rate := x3\<rparr>) = inv_fifo s"
  "inv_fifo (s\<lparr>auth_nonce := x4\<rparr>) = inv_fifo s"
  "inv_fifo (s\<lparr>auth_mac := x5\<rparr>) = inv_fifo s"
  "inv_fifo (s\<lparr>auth_cycles := x6\<rparr>) = inv_fifo s"
  "inv_fifo (s\<lparr>auth_request := x7\<rparr>) = inv_fifo s"
  "inv_fifo (s\<lparr>tx_buf := x8\<rparr>) = inv_fifo s"
  "inv_fifo (s\<lparr>rx_buf := x9\<rparr>) = inv_fifo s"
  "inv_fifo (s\<lparr>hspi2 := x10\<rparr>) = inv_fifo s"
  "inv_fifo (s\<lparr>miso := x11\<rparr>) = inv_fifo s"
  "inv_fifo (s\<lparr>spi_rearm_fail := x12\<rparr>) = inv_fifo s"
  "inv_fifo (s\<lparr>spi_error_count := x13\<rparr>) = inv_fifo s"
  "inv_fifo (s\<lparr>sample_mark := x14\<rparr>) = inv_fifo s"
  "inv_fifo (s\<lparr>fifo_overflow := x15\<rparr>) = inv_fifo s"
  by (rule inv_fifo_cong, simp_all)+

lemma FifoItem_eta [simp]: "\<lparr>fi_sequence = fi_sequence x, fi_value = fi_value x\<rparr> = x"
  by (cases x) simp

lemma inv_fifo_pop:
  assumes "inv_fifo s" "fifo_buf s' = fifo_buf s" "fifo_head s' = fifo_head s" "fifo_tail s' = fifo_tail s"
    "seq_counter s' = seq_counter s" "\<not> item_peeked s'"
  shows "inv_fifo (update_data_ready_gpio (snd (fifo_pop s')))"
proof -
  have items: "fifo_items s' = fifo_items s" using assms by (intro fifo_items_cong)
  have inv: "fifo_inv s'" "fifo_seq_inv s'"
    using assms items by (simp_all add: inv_fifo_def fifo_inv_def fifo_seq_inv_def)
  have "set (tl (fifo_items s)) \<subseteq> set (fifo_items s)" by (cases "fifo_items s") auto
  then show ?thesis
    using assms(1,6) inv items
    by (intro inv_fifo_gpio) (auto simp: inv_fifo_def fifo_pop_items fifo_pop_inv fifo_pop_seq_inv)
qed

lemma reg_read_inv_fifo:
  assumes "inv_fifo s"
  shows "inv_fifo (snd (reg_read addr s))"
proof -
  have inv: "fifo_inv s" using assms by (simp add: inv_fifo_def)
  have seq: "inv_fifo (s\<lparr>last_seq := fi_sequence x, last_val := fi_value x, item_peeked := True\<rparr>)"
    if "fifo_peek s = Some x" for x
  proof -
    let ?s = "s\<lparr>last_seq := fi_sequence x, last_val := fi_value x, item_peeked := True\<rparr>"
    have "fifo_items ?s = fifo_items s" "fifo_inv ?s = fifo_inv s" "fifo_seq_inv ?s = fifo_seq_inv s"
      by (simp_all add: fifo_items_def fifo_level_def fifo_inv_def fifo_seq_inv_def)
    moreover have "\<exists>xs. fifo_items s = x # xs"
      using that by (simp add: fifo_peek_items [OF inv] split: list.splits)
    ultimately show ?thesis using assms by (simp add: inv_fifo_def)
  qed
  have val: "inv_fifo (snd (reg_read REG_DATA_VAL s))"
    using assms by (auto simp: reg_read_def intro!: inv_fifo_pop split: option.split)
  consider "addr = REG_DATA_SEQ" | "addr = REG_DATA_VAL" | "addr \<noteq> REG_DATA_SEQ" "addr \<noteq> REG_DATA_VAL"
    by blast
  then show ?thesis
  proof cases
    case 1
    then show ?thesis using assms seq by (simp add: reg_read_def split: option.split)
  next
    case 2
    then show ?thesis using val by simp
  next
    case 3
    then show ?thesis using assms unfolding reg_read_def by (simp split: if_split)
  qed
qed

lemma fifo_items_empty: "fifo_head s = fifo_tail s \<Longrightarrow> fifo_items s = []"
  by (simp add: fifo_items_def fifo_level_def)

lemma update_timer_rate_frame [simp, frame_simps]:
  "fifo_buf (update_timer_rate r s) = fifo_buf s" "fifo_head (update_timer_rate r s) = fifo_head s"
  "fifo_tail (update_timer_rate r s) = fifo_tail s" "seq_counter (update_timer_rate r s) = seq_counter s"
  "data_ready (update_timer_rate r s) = data_ready s" "item_peeked (update_timer_rate r s) = item_peeked s"
  "last_seq (update_timer_rate r s) = last_seq s" "last_val (update_timer_rate r s) = last_val s"
  "fifo_overflow (update_timer_rate r s) = fifo_overflow s"
  "reg_status (update_timer_rate r s) = reg_status s" "reg_control (update_timer_rate r s) = reg_control s"
  "reg_sample_rate (update_timer_rate r s) = reg_sample_rate s"
  "auth_nonce (update_timer_rate r s) = auth_nonce s" "auth_mac (update_timer_rate r s) = auth_mac s"
  "auth_request (update_timer_rate r s) = auth_request s" "hspi2 (update_timer_rate r s) = hspi2 s"
  "tx_buf (update_timer_rate r s) = tx_buf s" "rx_buf (update_timer_rate r s) = rx_buf s"
  "miso (update_timer_rate r s) = miso s" "spi_rearm_fail (update_timer_rate r s) = spi_rearm_fail s"
  by (simp_all add: update_timer_rate_def Let_def)

text \<open>\<open>reg_write_control\<close> on its three effects: flags, start, stop.\<close>

lemma inv_fifo_timer_rate [simp]: "inv_fifo (update_timer_rate r s) = inv_fifo s"
  by (rule inv_fifo_cong) simp_all

lemma inv_fifo_start:
  assumes "length (fifo_buf s) = 32"
  shows "inv_fifo (update_data_ready_gpio
    (s\<lparr>reg_status := r, seq_counter := 0, fifo_head := 0, fifo_tail := 0, fifo_overflow := 0, item_peeked := False\<rparr>))"
  using assms
  by (intro inv_fifo_gpio) (simp_all add: fifo_inv_def FIFO_DEPTH_def fifo_seq_inv_def fifo_items_empty)

lemma inv_fifo_stop:
  assumes "inv_fifo s"
  shows "inv_fifo (update_data_ready_gpio (s\<lparr>reg_control := c, reg_status := r, htim2 := h\<rparr>))"
proof -
  let ?s = "s\<lparr>reg_control := c, reg_status := r, htim2 := h\<rparr>"
  have "inv_fifo ?s" using assms by simp
  then show ?thesis by (intro inv_fifo_gpio) (auto simp: inv_fifo_def)
qed

lemma inv_fifo_lengthD: "inv_fifo s \<Longrightarrow> length (fifo_buf s) = 32"
  using fifo_invD by (auto simp: inv_fifo_def)

lemma reg_write_inv_fifo:
  assumes "inv_fifo s"
  shows "inv_fifo (reg_write addr val s)"
proof -
  have ctl: "inv_fifo (reg_write_control val s)"
    using assms inv_fifo_lengthD [OF assms] inv_fifo_stop [OF assms]
    by (auto simp: reg_write_control_def Let_def intro!: inv_fifo_start split: prod.split)
  show ?thesis using assms ctl by (simp add: reg_write_def Let_def)
qed

subsection \<open>Register half\<close>

lemma and_1_cases: "(x :: u32) AND 1 = 0 \<or> x AND 1 = 1"
  by (simp add: and_one_eq mod2_eq_if)

text \<open>For a valid rate the timer period is at least one tick, so the code's correction never fires.\<close>

lemma timer_period:
  fixes r :: u32
  assumes "1 \<le> r" "r \<le> 10000"
  shows "\<not> 10000 div r < 1" "unat (10000 div r) = 10000 div unat r" "1 \<le> 10000 div unat r"
    "10000 div unat r \<le> 10000"
proof -
  show u: "unat (10000 div r) = 10000 div unat r" by (simp add: unat_div_distrib)
  have r: "1 \<le> unat r" "unat r \<le> 10000" using assms by (simp_all add: word_le_nat_alt)
  then have "unat r * 1 \<le> 10000" by simp
  then show ge: "1 \<le> 10000 div unat r"
    using r by (metis One_nat_def Suc_le_eq div_greater_zero_iff mult.right_neutral)
  show "\<not> 10000 div r < 1" using ge u by (simp add: word_less_nat_alt)
  show "10000 div unat r \<le> 10000" by (rule div_le_dividend)
qed

lemma update_timer_rate_ARR:
  assumes "1 \<le> r" "r \<le> 10000"
  shows "htim2 (update_timer_rate r s)
    = (htim2 s)\<lparr>tim_ARR := 10000 div r - 1, tim_Period := 10000 div r - 1, tim_CNT := 0\<rparr>"
  using timer_period(1) [OF assms]
  by (simp add: update_timer_rate_def HAL_TIM_SET_AUTORELOAD_def HAL_TIM_SET_COUNTER_def Let_def)

lemma reg_read_frame [simp, frame_simps]:
  "reg_control (snd (reg_read a s)) = reg_control s" "htim2 (snd (reg_read a s)) = htim2 s"
  "reg_sample_rate (snd (reg_read a s)) = reg_sample_rate s"
  "auth_nonce (snd (reg_read a s)) = auth_nonce s" "auth_mac (snd (reg_read a s)) = auth_mac s"
  "auth_request (snd (reg_read a s)) = auth_request s" "hspi2 (snd (reg_read a s)) = hspi2 s"
  "tx_buf (snd (reg_read a s)) = tx_buf s" "rx_buf (snd (reg_read a s)) = rx_buf s"
  "miso (snd (reg_read a s)) = miso s" "spi_rearm_fail (snd (reg_read a s)) = spi_rearm_fail s"
  by (simp_all add: reg_read_def split: option.split)

lemma reg_read_status:
  "reg_status (snd (reg_read a s)) = reg_status s
   \<or> reg_status (snd (reg_read a s)) = reg_status s OR ST_CMD_ERR"
  by (simp add: reg_read_def split: option.split)

lemma reg_read_inv_regs: "inv_regs (snd (reg_read a s)) = inv_regs s"
  using reg_read_status [of a s] by (intro inv_regs_cong) (auto simp: mask_simps)

lemma reg_write_control_start:
  assumes "val AND 1 = 1"
  shows "reg_write_control val s =
    (let s1 = (if val AND 2 \<noteq> 0
               then s\<lparr>reg_status := reg_status s AND NOT (ST_CMD_ERR OR ST_RANGE_ERR OR ST_SPI_RESYNC)\<rparr> else s);
         s4 = update_timer_rate (reg_sample_rate s) (update_data_ready_gpio
           (s1\<lparr>reg_control := 1, reg_status := reg_status s1 OR ST_RUNNING, seq_counter := 0,
               fifo_head := 0, fifo_tail := 0, fifo_overflow := 0, item_peeked := False\<rparr>))
     in s4\<lparr>htim2 := snd (HAL_TIM_Base_Start_IT (htim2 s4))\<rparr>)"
  using assms by (simp add: reg_write_control_def Let_def mask_simps)

lemma reg_write_control_stop:
  assumes "val AND 1 = 0"
  shows "reg_write_control val s =
    (let s1 = (if val AND 2 \<noteq> 0
               then s\<lparr>reg_status := reg_status s AND NOT (ST_CMD_ERR OR ST_RANGE_ERR OR ST_SPI_RESYNC)\<rparr> else s)
     in update_data_ready_gpio
          (s1\<lparr>reg_control := 0, reg_status := reg_status s1 AND NOT ST_RUNNING,
              htim2 := snd (HAL_TIM_Base_Stop_IT (htim2 s))\<rparr>))"
  using assms by (simp add: reg_write_control_def Let_def mask_simps)

lemma reg_write_control_inv_regs:
  assumes "inv_regs s"
  shows "inv_regs (reg_write_control val s)"
proof (cases "val AND 1 = 1")
  case True
  have "1 \<le> reg_sample_rate s" "reg_sample_rate s \<le> 10000" using assms by (simp_all add: inv_regs_def)
  note arr = update_timer_rate_ARR [OF this]
  show ?thesis using assms
    by (simp add: reg_write_control_start [OF True] Let_def inv_regs_def arr HAL_TIM_Base_Start_IT_def mask_simps
        split: if_splits)
next
  case False
  then have "val AND 1 = 0" using and_1_cases [of val] by simp
  from reg_write_control_stop [OF this] show ?thesis using assms
    by (simp add: Let_def inv_regs_def HAL_TIM_Base_Stop_IT_def mask_simps)
qed

lemma reg_write_inv_regs:
  assumes "inv_regs s"
  shows "inv_regs (reg_write addr val s)"
proof -
  have rate: "inv_regs (update_timer_rate val (s\<lparr>reg_sample_rate := val\<rparr>))"
    if "1 \<le> val" "val \<le> 10000"
    using that assms by (simp add: inv_regs_def update_timer_rate_ARR [OF that])
  show ?thesis
    using assms rate reg_write_control_inv_regs [OF assms, of val]
    by (auto simp: reg_write_def Let_def inv_regs_def mask_simps)
qed

subsection \<open>SPI half\<close>

lemma spi_rearm_ok:
  assumes "spi_State (hspi2 s) = HAL_SPI_STATE_READY" "\<not> spi_Lock (hspi2 s)"
    "length (tx_buf s) = 5" "length (rx_buf s) = 5"
  shows "spi_rearm s = s\<lparr>hspi2 := snd (HAL_SPI_TransmitReceive_IT (tx_buf s) (rx_buf s) FRAME_LEN (hspi2 s))\<rparr>"
    and "spi_armed (spi_rearm s)"
    and "spi_pTx (hspi2 (spi_rearm s)) = 0" "spi_pRx (hspi2 (spi_rearm s)) = 0"
proof -
  note ok = arm_ok [OF assms]
  show eq: "spi_rearm s = s\<lparr>hspi2 := snd (HAL_SPI_TransmitReceive_IT (tx_buf s) (rx_buf s) FRAME_LEN (hspi2 s))\<rparr>"
    using ok(1) by (simp add: spi_rearm_def Let_def case_prod_beta)
  show "spi_armed (spi_rearm s)" using ok(2) assms by (simp add: eq spi_armed_def mcu_port_def)
  show "spi_pTx (hspi2 (spi_rearm s)) = 0" "spi_pRx (hspi2 (spi_rearm s)) = 0" using ok by (simp_all add: eq)
qed

lemma reg_write_control_frame [simp, frame_simps]:
  "auth_nonce (reg_write_control v s) = auth_nonce s" "auth_mac (reg_write_control v s) = auth_mac s"
  "hspi2 (reg_write_control v s) = hspi2 s" "tx_buf (reg_write_control v s) = tx_buf s"
  "rx_buf (reg_write_control v s) = rx_buf s" "miso (reg_write_control v s) = miso s"
  "spi_rearm_fail (reg_write_control v s) = spi_rearm_fail s"
  "auth_request (reg_write_control v s) = auth_request s"
  by (simp_all add: reg_write_control_def Let_def)

lemma reg_write_frame [simp, frame_simps]:
  "hspi2 (reg_write a v s) = hspi2 s" "tx_buf (reg_write a v s) = tx_buf s"
  "rx_buf (reg_write a v s) = rx_buf s" "miso (reg_write a v s) = miso s"
  "spi_rearm_fail (reg_write a v s) = spi_rearm_fail s"
  by (simp_all add: reg_write_def Let_def)

lemma length_pack_u32 [simp]: "length (pack_u32 b p v) = length b"
  by (simp add: pack_u32_def)

lemma handle_frame_frame [simp, frame_simps]:
  "hspi2 (handle_frame s) = hspi2 s" "length (tx_buf (handle_frame s)) = length (tx_buf s)"
  "rx_buf (handle_frame s) = rx_buf s" "miso (handle_frame s) = miso s"
  "spi_rearm_fail (handle_frame s) = spi_rearm_fail s"
  by (simp_all add: handle_frame_def Let_def case_prod_beta)

lemma handle_frame_inv:
  assumes "inv_fifo s" "inv_regs s"
  shows "inv_fifo (handle_frame s)" "inv_regs (handle_frame s)"
proof -
  show "inv_fifo (handle_frame s)"
    using assms reg_read_inv_fifo reg_write_inv_fifo by (simp add: handle_frame_def Let_def case_prod_beta)
  have "inv_regs (t\<lparr>tx_buf := b\<rparr>) = inv_regs t" for t b by (rule inv_regs_cong) simp_all
  then show "inv_regs (handle_frame s)"
    using assms reg_write_inv_regs by (simp add: handle_frame_def Let_def case_prod_beta reg_read_inv_regs)
qed

lemma inv_regs_frame [simp, frame_simps]:
  "inv_regs (s\<lparr>hspi2 := h\<rparr>) = inv_regs s" "inv_regs (s\<lparr>rx_buf := b\<rparr>) = inv_regs s"
  "inv_regs (s\<lparr>miso := b\<rparr>) = inv_regs s" "inv_regs (s\<lparr>spi_error_count := n\<rparr>) = inv_regs s"
  "inv_regs (s\<lparr>sample_mark := m\<rparr>) = inv_regs s" "inv_regs (s\<lparr>spi_rearm_fail := n\<rparr>) = inv_regs s"
  by (rule inv_regs_cong, simp_all)+

lemma spi_resync_inv:
  "inv_fifo (spi_resync s) = inv_fifo s" "inv_regs (spi_resync s) = inv_regs s"
  "spi_State (hspi2 (spi_resync s)) = HAL_SPI_STATE_READY" "\<not> spi_Lock (hspi2 (spi_resync s))"
  "tx_buf (spi_resync s) = tx_buf s" "rx_buf (spi_resync s) = rx_buf s"
  "spi_rearm_fail (spi_resync s) = spi_rearm_fail s"
  by (simp_all add: spi_resync_def Let_def) (rule inv_regs_cong, simp_all add: mask_simps)

lemma set_port_frame [simp, frame_simps]:
  "inv_fifo (set_port p s) = inv_fifo s" "inv_regs (set_port p s) = inv_regs s"
  "tx_buf (set_port p s) = tx_buf s" "rx_buf (set_port p s) = port_rx p" "hspi2 (set_port p s) = port_h p"
  "miso (set_port p s) = port_out p" "spi_rearm_fail (set_port p s) = spi_rearm_fail s"
  by (simp_all add: set_port_def)

lemma mcu_port_set_port: "port_tx p = tx_buf s \<Longrightarrow> mcu_port (set_port p s) = p"
  by (cases p) (simp add: mcu_port_def set_port_def)

lemma SPI2_IRQHandler_inv:
  assumes "mcu_inv s"
  shows "mcu_inv (SPI2_IRQHandler i s)"
proof -
  obtain p cb where r: "HAL_SPI_IRQHandler i (mcu_port s) = (p, cb)" by fastforce
  have armed: "port_armed (mcu_port s)" and len: "length (tx_buf s) = 5" "length (rx_buf s) = 5"
    and inv: "inv_fifo s" "inv_regs s" "spi_rearm_fail s = 0"
    using assms by (simp_all add: mcu_inv_def spi_armed_def)
  have out: "isr_outcome (mcu_port s) (p, cb)" using HAL_SPI_IRQHandler_outcome [OF armed, of i] r by simp
  then have lp: "port_tx p = tx_buf s" "length (port_rx p) = 5"
    using len by (auto simp: isr_outcome_def mcu_port_def)
  let ?s = "set_port p s"
  from out consider "cb = None" "port_armed p"
    | "cb = Some TxRxCplt_cb" "spi_State (port_h p) = HAL_SPI_STATE_READY" "\<not> spi_Lock (port_h p)"
    | "cb = Some Error_cb" "spi_State (port_h p) = HAL_SPI_STATE_READY" "\<not> spi_Lock (port_h p)"
    by (auto simp: isr_outcome_def)
  then show ?thesis
  proof cases
    case 1
    then show ?thesis using inv len lp mcu_port_set_port [OF lp(1)]
      by (simp add: SPI2_IRQHandler_def r mcu_inv_def spi_armed_def)
  next
    case 2
    note re = spi_rearm_ok [of "handle_frame ?s"]
    show ?thesis using 2 inv len lp re handle_frame_inv [of ?s]
      by (simp add: SPI2_IRQHandler_def r HAL_SPI_TxRxCpltCallback_def mcu_inv_def)
  next
    case 3
    define t where "t = spi_resync (?s\<lparr>spi_error_count := spi_error_count ?s + 1\<rparr>)"
    have "mcu_inv (spi_rearm t)"
      using inv len lp spi_rearm_ok [of t] unfolding mcu_inv_def t_def
      by (simp add: spi_resync_inv)
    then show ?thesis using 3 by (simp add: SPI2_IRQHandler_def r HAL_SPI_ErrorCallback_def t_def Let_def)
  qed
qed

subsection \<open>Timer and main loop\<close>

lemma inv_fifo_tick:
  assumes "inv_fifo s"
  shows "inv_fifo (update_data_ready_gpio (fifo_push (seq_counter s AND 0xFFFF) s))"
proof -
  let ?v = "seq_counter s AND 0xFFFF"
  have inv: "fifo_inv s" "fifo_seq_inv s" using assms by (simp_all add: inv_fifo_def)
  have items: "fifo_items (fifo_push ?v s) = fifo_items s
      \<or> fifo_items (fifo_push ?v s) = fifo_items s @ [\<lparr>fi_sequence = seq_counter s, fi_value = ?v\<rparr>]"
    using mf.items_cap [OF inv(1)] fifo_push_room(1) [OF inv(1)] mf.put_full [OF inv(1)]
    by (metis le_neq_implies_less)
  show ?thesis
  proof (rule inv_fifo_gpio)
    show "fifo_inv (fifo_push ?v s)" "fifo_seq_inv (fifo_push ?v s)"
      using inv by (simp_all add: fifo_push_inv fifo_push_seq_inv)
    show "\<forall>x\<in>set (fifo_items (fifo_push ?v s)). fi_value x = fi_sequence x AND 0xFFFF"
      using items assms by (auto simp: inv_fifo_def)
    show "\<exists>xs. fifo_items (fifo_push ?v s)
        = \<lparr>fi_sequence = last_seq (fifo_push ?v s), fi_value = last_val (fifo_push ?v s)\<rparr> # xs"
      if "item_peeked (fifo_push ?v s)"
      using items assms that by (auto simp: inv_fifo_def)
  qed
qed

lemma spi_armed_cong:
  "hspi2 s' = hspi2 s \<Longrightarrow> tx_buf s' = tx_buf s \<Longrightarrow> rx_buf s' = rx_buf s \<Longrightarrow> miso s' = miso s
   \<Longrightarrow> spi_armed s' = spi_armed s"
  by (simp add: spi_armed_def mcu_port_def)

lemma HAL_TIM_PeriodElapsedCallback_inv:
  assumes "mcu_inv s"
  shows "mcu_inv (HAL_TIM_PeriodElapsedCallback s)"
proof -
  let ?s = "update_data_ready_gpio (fifo_push (seq_counter s AND 0xFFFF) s)"
  have "inv_fifo ?s" using assms inv_fifo_tick by (simp add: mcu_inv_def)
  moreover have "inv_regs ?s" using assms inv_regs_cong [of ?s s] by (simp add: mcu_inv_def)
  moreover have "spi_armed (?s\<lparr>sample_mark := m\<rparr>)" for m
    using assms spi_armed_cong [of "?s\<lparr>sample_mark := m\<rparr>" s] by (simp add: mcu_inv_def)
  ultimately show ?thesis
    using assms by (simp add: HAL_TIM_PeriodElapsedCallback_def Let_def mcu_inv_def)
qed

lemma TIM2_IRQHandler_inv: "mcu_inv s \<Longrightarrow> mcu_inv (TIM2_IRQHandler s)"
  by (simp add: TIM2_IRQHandler_def HAL_TIM_PeriodElapsedCallback_inv)

text \<open>The nonce the service hands to the MAC is the four registers, big-endian.\<close>

lemma pack_words:
  assumes "length ws = 4"
  shows "foldl (\<lambda>b i. pack_u32 b (4 * i) (ws ! i)) (replicate 16 0) [0..<4] = concat (map be32_bytes ws)"
proof -
  obtain a b c d where "ws = [a, b, c, d]"
    using assms by (auto simp: numeral_eq_Suc length_Suc_conv)
  then show ?thesis
    by (simp add: pack_u32_def be32_bytes_def upt_conv_Cons numeral_eq_Suc)
qed

definition words_of_mac :: "u8 list \<Rightarrow> u32 list" where
  "words_of_mac mac = map (\<lambda>i. unpack_u32 mac (4 * i)) [0..<4]"

text \<open>The service always returns, and what it returns.\<close>

lemma devauth_service_ok:
  assumes "length (ctx_block c0) = 64" "length (auth_nonce s) = 4"
  shows "devauth_service key c0 t0 t1 s =
    Some (if devauth_key_present key
          then s\<lparr>auth_request := False, auth_cycles := t1 - t0,
                 auth_mac := words_of_mac (devauth_spec key DEVICE_ID FW_VERSION (concat (map be32_bytes (auth_nonce s)))),
                 reg_status := (reg_status s AND NOT ST_AUTH_BUSY) OR ST_AUTH_DONE\<rparr>
          else s\<lparr>auth_request := False, auth_mac := [0, 0, 0, 0],
                 reg_status := (reg_status s AND NOT ST_AUTH_BUSY) OR ST_AUTH_NOKEY OR ST_AUTH_DONE\<rparr>)"
  unfolding devauth_service_def Let_def devauth_compute_ok [OF assms(1)] words_of_mac_def
  using pack_words [OF assms(2)] by simp

lemma devauth_service_inv:
  assumes "mcu_inv s" "devauth_service key c0 t0 t1 s = Some s'"
  shows "mcu_inv s'"
  using assms
  by (auto simp: devauth_service_def Let_def mcu_inv_def inv_regs_def mask_simps
      spi_armed_def mcu_port_def split: if_splits bind_splits)

lemma mcu_init_inv: "mcu_inv mcu_main_init"
proof -
  have "inv_fifo mcu_main_init"
    by (simp add: mcu_main_init_def mcu_reset_def Let_def inv_fifo_def fifo_inv_def FIFO_DEPTH_def
        fifo_seq_inv_def fifo_items_empty)
  moreover have "inv_regs mcu_main_init"
    by (simp add: mcu_main_init_def mcu_reset_def Let_def inv_regs_def MX_TIM2_Init_def)
  moreover have "spi_armed mcu_main_init"
    using arm_ok(2) [of MX_SPI2_Init] by (simp add: mcu_main_init_def mcu_reset_def Let_def spi_armed_def mcu_port_def
        MX_SPI2_Init_def)
  ultimately show ?thesis by (simp add: mcu_inv_def mcu_main_init_def mcu_reset_def Let_def)
qed

lemma mcu_exec_inv:
  assumes "mcu_inv s" "mcu_exec key e s = Some s'"
  shows "mcu_inv s'"
  using assms
  by (cases e) (auto simp: SPI2_IRQHandler_inv TIM2_IRQHandler_inv mcu_main_loop_def devauth_service_inv
      split: if_splits)

lemma mcu_reach_inv: "mcu_reach key s \<Longrightarrow> mcu_inv s"
  by (induction rule: mcu_reach.induct) (auto simp: mcu_init_inv intro: mcu_exec_inv)

end
