(* ===== verification/Mcu_Protocol.thy ===== *)
theory Mcu_Protocol
  imports Mcu_Firmware
begin

text \<open>
  The register protocol as the bus master sees it: five bytes in, five bytes out, the reply to
  a command in the frame after it. A frame at the level of byte interrupts is reduced to one
  step, and that step to the register functions of Core/Src/main.c.
\<close>

section \<open>One frame\<close>

text \<open>Everything but the SPI plumbing of a state is the register file; \<open>plumb\<close> replaces the plumbing.\<close>

definition plumb :: "u8 list \<Rightarrow> u8 list \<Rightarrow> SPI_HandleTypeDef \<Rightarrow> u8 list \<Rightarrow> mcu \<Rightarrow> mcu" where
  "plumb r t h m s = s\<lparr>rx_buf := r, tx_buf := t, hspi2 := h, miso := m\<rparr>"

definition regs_of :: "mcu \<Rightarrow> mcu" where
  "regs_of s = plumb [] [] MX_SPI2_Init [] s"

text \<open>The transfer is armed and no byte of the frame has been exchanged yet.\<close>

definition spi_idle :: "mcu \<Rightarrow> bool" where
  "spi_idle s \<longleftrightarrow> spi_armed s \<and> spi_pTx (hspi2 s) = 0 \<and> spi_pRx (hspi2 s) = 0"

definition spi_frame :: "u8 list \<Rightarrow> mcu \<Rightarrow> mcu" where
  "spi_frame bytes s =
     HAL_SPI_TxRxCpltCallback
       (plumb bytes (tx_buf s) (xfer_closed (mcu_port s)) (miso s @ tx_buf s) s)"

lemma SPI2_irqs_complete:
  assumes "xfer_expects is (mcu_port s)"
  shows "foldl (\<lambda>s i. SPI2_IRQHandler i s) s is
    = HAL_SPI_TxRxCpltCallback (set_port (xfer_result is (mcu_port s)) s)"
  using assms
proof (induction "is" arbitrary: s)
  case Nil
  then show ?case by (simp add: xfer_expects_def)
next
  case (Cons i "is")
  from Cons.prems show ?case
  proof (cases rule: xfer_expects_cases)
    case last
    then show ?thesis by (simp add: SPI2_IRQHandler_def)
  next
    case (more p1)
    then have p1: "mcu_port (set_port p1 s) = p1" by (simp add: mcu_port_set_port mcu_port_def)
    have "set_port p (set_port p1 s) = set_port p s" for p by (simp add: set_port_def)
    then show ?thesis using more Cons.IH [of "set_port p1 s"] by (simp add: SPI2_IRQHandler_def p1)
  qed
qed

lemma spi_frame_irqs:
  assumes "spi_idle s" "list_all data_irq is" "length (rx_bytes is) = 5" "tx_count is = 5"
  shows "foldl (\<lambda>s i. SPI2_IRQHandler i s) s is = spi_frame (rx_bytes is) s"
proof -
  have act: "xfer_active (mcu_port s)" and p: "spi_pTx (hspi2 s) = 0" "spi_pRx (hspi2 s) = 0"
    and len: "length (tx_buf s) = 5" "length (rx_buf s) = 5"
    using assms(1) by (simp_all add: spi_idle_def spi_armed_def port_armed_def)
  then have "xfer_expects is (mcu_port s)"
    using assms by (auto simp: xfer_expects_def xfer_active_def mcu_port_def)
  moreover have "set_port (xfer_result is (mcu_port s)) s
      = plumb (rx_bytes is) (tx_buf s) (xfer_closed (mcu_port s)) (miso s @ tx_buf s) s"
    using p by (simp add: set_port_def xfer_result_def plumb_def mcu_port_def)
  ultimately show ?thesis by (simp add: SPI2_irqs_complete spi_frame_def)
qed

section \<open>Registers do not see the plumbing\<close>

lemma plumb_sel [simp]:
  "fifo_buf (plumb r t h m s) = fifo_buf s" "fifo_head (plumb r t h m s) = fifo_head s"
  "fifo_tail (plumb r t h m s) = fifo_tail s" "seq_counter (plumb r t h m s) = seq_counter s"
  "fifo_overflow (plumb r t h m s) = fifo_overflow s"
  "rx_buf (plumb r t h m s) = r" "tx_buf (plumb r t h m s) = t" "hspi2 (plumb r t h m s) = h"
  "miso (plumb r t h m s) = m" "spi_rearm_fail (plumb r t h m s) = spi_rearm_fail s"
  "fifo_items (plumb r t h m s) = fifo_items s" "inv_fifo (plumb r t h m s) = inv_fifo s"
  by (simp_all add: plumb_def fifo_items_def fifo_level_def)

lemma plumb_plumb [simp]: "plumb r t h m (plumb r' t' h' m' s) = plumb r t h m s"
  by (simp add: plumb_def)

lemma plumb_self: "s = plumb (rx_buf s) (tx_buf s) (hspi2 s) (miso s) s"
  by (simp add: plumb_def)

lemma regs_of_plumb [simp]: "regs_of (plumb r t h m s) = regs_of s"
  by (simp add: regs_of_def)

lemma regs_of_eq: "regs_of s = regs_of s' \<longleftrightarrow> (\<exists>r t h m. s = plumb r t h m s')"
proof
  assume "regs_of s = regs_of s'"
  then have "plumb (rx_buf s) (tx_buf s) (hspi2 s) (miso s) (regs_of s)
      = plumb (rx_buf s) (tx_buf s) (hspi2 s) (miso s) (regs_of s')" by simp
  then show "\<exists>r t h m. s = plumb r t h m s'"
    unfolding regs_of_def plumb_plumb by (metis plumb_self)
qed auto

lemma gpio_plumb: "update_data_ready_gpio (plumb r t h m s) = plumb r t h m (update_data_ready_gpio s)"
  by (simp add: update_data_ready_gpio_def plumb_def)

lemma pop_plumb: "fifo_pop (plumb r t h m s) = (fst (fifo_pop s), plumb r t h m (snd (fifo_pop s)))"
  by (simp add: fifo_pop_def plumb_def)

lemma peek_plumb: "fifo_peek (plumb r t h m s) = fifo_peek s"
  by (simp add: fifo_peek_def)

lemma push_plumb: "fifo_push v (plumb r t h m s) = plumb r t h m (fifo_push v s)"
  by (simp add: fifo_push_def plumb_def Let_def)

lemma timer_plumb: "update_timer_rate x (plumb r t h m s) = plumb r t h m (update_timer_rate x s)"
  by (simp add: update_timer_rate_def plumb_def Let_def)

lemma plumb_upd:
  "(plumb r t h m s)\<lparr>item_peeked := x0\<rparr> = plumb r t h m (s\<lparr>item_peeked := x0\<rparr>)"
  "(plumb r t h m s)\<lparr>last_seq := x1\<rparr> = plumb r t h m (s\<lparr>last_seq := x1\<rparr>)"
  "(plumb r t h m s)\<lparr>last_val := x2\<rparr> = plumb r t h m (s\<lparr>last_val := x2\<rparr>)"
  "(plumb r t h m s)\<lparr>reg_status := x3\<rparr> = plumb r t h m (s\<lparr>reg_status := x3\<rparr>)"
  "(plumb r t h m s)\<lparr>auth_nonce := x4\<rparr> = plumb r t h m (s\<lparr>auth_nonce := x4\<rparr>)"
  "(plumb r t h m s)\<lparr>auth_request := x5\<rparr> = plumb r t h m (s\<lparr>auth_request := x5\<rparr>)"
  "(plumb r t h m s)\<lparr>reg_sample_rate := x6\<rparr> = plumb r t h m (s\<lparr>reg_sample_rate := x6\<rparr>)"
  by (simp_all add: plumb_def)

lemma reg_read_plumb:
  "reg_read a (plumb r t h m s) = (fst (reg_read a s), plumb r t h m (snd (reg_read a s)))"
proof -
  have sel: "reg_status (plumb r t h m s) = reg_status s" "reg_control (plumb r t h m s) = reg_control s"
    "reg_sample_rate (plumb r t h m s) = reg_sample_rate s" "fifo_level (plumb r t h m s) = fifo_level s"
    "item_peeked (plumb r t h m s) = item_peeked s" "last_val (plumb r t h m s) = last_val s"
    "auth_nonce (plumb r t h m s) = auth_nonce s" "auth_mac (plumb r t h m s) = auth_mac s"
    "auth_cycles (plumb r t h m s) = auth_cycles s" "spi_error_count (plumb r t h m s) = spi_error_count s"
    by (simp_all add: plumb_def fifo_level_def)
  show ?thesis
    unfolding reg_read_def sel plumb_sel plumb_upd pop_plumb peek_plumb snd_conv gpio_plumb
    by (simp split: option.split)
qed

lemma reg_write_control_plumb:
  "reg_write_control v (plumb r t h m s) = plumb r t h m (reg_write_control v s)"
proof (cases "v AND 1 = 1")
  case True
  show ?thesis unfolding reg_write_control_start [OF True] Let_def
    by (cases "v AND 2 = 0") (simp_all add: plumb_def update_data_ready_gpio_def update_timer_rate_def Let_def)
next
  case False
  then have v: "v AND 1 = 0" using and_1_cases [of v] by simp
  show ?thesis unfolding reg_write_control_stop [OF v] Let_def
    by (cases "v AND 2 = 0") (simp_all add: plumb_def update_data_ready_gpio_def)
qed

lemma reg_write_plumb: "reg_write a v (plumb r t h m s) = plumb r t h m (reg_write a v s)"
proof -
  have sel: "reg_status (plumb r t h m s) = reg_status s" "auth_nonce (plumb r t h m s) = auth_nonce s"
    "reg_control (plumb r t h m s') = reg_control s'" for s'
    by (simp_all add: plumb_def)
  show ?thesis
    unfolding reg_write_def Let_def sel plumb_upd reg_write_control_plumb timer_plumb
    by (simp split: if_split)
qed

section \<open>What a frame does\<close>

lemma pack_reply:
  assumes "length b = 5"
  shows "pack_u32 (b[0 := c]) 1 v = c # be32_bytes v"
proof -
  obtain x0 x1 x2 x3 x4 where "b = [x0, x1, x2, x3, x4]"
    using assms by (auto simp: numeral_eq_Suc length_Suc_conv)
  then show ?thesis by (simp add: pack_u32_def be32_bytes_def)
qed

lemma spi_rearm_plumb:
  assumes "spi_State (hspi2 s) = HAL_SPI_STATE_READY" "\<not> spi_Lock (hspi2 s)"
    "length (tx_buf s) = 5" "length (rx_buf s) = 5"
  shows "regs_of (spi_rearm s) = regs_of s" "tx_buf (spi_rearm s) = tx_buf s" "spi_idle (spi_rearm s)"
    "miso (spi_rearm s) = miso s"
  using spi_rearm_ok [OF assms] by (simp_all add: spi_idle_def regs_of_def plumb_def)

lemma spi_frame_cases:
  assumes idle: "spi_idle s" and len: "length bytes = 5"
  defines "cmd \<equiv> bytes ! 0"
  defines "addr \<equiv> cmd AND CMD_ADDR_MASK"
  shows "cmd AND CMD_WRITE_FLAG = 0 \<Longrightarrow>
      regs_of (spi_frame bytes s) = regs_of (snd (reg_read addr s))
      \<and> tx_buf (spi_frame bytes s) = cmd # be32_bytes (fst (reg_read addr s))"
    and "cmd AND CMD_WRITE_FLAG \<noteq> 0 \<Longrightarrow>
      regs_of (spi_frame bytes s) = regs_of (reg_write addr (unpack_u32 bytes 1) s)
      \<and> tx_buf (spi_frame bytes s) = [cmd, 0, 0, 0, 0]"
    and "spi_idle (spi_frame bytes s)"
    and "miso (spi_frame bytes s) = miso s @ tx_buf s"
proof -
  let ?h = "xfer_closed (mcu_port s)" and ?m = "miso s @ tx_buf s"
  let ?s = "plumb bytes (tx_buf s) ?h ?m s"
  have l: "length (tx_buf s) = 5" and lk: "\<not> spi_Lock (hspi2 s)"
    using idle by (simp_all add: spi_idle_def spi_armed_def port_armed_def mcu_port_def)
  have h: "spi_State ?h = HAL_SPI_STATE_READY" "\<not> spi_Lock ?h"
    using lk by (simp_all add: xfer_closed_def mcu_port_def)
  note re = spi_rearm_plumb [of "handle_frame ?s"]
  have tx: "regs_of (t\<lparr>tx_buf := b\<rparr>) = regs_of t" for t b by (simp add: regs_of_def plumb_def)
  show "cmd AND CMD_WRITE_FLAG = 0 \<Longrightarrow>
      regs_of (spi_frame bytes s) = regs_of (snd (reg_read addr s))
      \<and> tx_buf (spi_frame bytes s) = cmd # be32_bytes (fst (reg_read addr s))"
    using re h l len unfolding spi_frame_def HAL_SPI_TxRxCpltCallback_def
    by (simp add: handle_frame_def Let_def reg_read_plumb cmd_def addr_def tx pack_reply [unfolded One_nat_def])
  show "cmd AND CMD_WRITE_FLAG \<noteq> 0 \<Longrightarrow>
      regs_of (spi_frame bytes s) = regs_of (reg_write addr (unpack_u32 bytes 1) s)
      \<and> tx_buf (spi_frame bytes s) = [cmd, 0, 0, 0, 0]"
    using re h l len unfolding spi_frame_def HAL_SPI_TxRxCpltCallback_def
    by (simp add: handle_frame_def Let_def reg_write_plumb cmd_def addr_def tx pack_reply [unfolded One_nat_def] be32_bytes_0)
  show "spi_idle (spi_frame bytes s)" "miso (spi_frame bytes s) = miso s @ tx_buf s"
    using re h l len unfolding spi_frame_def HAL_SPI_TxRxCpltCallback_def by simp_all
qed

lemma frame_inv:
  assumes "mcu_inv s" "spi_idle s" "length bytes = 5"
  shows "mcu_inv (spi_frame bytes s)"
proof -
  let ?s = "plumb bytes (tx_buf s) (xfer_closed (mcu_port s)) (miso s @ tx_buf s) s"
  have "length (tx_buf s) = 5" and "\<not> spi_Lock (hspi2 s)" and inv: "inv_fifo ?s" "inv_regs ?s"
    using assms by (simp_all add: mcu_inv_def spi_armed_def port_armed_def mcu_port_def plumb_def inv_regs_def)
  then show ?thesis
    using assms spi_rearm_ok [of "handle_frame ?s"] handle_frame_inv [OF inv]
    by (simp add: spi_frame_def HAL_SPI_TxRxCpltCallback_def mcu_inv_def xfer_closed_def mcu_port_def)
qed

text \<open>A tick and an iteration of the main loop do not touch the SPI side.\<close>

lemma tick_plumb: "TIM2_IRQHandler (plumb r t h m s) = plumb r t h m (TIM2_IRQHandler s)"
proof -
  have [simp]: "htim2 (plumb r t h m s) = htim2 s" "reg_control (plumb r t h m s) = reg_control s"
    by (simp_all add: plumb_def)
  have "(plumb r t h m u)\<lparr>sample_mark := x\<rparr> = plumb r t h m (u\<lparr>sample_mark := x\<rparr>)"
    "sample_mark (plumb r t h m u) = sample_mark u" for u x
    by (simp_all add: plumb_def)
  then show ?thesis
    by (simp add: TIM2_IRQHandler_def HAL_TIM_PeriodElapsedCallback_def Let_def push_plumb gpio_plumb)
qed

lemma tick_frame [simp, frame_simps]:
  "tx_buf (TIM2_IRQHandler s) = tx_buf s" "rx_buf (TIM2_IRQHandler s) = rx_buf s"
  "hspi2 (TIM2_IRQHandler s) = hspi2 s" "miso (TIM2_IRQHandler s) = miso s"
  "item_peeked (TIM2_IRQHandler s) = item_peeked s" "last_val (TIM2_IRQHandler s) = last_val s"
  "last_seq (TIM2_IRQHandler s) = last_seq s"
  by (simp_all add: TIM2_IRQHandler_def HAL_TIM_PeriodElapsedCallback_def Let_def)

lemma tick_idle: "spi_idle s \<Longrightarrow> spi_idle (TIM2_IRQHandler s)"
  by (simp add: spi_idle_def spi_armed_def mcu_port_def)

section \<open>Reading a sample: sequence number, then value\<close>

lemma tick_items:
  assumes "mcu_inv s"
  obtains "fifo_items (TIM2_IRQHandler s) = fifo_items s"
  | y where "fifo_items (TIM2_IRQHandler s) = fifo_items s @ [y]"
proof -
  have inv: "fifo_inv s" using assms by (simp add: mcu_inv_def inv_fifo_def)
  have mark: "fifo_items (t\<lparr>sample_mark := m\<rparr>) = fifo_items t" for t m by (rule fifo_items_cong) simp_all
  have "fifo_items (fifo_push v s) = fifo_items s \<or> (\<exists>y. fifo_items (fifo_push v s) = fifo_items s @ [y])" for v
    using mf.items_cap [OF inv] mf.put_room [OF inv] mf.put_full [OF inv] by (metis le_neq_implies_less)
  moreover have "fifo_items (TIM2_IRQHandler s) = fifo_items s
      \<or> (\<exists>v. fifo_items (TIM2_IRQHandler s) = fifo_items (fifo_push v s))"
    by (auto simp: TIM2_IRQHandler_def HAL_TIM_PeriodElapsedCallback_def Let_def mark)
  ultimately show thesis using that by metis
qed

lemma ticks:
  assumes "mcu_inv s" "spi_idle s"
  shows "mcu_inv ((TIM2_IRQHandler ^^ n) s)" "spi_idle ((TIM2_IRQHandler ^^ n) s)"
    "tx_buf ((TIM2_IRQHandler ^^ n) s) = tx_buf s"
    "item_peeked ((TIM2_IRQHandler ^^ n) s) = item_peeked s"
    "\<exists>ys. fifo_items ((TIM2_IRQHandler ^^ n) s) = fifo_items s @ ys \<and> length ys \<le> n"
proof -
  have "mcu_inv ((TIM2_IRQHandler ^^ n) s) \<and> spi_idle ((TIM2_IRQHandler ^^ n) s)
    \<and> tx_buf ((TIM2_IRQHandler ^^ n) s) = tx_buf s
    \<and> item_peeked ((TIM2_IRQHandler ^^ n) s) = item_peeked s
    \<and> (\<exists>ys. fifo_items ((TIM2_IRQHandler ^^ n) s) = fifo_items s @ ys \<and> length ys \<le> n)"
  proof (induction n)
    case (Suc n)
    then have "mcu_inv ((TIM2_IRQHandler ^^ n) s)" by blast
    then show ?case using Suc
      by (cases rule: tick_items) (auto simp: TIM2_IRQHandler_inv tick_idle intro: le_SucI)
  qed (use assms in simp)
  then show "mcu_inv ((TIM2_IRQHandler ^^ n) s)" "spi_idle ((TIM2_IRQHandler ^^ n) s)"
    "tx_buf ((TIM2_IRQHandler ^^ n) s) = tx_buf s"
    "item_peeked ((TIM2_IRQHandler ^^ n) s) = item_peeked s"
    "\<exists>ys. fifo_items ((TIM2_IRQHandler ^^ n) s) = fifo_items s @ ys \<and> length ys \<le> n" by blast+
qed

text \<open>The two reads on the register level.\<close>

lemma reg_read_seq:
  assumes "fifo_inv s" "fifo_items s = x # xs"
  shows "reg_read REG_DATA_SEQ s =
    (fi_sequence x, s\<lparr>last_seq := fi_sequence x, last_val := fi_value x, item_peeked := True\<rparr>)"
  using assms by (simp add: reg_read_def fifo_peek_items)

lemma reg_read_seq_empty: "fifo_inv s \<Longrightarrow> fifo_items s = [] \<Longrightarrow> reg_read REG_DATA_SEQ s = (0, s)"
  by (simp add: reg_read_def fifo_peek_items)

lemma reg_read_val:
  assumes "inv_fifo s" "fifo_items s = x # xs"
  shows "fst (reg_read REG_DATA_VAL s) = fi_value x" "fifo_items (snd (reg_read REG_DATA_VAL s)) = xs"
    "\<not> item_peeked (snd (reg_read REG_DATA_VAL s))"
proof -
  have inv: "fifo_inv s" using assms by (simp add: inv_fifo_def)
  have pop: "fifo_items (snd (fifo_pop s')) = xs" if "fifo_inv s'" "fifo_items s' = fifo_items s" for s' :: mcu
    using assms that by (simp add: fifo_pop_items)
  have p: "fifo_items (snd (fifo_pop (s\<lparr>item_peeked := b\<rparr>))) = xs"
    "fifo_items (snd (fifo_pop (s\<lparr>last_seq := l, last_val := v\<rparr>))) = xs" for b l v
    by (rule pop; use inv in \<open>simp add: fifo_inv_def fifo_items_def fifo_level_def\<close>)+
  show "fst (reg_read REG_DATA_VAL s) = fi_value x" "fifo_items (snd (reg_read REG_DATA_VAL s)) = xs"
    "\<not> item_peeked (snd (reg_read REG_DATA_VAL s))"
    using assms p by (auto simp: reg_read_def fifo_peek_items [OF inv] inv_fifo_def)
qed

lemma regs_of_items: "regs_of s = regs_of s' \<Longrightarrow> fifo_items s = fifo_items s'"
  by (auto simp: regs_of_eq)

abbreviation (input) read_cmd :: "u8 \<Rightarrow> u8 list" where
  "read_cmd a \<equiv> [a, 0, 0, 0, 0]"

lemma read_seq_frame:
  assumes "mcu_inv s" "spi_idle s" "fifo_items s = x # xs"
  shows "tx_buf (spi_frame (read_cmd REG_DATA_SEQ) s) = REG_DATA_SEQ # be32_bytes (fi_sequence x)"
    and "fifo_items (spi_frame (read_cmd REG_DATA_SEQ) s) = x # xs"
proof -
  have inv: "fifo_inv s" using assms by (simp add: mcu_inv_def inv_fifo_def)
  note r = reg_read_seq [OF inv assms(3)] and f = spi_frame_cases(1) [OF assms(2), of "read_cmd REG_DATA_SEQ"]
  show "tx_buf (spi_frame (read_cmd REG_DATA_SEQ) s) = REG_DATA_SEQ # be32_bytes (fi_sequence x)"
    using f r by simp
  have "fifo_items (spi_frame (read_cmd REG_DATA_SEQ) s)
      = fifo_items (s\<lparr>last_seq := fi_sequence x, last_val := fi_value x, item_peeked := True\<rparr>)"
    using f r by (intro regs_of_items) simp
  also have "\<dots> = fifo_items s" by (rule fifo_items_cong) simp_all
  finally show "fifo_items (spi_frame (read_cmd REG_DATA_SEQ) s) = x # xs" using assms by simp
qed

lemma read_val_frame:
  assumes "mcu_inv s" "spi_idle s" "fifo_items s = x # xs"
  shows "tx_buf (spi_frame (read_cmd REG_DATA_VAL) s) = REG_DATA_VAL # be32_bytes (fi_value x)"
    and "fifo_items (spi_frame (read_cmd REG_DATA_VAL) s) = xs"
proof -
  have inv: "inv_fifo s" using assms by (simp add: mcu_inv_def)
  note r = reg_read_val [OF inv assms(3)] and f = spi_frame_cases(1) [OF assms(2), of "read_cmd REG_DATA_VAL"]
  show "tx_buf (spi_frame (read_cmd REG_DATA_VAL) s) = REG_DATA_VAL # be32_bytes (fi_value x)"
    using f r by simp
  have "fifo_items (spi_frame (read_cmd REG_DATA_VAL) s) = fifo_items (snd (reg_read REG_DATA_VAL s))"
    using f by (intro regs_of_items) simp
  then show "fifo_items (spi_frame (read_cmd REG_DATA_VAL) s) = xs" using r by simp
qed

section \<open>A concrete run\<close>

text \<open>Power-on, START over the bus, one sample produced.\<close>

definition mcu_started :: mcu where
  "mcu_started = TIM2_IRQHandler (spi_frame [0x83, 0, 0, 0, 1] mcu_main_init)"

definition demo_irq :: "bool \<Rightarrow> u8 \<Rightarrow> spi_irq" where
  "demo_irq rx b = \<lparr>fl_OVR = False, fl_MODF = False, fl_RXNE = rx, fl_TXE = True, irq_DR = b, irq_flags_ok = True\<rparr>"

definition demo_irqs :: "spi_irq list" where
  "demo_irqs = [demo_irq False 0, demo_irq True 0x83, demo_irq False 0, demo_irq False 0, demo_irq True 0,
     demo_irq True 0, demo_irq False 0, demo_irq True 0, demo_irq False 0, demo_irq True 1]"

lemma mcu_init_idle: "spi_idle mcu_main_init"
  using mcu_init_inv by (simp add: spi_idle_def mcu_inv_def)
    (simp add: mcu_main_init_def mcu_reset_def Let_def HAL_SPI_TransmitReceive_IT_def MX_SPI2_Init_def)

lemma mcu_started_inv: "mcu_inv mcu_started" "spi_idle mcu_started"
  using frame_inv [OF mcu_init_inv mcu_init_idle] spi_frame_cases(3) [OF mcu_init_idle]
  by (simp_all add: mcu_started_def TIM2_IRQHandler_inv tick_idle)

lemma mcu_started_items: "fifo_items mcu_started = [\<lparr>fi_sequence = 0, fi_value = 0\<rparr>]"
  by code_simp

lemma mcu_reach_irqs: "mcu_reach key s \<Longrightarrow> mcu_reach key (foldl (\<lambda>s i. SPI2_IRQHandler i s) s is)"
proof (induction "is" arbitrary: s)
  case (Cons i "is")
  then show ?case using mcu_reach.step [of key s "SpiIrq i"] by simp
qed simp

lemma mcu_started_reach: "mcu_reach key mcu_started"
proof -
  have "foldl (\<lambda>s i. SPI2_IRQHandler i s) mcu_main_init demo_irqs = spi_frame [0x83, 0, 0, 0, 1] mcu_main_init"
    using spi_frame_irqs [OF mcu_init_idle, of demo_irqs] by (simp add: demo_irqs_def demo_irq_def data_irq_def)
  with mcu_reach_irqs [OF mcu_reach.init, of key demo_irqs]
  have "mcu_reach key (spi_frame [0x83, 0, 0, 0, 1] mcu_main_init)" by simp
  then show ?thesis by (rule mcu_reach.step [where e = TimUpdate]) (simp add: mcu_started_def)
qed

section \<open>Properties\<close>

text \<open>C4. A frame of five byte pairs is one protocol step: whatever the order in which the five
  receive and five transmit interrupts of an idle port are served, the bytes shifted out are
  the prepared reply and the state is the one after the frame callback, armed for the next frame.\<close>

theorem spi_frame_any_interleaving:
  assumes "spi_idle s" "list_all data_irq is" "length (rx_bytes is) = 5" "tx_count is = 5"
  shows "foldl (\<lambda>s i. SPI2_IRQHandler i s) s is = spi_frame (rx_bytes is) s
     \<and> miso (spi_frame (rx_bytes is) s) = miso s @ tx_buf s
     \<and> spi_idle (spi_frame (rx_bytes is) s)"
  using spi_frame_irqs [OF assms] spi_frame_cases(3,4) [OF assms(1,3)] by simp

theorem spi_frame_any_interleaving_witness:
  "spi_idle mcu_main_init \<and> rx_bytes demo_irqs = [0x83, 0, 0, 0, 1]
   \<and> foldl (\<lambda>s i. SPI2_IRQHandler i s) mcu_main_init demo_irqs = spi_frame [0x83, 0, 0, 0, 1] mcu_main_init"
  using spi_frame_any_interleaving [OF mcu_init_idle, of demo_irqs] mcu_init_idle
  by (simp add: demo_irqs_def demo_irq_def data_irq_def)



text \<open>C6. Reading REG\_DATA\_SEQ and then REG\_DATA\_VAL delivers the sequence number and the value of
  one and the same sample and removes exactly that sample, however many timer ticks fall between
  the two frames.\<close>

theorem sample_read_atomic:
  fixes n :: nat
  assumes "mcu_inv s" "spi_idle s" "fifo_items s = x # xs"
  defines "s1 \<equiv> spi_frame (read_cmd REG_DATA_SEQ) s"
  defines "s2 \<equiv> spi_frame (read_cmd REG_DATA_VAL) ((TIM2_IRQHandler ^^ n) s1)"
  shows "tx_buf s1 = REG_DATA_SEQ # be32_bytes (fi_sequence x)
     \<and> tx_buf s2 = REG_DATA_VAL # be32_bytes (fi_value x)
     \<and> (\<exists>ys. fifo_items s2 = xs @ ys \<and> length ys \<le> n)"
proof -
  note r1 = read_seq_frame [OF assms(1-3), folded s1_def]
  have i1: "mcu_inv s1" "spi_idle s1"
    using frame_inv [OF assms(1,2)] spi_frame_cases(3) [OF assms(2)] by (simp_all add: s1_def)
  obtain ys where ys: "fifo_items ((TIM2_IRQHandler ^^ n) s1) = x # (xs @ ys)" "length ys \<le> n"
    using ticks(5) [OF i1, of n] r1 by auto
  show ?thesis
    using r1 read_val_frame [OF ticks(1,2) [OF i1] ys(1)] ys(2) by (auto simp: s2_def)
qed

theorem sample_read_atomic_witness:
  "mcu_inv mcu_started \<and> fifo_items mcu_started = [\<lparr>fi_sequence = 0, fi_value = 0\<rparr>]
   \<and> tx_buf (spi_frame (read_cmd REG_DATA_VAL)
        ((TIM2_IRQHandler ^^ 2) (spi_frame (read_cmd REG_DATA_SEQ) mcu_started))) = [REG_DATA_VAL, 0, 0, 0, 0]"
  using sample_read_atomic [OF mcu_started_inv mcu_started_items, of 2] mcu_started_inv mcu_started_items
  by (simp add: be32_bytes_def)



text \<open>C8. The SPI slave is never left deaf. In every reachable state a transfer is armed, the lock is
  free and the failure counter of the re-arm is still zero; and whatever status flags the next
  SPI interrupt finds (overrun and mode fault included), the same holds after it.\<close>

theorem spi_never_deaf:
  assumes "mcu_reach key s"
  shows "spi_State (hspi2 s) = HAL_SPI_STATE_BUSY_TX_RX \<and> \<not> spi_Lock (hspi2 s) \<and> spi_rearm_fail s = 0
     \<and> (spi_TXEIE (hspi2 s) \<or> spi_RXNEIE (hspi2 s))
     \<and> spi_State (hspi2 (SPI2_IRQHandler i s)) = HAL_SPI_STATE_BUSY_TX_RX
     \<and> (spi_TXEIE (hspi2 (SPI2_IRQHandler i s)) \<or> spi_RXNEIE (hspi2 (SPI2_IRQHandler i s)))
     \<and> spi_rearm_fail (SPI2_IRQHandler i s) = 0"
proof -
  have "mcu_inv t \<Longrightarrow> spi_State (hspi2 t) = HAL_SPI_STATE_BUSY_TX_RX \<and> \<not> spi_Lock (hspi2 t)
    \<and> spi_rearm_fail t = 0 \<and> (spi_TXEIE (hspi2 t) \<or> spi_RXNEIE (hspi2 t))" for t
    by (auto simp: mcu_inv_def spi_armed_def port_armed_def xfer_active_def mcu_port_def)
  from this [OF mcu_reach_inv [OF assms]] this [OF SPI2_IRQHandler_inv [OF mcu_reach_inv [OF assms]]]
  show ?thesis by blast
qed

definition demo_overrun :: spi_irq where
  "demo_overrun = \<lparr>fl_OVR = True, fl_MODF = False, fl_RXNE = True, fl_TXE = False, irq_DR = 0, irq_flags_ok = False\<rparr>"

theorem spi_never_deaf_witness:
  "mcu_reach [] mcu_started
   \<and> spi_State (hspi2 (SPI2_IRQHandler demo_overrun mcu_started)) = HAL_SPI_STATE_BUSY_TX_RX"
  using spi_never_deaf [OF mcu_started_reach [of "[]"], of demo_overrun] mcu_started_reach by simp



lemma list4_cases:
  assumes "length xs = 4"
  obtains a b c d where "xs = [a, b, c, d]"
  using assms by (auto simp: numeral_eq_Suc length_Suc_conv)

lemma words_of_mac_bytes:
  assumes "length mac = 16"
  shows "concat (map be32_bytes (words_of_mac mac)) = mac"
proof -
  have "[0..<4] = [0, 1, 2, 3::nat]" by (simp add: upt_conv_Cons)
  then have "concat (map be32_bytes (words_of_mac mac)) = map ((!) mac) [0..<16]"
    by (simp add: words_of_mac_def unpack_u32_def be32_bytes_word upt_conv_Cons eval_nat_numeral)
  also have "\<dots> = mac" using assms map_nth [of mac] by simp
  finally show ?thesis .
qed

lemma reg_read_mac:
  assumes "length (auth_mac s) = 4"
  shows "map (\<lambda>i. fst (reg_read (REG_AUTH_MAC0 + i) s)) [0, 1, 2, 3] = auth_mac s"
proof -
  obtain a b c d where "auth_mac s = [a, b, c, d]" using assms by (rule list4_cases)
  then show ?thesis by (simp add: reg_read_def)
qed

text \<open>C10. Authentication. Once a MAC has been requested, the next iteration of the main loop returns
  and leaves in the four MAC registers the first sixteen bytes of HMAC-SHA256, under the key in
  flash, over the domain string, the device id, the firmware version and the nonce registers;
  BUSY is cleared and DONE set. With an erased key page the MAC is zero and NOKEY is set.\<close>

theorem auth_mac_registers:
  assumes "mcu_inv s" "auth_request s" "length (ctx_block c0) = 64"
  shows "\<exists>s'. mcu_main_loop key c0 t0 t1 s = Some s' \<and> \<not> auth_request s'
     \<and> reg_status s' AND ST_AUTH_BUSY = 0 \<and> reg_status s' AND ST_AUTH_DONE \<noteq> 0
     \<and> (if devauth_key_present key
        then concat (map (\<lambda>i. be32_bytes (fst (reg_read (REG_AUTH_MAC0 + i) s'))) [0, 1, 2, 3])
               = take 16 (hmac_spec key (map of_char ''acq-auth-v1'' @ be32_bytes 0xAC00ACC0
                   @ be32_bytes 0x00010400 @ concat (map be32_bytes (auth_nonce s))))
        else map (\<lambda>i. fst (reg_read (REG_AUTH_MAC0 + i) s')) [0, 1, 2, 3] = [0, 0, 0, 0]
             \<and> reg_status s' AND ST_AUTH_NOKEY \<noteq> 0)"
proof -
  have "length (auth_nonce s) = 4" using assms(1) by (simp add: mcu_inv_def inv_regs_def)
  note ok = devauth_service_ok [OF assms(3) this, of key t0 t1]
  then obtain s' where s': "mcu_main_loop key c0 t0 t1 s = Some s'" "devauth_service key c0 t0 t1 s = Some s'"
    using assms(2) by (simp add: mcu_main_loop_def)
  have "mcu_inv s'" by (rule devauth_service_inv [OF assms(1) s'(2)])
  then have regs: "map (\<lambda>i. fst (reg_read (REG_AUTH_MAC0 + i) s')) [0, 1, 2, 3] = auth_mac s'"
    by (intro reg_read_mac) (simp add: mcu_inv_def inv_regs_def)
  have bytes: "concat (map (\<lambda>i. be32_bytes (fst (reg_read (REG_AUTH_MAC0 + i) s'))) [0, 1, 2, 3])
      = concat (map be32_bytes (auth_mac s'))"
    unfolding regs [symmetric] by simp
  show ?thesis
  proof (rule exI [of _ s'], intro conjI)
    show "mcu_main_loop key c0 t0 t1 s = Some s'" by (rule s')
    show "\<not> auth_request s'" "reg_status s' AND ST_AUTH_BUSY = 0" "reg_status s' AND ST_AUTH_DONE \<noteq> 0"
      using ok s'(2) by (auto simp: mask_simps or_eq_0_iff split: if_splits)
  qed (use ok s'(2) regs bytes in \<open>auto simp: words_of_mac_bytes devauth_spec_def DEVICE_ID_def FW_VERSION_def
      mask_simps or_eq_0_iff split: if_splits\<close>)
qed

definition demo_ctx :: sha256_ctx where
  "demo_ctx = \<lparr>ctx_h = [], ctx_block = replicate 64 0, ctx_used = 0, ctx_total = 0\<rparr>"

definition demo_auth :: mcu where
  "demo_auth = spi_frame [0x94, 0, 0, 0, 1] mcu_main_init"

theorem auth_mac_registers_witness:
  "mcu_inv demo_auth \<and> auth_request demo_auth \<and> length (ctx_block demo_ctx) = 64
   \<and> (\<exists>s'. mcu_main_loop (replicate 32 0x11) demo_ctx 0 9 demo_auth = Some s'
        \<and> concat (map (\<lambda>i. be32_bytes (fst (reg_read (REG_AUTH_MAC0 + i) s'))) [0, 1, 2, 3])
          = take 16 (hmac_spec (replicate 32 0x11) (map of_char ''acq-auth-v1''
              @ [0xAC, 0x00, 0xAC, 0xC0, 0x00, 0x01, 0x04, 0x00] @ replicate 16 0)))"
proof -
  have inv: "mcu_inv demo_auth" using frame_inv [OF mcu_init_inv mcu_init_idle] by (simp add: demo_auth_def)
  have req: "auth_request demo_auth" "auth_nonce demo_auth = [0, 0, 0, 0]" by code_simp+
  have ctx: "length (ctx_block demo_ctx) = 64" by (simp add: demo_ctx_def)
  have "devauth_key_present (replicate 32 0x11)" by code_simp
  moreover have "be32_bytes 0xAC00ACC0 = [0xAC, 0x00, 0xAC, 0xC0]" "be32_bytes 0x00010400 = [0x00, 0x01, 0x04, 0x00]"
    by code_simp+
  moreover have "concat (map be32_bytes [0, 0, 0, 0]) = replicate 16 0" by code_simp
  ultimately show ?thesis
    using auth_mac_registers [OF inv req(1) ctx, of "replicate 32 0x11" 0 9] inv req ctx by auto
qed

end
