(* ===== verification/Link.thy ===== *)
theory Link
  imports Driver Mcu_Protocol
begin

text \<open>
  The driver on the firmware: the SPI bus of theory Driver instantiated with the register
  protocol of theory Mcu\_Protocol. The firmware keeps running while the driver talks, so the
  bus carries a schedule: how many timer ticks fall before each frame, and whether the main loop
  completes an iteration there; every theorem holds for every schedule. Rising edges of
  DATA\_READY are counted, because they are what starts the interrupt handler again.
\<close>

section \<open>The bus\<close>

record link =
  ln_mcu :: mcu
  ln_sched :: "nat list"
  ln_edges :: nat
  ln_key :: "u8 list"
  ln_loops :: "(sha256_ctx \<times> u32 \<times> u32) option list"

definition tick_link :: "link \<Rightarrow> link" where
  "tick_link l =
     (let s = TIM2_IRQHandler (ln_mcu l)
      in l\<lparr>ln_mcu := s,
           ln_edges := ln_edges l + (if \<not> data_ready (ln_mcu l) \<and> data_ready s then 1 else 0)\<rparr>)"

text \<open>An iteration of the main loop that does not return leaves the state to the interrupt handlers.\<close>

definition loop_link :: "link \<Rightarrow> link" where
  "loop_link l =
     (case ln_loops l of
        [] \<Rightarrow> l
      | None # ls \<Rightarrow> l\<lparr>ln_loops := ls\<rparr>
      | Some (c0, t0, t1) # ls \<Rightarrow>
          l\<lparr>ln_loops := ls,
            ln_mcu := (case mcu_main_loop (ln_key l) c0 t0 t1 (ln_mcu l) of Some s \<Rightarrow> s | None \<Rightarrow> ln_mcu l)\<rparr>)"

definition tick_phase :: "link \<Rightarrow> link" where
  "tick_phase l = (case ln_sched l of [] \<Rightarrow> l | n # ns \<Rightarrow> (tick_link ^^ n) (l\<lparr>ln_sched := ns\<rparr>))"

definition advance :: "link \<Rightarrow> link" where
  "advance l = loop_link (tick_phase l)"

definition mcu_bus :: "link spi_bus" where
  "mcu_bus l tx =
     (let l1 = advance l
      in (Inr (tx_buf (ln_mcu l1)), l1\<lparr>ln_mcu := spi_frame tx (ln_mcu l1)\<rparr>))"

definition link_ok :: "link \<Rightarrow> bool" where
  "link_ok l \<longleftrightarrow> mcu_inv (ln_mcu l) \<and> spi_idle (ln_mcu l)"

abbreviation (input) link_items :: "link \<Rightarrow> FifoItem list" where
  "link_items l \<equiv> fifo_items (ln_mcu l)"

text \<open>What may still come out: the samples queued and the ticks to come.\<close>

definition link_load :: "link \<Rightarrow> nat" where
  "link_load l = length (link_items l) + sum_list (ln_sched l)"

text \<open>
  \<open>evolves l l'\<close>: from \<open>l\<close> to \<open>l'\<close> only ticks have happened to the queue. New samples are at its
  end, each used up a tick of the schedule, and if an empty queue has filled, there was an edge.
\<close>

definition evolves :: "link \<Rightarrow> link \<Rightarrow> bool" where
  "evolves l l' \<longleftrightarrow>
     (\<exists>ys. link_items l' = link_items l @ ys \<and> length ys + sum_list (ln_sched l') \<le> sum_list (ln_sched l))
     \<and> ln_edges l \<le> ln_edges l'
     \<and> (link_items l = [] \<longrightarrow> link_items l' \<noteq> [] \<longrightarrow> ln_edges l < ln_edges l')"

lemma evolves_refl: "evolves l l"
  by (simp add: evolves_def)

lemma evolves_trans:
  assumes "evolves l l'" "evolves l' l''"
  shows "evolves l l''"
proof -
  obtain ys where "link_items l' = link_items l @ ys" "length ys + sum_list (ln_sched l') \<le> sum_list (ln_sched l)"
    using assms(1) by (auto simp: evolves_def)
  moreover obtain zs where "link_items l'' = link_items l' @ zs" "length zs + sum_list (ln_sched l'') \<le> sum_list (ln_sched l')"
    using assms(2) by (auto simp: evolves_def)
  ultimately have "\<exists>ys. link_items l'' = link_items l @ ys \<and> length ys + sum_list (ln_sched l'') \<le> sum_list (ln_sched l)"
    by (intro exI [of _ "ys @ zs"]) simp
  moreover have "ln_edges l \<le> ln_edges l''" using assms by (auto simp: evolves_def)
  moreover have "ln_edges l < ln_edges l''" if "link_items l = []" "link_items l'' \<noteq> []"
    using assms that by (cases "link_items l' = []") (auto simp: evolves_def)
  ultimately show ?thesis by (auto simp: evolves_def)
qed

lemma evolves_load: "evolves l l' \<Longrightarrow> link_load l' \<le> link_load l"
  by (auto simp: evolves_def link_load_def simp del: length_fifo_items)

lemma data_ready_items: "mcu_inv s \<Longrightarrow> data_ready s \<longleftrightarrow> fifo_items s \<noteq> []"
  by (simp add: mcu_inv_def inv_fifo_def)

lemma tick_link_ok: "link_ok l \<Longrightarrow> link_ok (tick_link l)"
  by (simp add: link_ok_def tick_link_def Let_def TIM2_IRQHandler_inv tick_idle)

lemma tick_link_frame:
  "ln_sched (tick_link l) = ln_sched l" "tx_buf (ln_mcu (tick_link l)) = tx_buf (ln_mcu l)"
  "item_peeked (ln_mcu (tick_link l)) = item_peeked (ln_mcu l)"
  by (simp_all add: tick_link_def Let_def)

lemma tick_link_items:
  assumes "link_ok l"
  shows "\<exists>ys. link_items (tick_link l) = link_items l @ ys \<and> length ys \<le> 1"
    and "ln_edges l \<le> ln_edges (tick_link l)"
    and "link_items l = [] \<Longrightarrow> link_items (tick_link l) \<noteq> [] \<Longrightarrow> ln_edges l < ln_edges (tick_link l)"
proof -
  have inv: "mcu_inv (ln_mcu l)" "mcu_inv (TIM2_IRQHandler (ln_mcu l))"
    using assms by (simp_all add: link_ok_def TIM2_IRQHandler_inv)
  show "\<exists>ys. link_items (tick_link l) = link_items l @ ys \<and> length ys \<le> 1"
    using inv(1) by (cases rule: tick_items) (auto simp: tick_link_def Let_def)
  show "ln_edges l \<le> ln_edges (tick_link l)" by (simp add: tick_link_def Let_def)
  show "link_items l = [] \<Longrightarrow> link_items (tick_link l) \<noteq> [] \<Longrightarrow> ln_edges l < ln_edges (tick_link l)"
    by (simp add: tick_link_def Let_def data_ready_items inv)
qed

lemma ticks_link:
  assumes "link_ok l"
  shows "link_ok ((tick_link ^^ n) l) \<and> ln_sched ((tick_link ^^ n) l) = ln_sched l
     \<and> tx_buf (ln_mcu ((tick_link ^^ n) l)) = tx_buf (ln_mcu l)
     \<and> item_peeked (ln_mcu ((tick_link ^^ n) l)) = item_peeked (ln_mcu l)
     \<and> (\<exists>ys. link_items ((tick_link ^^ n) l) = link_items l @ ys \<and> length ys \<le> n)
     \<and> ln_edges l \<le> ln_edges ((tick_link ^^ n) l)
     \<and> (link_items l = [] \<longrightarrow> link_items ((tick_link ^^ n) l) \<noteq> [] \<longrightarrow> ln_edges l < ln_edges ((tick_link ^^ n) l))"
proof (induction n)
  case (Suc n)
  let ?l = "(tick_link ^^ n) l"
  have ok: "link_ok ?l" using Suc by blast
  obtain ys where ys: "link_items ?l = link_items l @ ys" "length ys \<le> n" using Suc by blast
  obtain zs where zs: "link_items (tick_link ?l) = link_items ?l @ zs" "length zs \<le> 1"
    using tick_link_items(1) [OF ok] by blast
  have "\<exists>us. link_items (tick_link ?l) = link_items l @ us \<and> length us \<le> Suc n"
    using ys zs by (intro exI [of _ "ys @ zs"]) simp
  moreover have "link_items l = [] \<longrightarrow> link_items (tick_link ?l) \<noteq> [] \<longrightarrow> ln_edges l < ln_edges (tick_link ?l)"
    using Suc tick_link_items(2,3) [OF ok] by (cases "link_items ?l = []") auto
  ultimately show ?case
    using Suc tick_link_ok [OF ok] tick_link_items(2) [OF ok] by (auto simp: tick_link_frame)
qed (use assms in simp)

lemma tick_phase_ok:
  assumes "link_ok l"
  shows "link_ok (tick_phase l) \<and> evolves l (tick_phase l) \<and> tx_buf (ln_mcu (tick_phase l)) = tx_buf (ln_mcu l)
    \<and> item_peeked (ln_mcu (tick_phase l)) = item_peeked (ln_mcu l)"
proof (cases "ln_sched l")
  case Nil
  then show ?thesis using assms by (simp add: tick_phase_def evolves_refl)
next
  case (Cons n ns)
  have "link_ok (l\<lparr>ln_sched := ns\<rparr>)" using assms by (simp add: link_ok_def)
  from ticks_link [OF this, of n] show ?thesis by (auto simp: tick_phase_def Cons evolves_def)
qed

lemma mcu_main_loop_frame:
  assumes "mcu_main_loop key c0 t0 t1 s = Some s'"
  shows "fifo_items s' = fifo_items s" "tx_buf s' = tx_buf s" "item_peeked s' = item_peeked s"
    "hspi2 s' = hspi2 s" "rx_buf s' = rx_buf s" "miso s' = miso s" "data_ready s' = data_ready s"
  using assms
  by (auto simp: mcu_main_loop_def devauth_service_def Let_def intro!: fifo_items_cong split: if_splits bind_splits)

lemma loop_link_ok:
  assumes "link_ok l"
  shows "link_ok (loop_link l)" "link_items (loop_link l) = link_items l" "ln_edges (loop_link l) = ln_edges l"
    "ln_sched (loop_link l) = ln_sched l" "tx_buf (ln_mcu (loop_link l)) = tx_buf (ln_mcu l)"
    "item_peeked (ln_mcu (loop_link l)) = item_peeked (ln_mcu l)"
proof -
  have inv: "mcu_inv s'" if "mcu_main_loop key c0 t0 t1 (ln_mcu l) = Some s'" for key c0 t0 t1 s'
    using assms that mcu_exec_inv [of "ln_mcu l" key "MainLoop c0 t0 t1"] by (simp add: link_ok_def)
  have idle: "spi_idle s'" if "mcu_main_loop key c0 t0 t1 (ln_mcu l) = Some s'" for key c0 t0 t1 s'
    using assms mcu_main_loop_frame [OF that] by (simp add: link_ok_def spi_idle_def spi_armed_def mcu_port_def)
  show "link_ok (loop_link l)" "link_items (loop_link l) = link_items l" "ln_edges (loop_link l) = ln_edges l"
    "ln_sched (loop_link l) = ln_sched l" "tx_buf (ln_mcu (loop_link l)) = tx_buf (ln_mcu l)"
    "item_peeked (ln_mcu (loop_link l)) = item_peeked (ln_mcu l)"
    using assms inv idle mcu_main_loop_frame
    by (auto simp: loop_link_def link_ok_def split: list.split option.split)
qed

lemma advance_ok:
  assumes "link_ok l"
  shows "link_ok (advance l)" "evolves l (advance l)" "tx_buf (ln_mcu (advance l)) = tx_buf (ln_mcu l)"
    "item_peeked (ln_mcu (advance l)) = item_peeked (ln_mcu l)"
proof -
  have t: "link_ok (tick_phase l)" using tick_phase_ok [OF assms] by blast
  show "link_ok (advance l)" "evolves l (advance l)" "tx_buf (ln_mcu (advance l)) = tx_buf (ln_mcu l)"
    "item_peeked (ln_mcu (advance l)) = item_peeked (ln_mcu l)"
    using tick_phase_ok [OF assms] loop_link_ok [OF t] by (simp_all add: advance_def evolves_def)
qed

section \<open>A register read\<close>

text \<open>
  The four points of a register read on the link: before the first frame, after it, before the
  second (NOP) frame, after it.
\<close>

definition link_cmd :: "u8 list \<Rightarrow> link \<Rightarrow> link" where
  "link_cmd tx l = l\<lparr>ln_mcu := spi_frame tx (ln_mcu l)\<rparr>"

definition link_op :: "u8 list \<Rightarrow> link \<Rightarrow> link" where
  "link_op tx l = link_cmd (read_cmd CMD_NOP) (advance (link_cmd tx (advance l)))"

lemma link_cmd_ok:
  assumes "link_ok l" "length tx = 5"
  shows "link_ok (link_cmd tx l)"
  using assms frame_inv spi_frame_cases(3) by (simp add: link_ok_def link_cmd_def)

lemma xfer_cmd: "custom_acq_xfer X b cmd 0 = X b (read_cmd cmd)"
  by (simp add: custom_acq_xfer_def)

text \<open>
  Injected errors: \<open>faulty prm c\<close> says that the register read after \<open>c\<close> earlier ones fails, and
  \<open>bump\<close> is the count after it. An injected error happens before anything is sent.
\<close>

definition faulty :: "module_params \<Rightarrow> u32 \<Rightarrow> bool" where
  "faulty prm c \<longleftrightarrow> fault_spi_error_every prm \<noteq> 0 \<and> (c + 1) mod fault_spi_error_every prm = 0"

definition bump :: "module_params \<Rightarrow> u32 \<Rightarrow> u32" where
  "bump prm c = (if fault_spi_error_every prm = 0 then c else c + 1)"

definition set_bus :: "link \<Rightarrow> u32 \<Rightarrow> (link, 'k) custom_acq \<Rightarrow> (link, 'k) custom_acq" where
  "set_bus l c priv = priv\<lparr>acq_spi := l, fault_reg_reads := c\<rparr>"

lemma set_bus_simps [simp]:
  "acq_spi (set_bus l c priv) = l" "fault_reg_reads (set_bus l c priv) = c"
  "irq_ts_ns (set_bus l c priv) = irq_ts_ns priv" "set_bus l c (set_bus l' c' priv) = set_bus l c priv"
  "samples (set_bus l c priv) = samples priv" "kfifo_overflow (set_bus l c priv) = kfifo_overflow priv"
  "policy_dropped (set_bus l c priv) = policy_dropped priv" "wakeups (set_bus l c priv) = wakeups priv"
  "downsample_counter (set_bus l c priv) = downsample_counter priv"
  "set_bus (acq_spi priv) (fault_reg_reads priv) priv = priv"
  by (simp_all add: set_bus_def)

lemma reg_read_link_fault:
  assumes ok: "link_ok (acq_spi priv)" and addr: "addr < 0x80"
  shows "custom_acq_reg_read mcu_bus prm addr priv =
     (if faulty prm (fault_reg_reads priv)
      then (Inl EIO, set_bus (acq_spi priv) (fault_reg_reads priv + 1) priv)
      else (Inr (fst (reg_read addr (ln_mcu (advance (acq_spi priv))))),
            set_bus (link_op (read_cmd addr) (acq_spi priv)) (bump prm (fault_reg_reads priv)) priv))"
proof -
  let ?l1 = "advance (acq_spi priv)"
  let ?l2 = "link_cmd (read_cmd addr) ?l1"
  have ok1: "link_ok ?l1" by (rule advance_ok(1) [OF ok])
  have ok2: "link_ok ?l2" using ok1 by (rule link_cmd_ok) simp
  have cmd: "addr AND 0x80 = 0" "addr AND 0x7F = addr" using addr by (auto simp: word_less_0x80)
  have "tx_buf (ln_mcu (advance ?l2)) = tx_buf (ln_mcu ?l2)" by (rule advance_ok(3) [OF ok2])
  also have "\<dots> = addr # be32_bytes (fst (reg_read addr (ln_mcu ?l1)))"
    using ok1 spi_frame_cases(1) [of "ln_mcu ?l1" "read_cmd addr"] cmd by (simp add: link_ok_def link_cmd_def)
  finally have tx: "tx_buf (ln_mcu (advance ?l2)) = addr # be32_bytes (fst (reg_read addr (ln_mcu ?l1)))" .
  have b1: "custom_acq_xfer mcu_bus (acq_spi priv) addr 0 = (Inr (tx_buf (ln_mcu ?l1)), ?l2)"
    by (simp add: xfer_cmd mcu_bus_def Let_def link_cmd_def)
  have b2: "custom_acq_xfer mcu_bus ?l2 CMD_NOP 0 = (Inr (tx_buf (ln_mcu (advance ?l2))), link_op (read_cmd addr) (acq_spi priv))"
    by (simp add: xfer_cmd mcu_bus_def Let_def link_cmd_def link_op_def)
  show ?thesis
    unfolding custom_acq_reg_read_def fault_spi_error_def faulty_def bump_def set_bus_def Let_def
    by (simp add: b1 b2 tx be32_bytes_def)
qed

lemma reg_read_link:
  assumes "link_ok (acq_spi priv)" "addr < 0x80" "fault_spi_error_every prm = 0"
  shows "custom_acq_reg_read mcu_bus prm addr priv =
     (Inr (fst (reg_read addr (ln_mcu (advance (acq_spi priv))))),
      priv\<lparr>acq_spi := link_op (read_cmd addr) (acq_spi priv)\<rparr>)"
  using reg_read_link_fault [OF assms(1,2), of prm] assms(3) by (simp add: faulty_def bump_def set_bus_def)

lemma evolves_cmd: "link_items (link_cmd tx l) = link_items l \<Longrightarrow> evolves l (link_cmd tx l)"
  by (simp add: evolves_def link_cmd_def)

text \<open>No register but REG\_DATA\_VAL takes anything out of the queue.\<close>

lemma reg_read_items:
  assumes "fifo_inv s" "addr \<noteq> REG_DATA_VAL"
  shows "fifo_items (snd (reg_read addr s)) = fifo_items s"
proof -
  have "fifo_items (s\<lparr>last_seq := a, last_val := b, item_peeked := True\<rparr>) = fifo_items s"
    "fifo_items (s\<lparr>reg_status := r\<rparr>) = fifo_items s" for a b r
    by (rule fifo_items_cong; simp)+
  then show ?thesis using assms(2) by (simp add: reg_read_def split: option.split)
qed

lemma read_frame_items:
  assumes "mcu_inv s" "spi_idle s" "addr < 0x80" "addr \<noteq> REG_DATA_VAL"
  shows "fifo_items (spi_frame (read_cmd addr) s) = fifo_items s"
proof -
  have cmd: "addr AND 0x80 = 0" "addr AND 0x7F = addr" using assms(3) by (auto simp: word_less_0x80)
  have "fifo_items (spi_frame (read_cmd addr) s) = fifo_items (snd (reg_read addr s))"
    using spi_frame_cases(1) [OF assms(2), of "read_cmd addr"] cmd by (intro regs_of_items) simp
  then show ?thesis using assms reg_read_items [of s addr] by (simp add: mcu_inv_def inv_fifo_def)
qed

lemma link_cmd_items:
  "link_ok l \<Longrightarrow> addr < 0x80 \<Longrightarrow> addr \<noteq> REG_DATA_VAL \<Longrightarrow> link_items (link_cmd (read_cmd addr) l) = link_items l"
  by (simp add: link_cmd_def link_ok_def read_frame_items)

lemma link_op_ok:
  assumes "link_ok l" "addr < 0x80"
  shows "link_ok (link_op (read_cmd addr) l)"
  using assms by (simp add: link_op_def link_cmd_ok advance_ok(1))

lemma link_op_evolves:
  assumes "link_ok l" "addr < 0x80" "addr \<noteq> REG_DATA_VAL"
  shows "evolves (advance l) (link_op (read_cmd addr) l)"
proof -
  let ?l1 = "advance l" and ?l2 = "link_cmd (read_cmd addr) (advance l)"
  have ok1: "link_ok ?l1" and ok2: "link_ok ?l2" and ok3: "link_ok (advance ?l2)"
    using assms by (simp_all add: link_cmd_ok advance_ok(1))
  have "evolves ?l1 ?l2" using link_cmd_items [OF ok1 assms(2,3)] by (rule evolves_cmd)
  moreover have "evolves ?l2 (advance ?l2)" by (rule advance_ok(2) [OF ok2])
  moreover have "evolves (advance ?l2) (link_op (read_cmd addr) l)"
    unfolding link_op_def using link_cmd_items [OF ok3] by (intro evolves_cmd) simp
  ultimately show ?thesis by (blast intro: evolves_trans)
qed

lemma link_op_val:
  assumes "link_ok l" "link_items (advance l) = x # xs"
  shows "fst (reg_read REG_DATA_VAL (ln_mcu (advance l))) = fi_value x"
    and "\<exists>ys. link_items (link_op (read_cmd REG_DATA_VAL) l) = xs @ ys
       \<and> length ys + sum_list (ln_sched (link_op (read_cmd REG_DATA_VAL) l)) \<le> sum_list (ln_sched (advance l))"
    and "ln_edges (advance l) \<le> ln_edges (link_op (read_cmd REG_DATA_VAL) l)"
proof -
  let ?l1 = "advance l" and ?l2 = "link_cmd (read_cmd REG_DATA_VAL) (advance l)"
  have ok1: "link_ok ?l1" and ok2: "link_ok ?l2" and ok3: "link_ok (advance ?l2)"
    using assms by (simp_all add: link_cmd_ok advance_ok(1))
  show "fst (reg_read REG_DATA_VAL (ln_mcu (advance l))) = fi_value x"
    using ok1 assms(2) reg_read_val(1) by (simp add: link_ok_def mcu_inv_def)
  have i2: "link_items ?l2 = xs"
    using ok1 assms(2) read_val_frame(2) [of "ln_mcu ?l1" x xs] by (simp add: link_ok_def link_cmd_def)
  have "evolves ?l2 (link_op (read_cmd REG_DATA_VAL) l)"
    unfolding link_op_def using advance_ok(2) [OF ok2] link_cmd_items [OF ok3]
    by (intro evolves_trans [OF advance_ok(2) [OF ok2]] evolves_cmd) simp
  moreover have "ln_sched ?l2 = ln_sched ?l1" "ln_edges ?l2 = ln_edges ?l1" by (simp_all add: link_cmd_def)
  ultimately show "\<exists>ys. link_items (link_op (read_cmd REG_DATA_VAL) l) = xs @ ys
       \<and> length ys + sum_list (ln_sched (link_op (read_cmd REG_DATA_VAL) l)) \<le> sum_list (ln_sched (advance l))"
    "ln_edges (advance l) \<le> ln_edges (link_op (read_cmd REG_DATA_VAL) l)"
    using i2 by (auto simp: evolves_def)
qed

section \<open>A drain pass\<close>

text \<open>The level register is the length of the queue.\<close>

lemma ucast_u16_eq_0: "(ucast (w :: u16) :: u32) = 0 \<longleftrightarrow> w = 0"
proof
  assume z: "(ucast w :: u32) = 0"
  show "w = 0"
  proof (rule bit_word_eqI)
    fix n
    assume "n < LENGTH(16)"
    then have "bit w n = bit (ucast w :: u32) n" by (simp add: bit_ucast_iff)
    then show "bit w n = bit (0 :: u16) n" by (simp add: z)
  qed
qed simp

lemma level_zero:
  assumes "mcu_inv s"
  shows "fst (reg_read REG_FIFO_LEVEL s) = 0 \<longleftrightarrow> fifo_items s = []"
proof -
  have "fst (reg_read REG_FIFO_LEVEL s) = ucast (fifo_level s)" by (simp add: reg_read_def)
  also have "\<dots> = 0 \<longleftrightarrow> unat (fifo_level s) = 0" by (simp add: ucast_u16_eq_0 unat_eq_zero)
  also have "\<dots> \<longleftrightarrow> fifo_items s = []" by (metis length_0_conv length_fifo_items)
  finally show ?thesis .
qed

text \<open>The sample the driver makes of an item of the board's queue.\<close>

definition stamp_item :: "s64 \<Rightarrow> FifoItem \<Rightarrow> custom_acq_sample" where
  "stamp_item ts x = \<lparr>sm_seq = fi_sequence x, sm_value = fi_value x, sm_irq_ts_ns = ts\<rparr>"

text \<open>
  One iteration on the link. Either the level was zero when it was read, and the pass ends; or
  the oldest item is taken off the board's queue and disposed of; or one of the three reads met an
  injected error, before the item was taken.
\<close>

lemma drain_step_link:
  fixes d :: "(link, 'k) drain_pass"
  assumes ok: "link_ok (acq_spi (dp_priv d))"
  defines "l \<equiv> acq_spi (dp_priv d)" and "c \<equiv> fault_reg_reads (dp_priv d)"
  obtains (empty) l' c' where
      "drain_step mcu_bus k prm d = (Break_loop, d\<lparr>dp_priv := set_bus l' c' (dp_priv d), dp_ret := None\<rparr>)"
      "link_ok l'" "link_items l = []" "link_items l' \<noteq> [] \<Longrightarrow> ln_edges l < ln_edges l'"
  | (item) l' c' x ys nx priv' where
      "link_items l @ ys = x # link_items l'" "link_ok l'" "link_load l' < link_load l" "ln_edges l \<le> ln_edges l'"
      "dispose_sample k prm (stamp_item (irq_ts_ns (dp_priv d)) x) (set_bus l' c' (dp_priv d)) = (nx, priv')"
      "drain_step mcu_bus k prm d =
         (nx, d\<lparr>dp_errors := 0, dp_ret := None, dp_drained := dp_drained d + 1, dp_priv := priv'\<rparr>)"
  | (fault) l' c' where
      "drain_step mcu_bus k prm d = drain_error EIO (d\<lparr>dp_priv := set_bus l' c' (dp_priv d)\<rparr>)"
      "link_ok l'" "evolves l l'" "fault_spi_error_every prm \<noteq> 0" "c' mod fault_spi_error_every prm = 0"
      "c' \<in> {c + 1, c + 2, c + 3}"
proof -
  have ok: "link_ok l" using ok by (simp add: l_def)
  let ?p = "dp_priv d" and ?b = "bump prm"
  define l1 where "l1 = link_op (read_cmd REG_FIFO_LEVEL) l"
  have bump: "?b x = x + 1" if "fault_spi_error_every prm \<noteq> 0" for x using that by (simp add: bump_def)
  have r1: "custom_acq_reg_read mcu_bus prm 0x05 ?p =
      (if faulty prm c then (Inl EIO, set_bus l (c + 1) ?p)
       else (Inr (fst (reg_read REG_FIFO_LEVEL (ln_mcu (advance l)))), set_bus l1 (?b c) ?p))"
    using reg_read_link_fault [of ?p "0x05" prm] ok by (simp add: l_def l1_def c_def)
  have okA: "link_ok (advance l)" and evA: "evolves l (advance l)" using advance_ok [OF ok] by blast+
  have ev1: "evolves (advance l) l1" and ok1: "link_ok l1"
    using link_op_evolves [OF ok] link_op_ok [OF ok] by (simp_all add: l1_def)
  consider (f1) "faulty prm c" | (e) "\<not> faulty prm c" "link_items (advance l) = []"
    | (n) "\<not> faulty prm c" "link_items (advance l) \<noteq> []" by blast
  then show thesis
  proof cases
    case f1
    then show thesis using r1 ok by (intro fault [of l "c + 1"]) (simp_all add: drain_step_def faulty_def evolves_refl)
  next
    case e
    then have "fst (reg_read REG_FIFO_LEVEL (ln_mcu (advance l))) = 0"
      using level_zero okA by (simp add: link_ok_def)
    moreover have "link_items l = []" using evA e by (auto simp: evolves_def)
    moreover have "link_items l1 \<noteq> [] \<Longrightarrow> ln_edges l < ln_edges l1"
      using ev1 evA e by (auto simp: evolves_def)
    ultimately show thesis using ok1 r1 e by (intro empty [of l1 "?b c"]) (simp_all add: drain_step_def)
  next
    case n
    then have nz: "fst (reg_read REG_FIFO_LEVEL (ln_mcu (advance l))) \<noteq> 0"
      using level_zero okA by (simp add: link_ok_def)
    have r1': "custom_acq_reg_read mcu_bus prm 0x05 ?p =
      (Inr (fst (reg_read REG_FIFO_LEVEL (ln_mcu (advance l)))), set_bus l1 (?b c) ?p)" using r1 n by simp
    define l2 where "l2 = link_op (read_cmd REG_DATA_SEQ) l1"
    define l3 where "l3 = link_op (read_cmd REG_DATA_VAL) l2"
    have okB: "link_ok (advance l1)" and evB: "evolves l1 (advance l1)" using advance_ok [OF ok1] by blast+
    have ev2: "evolves (advance l1) l2" and ok2: "link_ok l2"
      using link_op_evolves [OF ok1] link_op_ok [OF ok1] by (simp_all add: l2_def)
    have okC: "link_ok (advance l2)" and evC: "evolves l2 (advance l2)" using advance_ok [OF ok2] by blast+
    have e1: "evolves (advance l) (advance l1)" and e2: "evolves (advance l1) (advance l2)"
      using ev1 evB ev2 evC by (blast intro: evolves_trans)+
    have el1: "evolves l l1" and el2: "evolves l l2" using evA ev1 evB ev2 by (blast intro: evolves_trans)+
    obtain x xs where x: "link_items (advance l) = x # xs" using n by (cases "link_items (advance l)") auto
    then obtain ws where ws: "link_items (advance l1) = x # ws" using e1 by (auto simp: evolves_def)
    then obtain zs where zs: "link_items (advance l2) = x # zs" using e2 by (auto simp: evolves_def)
    have r2: "custom_acq_reg_read mcu_bus prm 0x06 (set_bus l1 (?b c) ?p) =
        (if faulty prm (?b c) then (Inl EIO, set_bus l1 (?b c + 1) ?p)
         else (Inr (fi_sequence x), set_bus l2 (?b (?b c)) ?p))"
      using reg_read_link_fault [of "set_bus l1 (?b c) ?p" "0x06" prm] ok1 okB ws reg_read_seq
      by (simp add: l2_def link_ok_def mcu_inv_def inv_fifo_def)
    have r3: "custom_acq_reg_read mcu_bus prm 0x07 (set_bus l2 (?b (?b c)) ?p) =
        (if faulty prm (?b (?b c)) then (Inl EIO, set_bus l2 (?b (?b c) + 1) ?p)
         else (Inr (fi_value x), set_bus l3 (?b (?b (?b c))) ?p))"
      using reg_read_link_fault [of "set_bus l2 (?b (?b c)) ?p" "0x07" prm] ok2 link_op_val(1) [OF ok2 zs]
      by (simp add: l3_def)
    consider (f2) "faulty prm (?b c)" | (f3) "\<not> faulty prm (?b c)" "faulty prm (?b (?b c))"
      | (s) "\<not> faulty prm (?b c)" "\<not> faulty prm (?b (?b c))" by blast
    then show thesis
    proof cases
      case f2
      then have N: "fault_spi_error_every prm \<noteq> 0" "(?b c + 1) mod fault_spi_error_every prm = 0"
        by (simp_all add: faulty_def)
      have "drain_step mcu_bus k prm d = drain_error EIO (d\<lparr>dp_priv := set_bus l1 (?b c + 1) ?p\<rparr>)"
        using r1' r2 f2 nz by (simp add: drain_step_def custom_acq_read_sample_def)
      then show thesis using N ok1 el1 by (intro fault [of l1 "?b c + 1"]) (simp_all add: bump add.assoc)
    next
      case f3
      then have N: "fault_spi_error_every prm \<noteq> 0" "(?b (?b c) + 1) mod fault_spi_error_every prm = 0"
        by (simp_all add: faulty_def)
      have "drain_step mcu_bus k prm d = drain_error EIO (d\<lparr>dp_priv := set_bus l2 (?b (?b c) + 1) ?p\<rparr>)"
        using r1' r2 r3 f3 nz by (simp add: drain_step_def custom_acq_read_sample_def)
      then show thesis using N ok2 el2 by (intro fault [of l2 "?b (?b c) + 1"]) (simp_all add: bump add.assoc)
    next
      case s
      let ?c' = "?b (?b (?b c))"
      have e3: "evolves l (advance l2)" using evA e1 e2 by (blast intro: evolves_trans)
      obtain us where us: "link_items l3 = zs @ us"
        "length us + sum_list (ln_sched l3) \<le> sum_list (ln_sched (advance l2))"
        using link_op_val(2) [OF ok2 zs] by (auto simp: l3_def)
      obtain ys where ys: "link_items (advance l2) = link_items l @ ys" using e3 by (auto simp: evolves_def)
      have "link_load l3 < link_load (advance l2)"
        using us zs by (simp add: link_load_def del: length_fifo_items)
      then have "link_load l3 < link_load l" using evolves_load [OF e3] by simp
      moreover have "ln_edges l \<le> ln_edges l3"
        using e3 link_op_val(3) [OF ok2 zs] by (simp add: evolves_def l3_def)
      moreover have "link_items l @ ys @ us = x # link_items l3" using ys zs us by simp
      moreover have "link_ok l3" using link_op_ok [OF ok2] by (simp add: l3_def)
      moreover obtain nx priv' where "dispose_sample k prm (stamp_item (irq_ts_ns ?p) x) (set_bus l3 ?c' ?p) = (nx, priv')"
        by fastforce
      moreover from this have "drain_step mcu_bus k prm d =
           (nx, d\<lparr>dp_errors := 0, dp_ret := None, dp_drained := dp_drained d + 1, dp_priv := priv'\<rparr>)"
        using r1' r2 r3 nz s by (simp add: drain_step_def custom_acq_read_sample_def stamp_item_def)
      ultimately show thesis by (intro item [of "ys @ us" x l3 ?c' nx priv'])
    qed
  qed
qed

lemma evict_oldest_bus: "evict_oldest k prm (set_bus l c priv) = set_bus l c (evict_oldest k prm priv)"
  by (simp add: evict_oldest_def set_bus_def split: option.split)

lemma queue_sample_bus: "queue_sample k prm s (set_bus l c priv) = set_bus l c (queue_sample k prm s priv)"
  by (simp add: queue_sample_def Let_def evict_oldest_bus case_prod_beta) (simp add: set_bus_def)

lemma dispose_sample_bus:
  "dispose_sample k prm s (set_bus l c priv)
   = (fst (dispose_sample k prm s priv), set_bus l c (snd (dispose_sample k prm s priv)))"
proof -
  have c: "(set_bus l c priv)\<lparr>downsample_counter := i\<rparr> = set_bus l c (priv\<lparr>downsample_counter := i\<rparr>)"
    "(set_bus l c priv)\<lparr>policy_dropped := j\<rparr> = set_bus l c (priv\<lparr>policy_dropped := j\<rparr>)" for i j priv
    by (simp_all add: set_bus_def)
  show ?thesis unfolding dispose_sample_def Let_def by (simp add: queue_sample_bus c)
qed

lemma dispose_sample_again: "downsample_n prm \<noteq> 0 \<Longrightarrow> fst (dispose_sample k prm s priv) = Again"
  by (simp add: dispose_sample_def Let_def)

lemma dispose_all_bus:
  "downsample_n prm \<noteq> 0 \<Longrightarrow>
   dispose_all k prm ss (set_bus l c priv) = (Again, set_bus l c (snd (dispose_all k prm ss priv)))"
proof (induction ss arbitrary: priv)
  case (Cons s ss)
  show ?case
    using Cons dispose_sample_again [of prm k s priv]
    by (cases "dispose_sample k prm s priv") (simp add: dispose_sample_bus)
qed simp

text \<open>
  At most two errors meet in a row when at least three reads succeed between two injected
  errors. The second one can only come from the counter wrapping to zero.
\<close>

definition retry_ok :: "module_params \<Rightarrow> u32 \<Rightarrow> u32 \<Rightarrow> bool" where
  "retry_ok prm errors c \<longleftrightarrow>
     errors = 0 \<or> errors = 1 \<and> c mod fault_spi_error_every prm = 0 \<or> errors = 2 \<and> c = 0"

lemma retry_step:
  assumes "retry_ok prm errors c" "4 \<le> fault_spi_error_every prm"
    "c' mod fault_spi_error_every prm = 0" "c' \<in> {c + 1, c + 2, c + 3}"
  shows "errors < 2" "retry_ok prm (errors + 1) c'"
proof -
  let ?N = "fault_spi_error_every prm"
  obtain i :: nat where i: "1 \<le> i" "i \<le> 3" "c' = c + of_nat i"
    using assms(4) by (auto intro: that [of 1] that [of 2] that [of 3])
  have N: "4 \<le> unat ?N" using assms(2) by (simp add: word_le_nat_alt)
  have small: "(of_nat j :: u32) mod ?N \<noteq> 0" if "1 \<le> j" "j \<le> 3" for j
  proof -
    have "unat (of_nat j :: u32) = j" using that by (simp add: unat_of_nat)
    then have "unat ((of_nat j :: u32) mod ?N) = j" using that N by (simp add: unat_mod)
    then show ?thesis using that by (metis not_one_le_zero unat_0)
  qed
  have wrap: "c' = 0" if "c mod ?N = 0"
  proof (cases "unat c + i < 2 ^ 32")
    case True
    have "unat c' = unat c + i" using True i by (simp add: unat_word_ariths unat_of_nat)
    moreover have "unat c mod unat ?N = 0" using that by (metis unat_0 unat_mod)
    moreover have "unat c' mod unat ?N = 0" using assms(3) by (metis unat_0 unat_mod)
    ultimately have "i mod unat ?N = 0" by (metis add_cancel_left_left mod_add_left_eq)
    then show ?thesis using i N by simp
  next
    case False
    define j where "j = unat c + i - 2 ^ 32"
    have "unat c < 2 ^ 32" using unsigned_less [of c] by simp
    then have j: "j \<le> 3" using i by (simp add: j_def)
    have "(of_nat (unat c + i) :: u32) = of_nat (j + 2 ^ 32)" using False by (simp add: j_def)
    then have "c' = of_nat j" using i by simp
    then show ?thesis using small [of j] j assms(3) by (cases "j = 0") auto
  qed
  have two: "errors \<noteq> 2"
  proof
    assume "errors = 2"
    then have "c = 0" using assms(1) by (simp add: retry_ok_def)
    then show False using small [of i] i assms(3) by simp
  qed
  show "errors < 2" using two assms(1) by (auto simp: retry_ok_def)
  show "retry_ok prm (errors + 1) c'" proof (cases "errors = 0")
    case True
    then show ?thesis using assms(3) by (simp add: retry_ok_def)
  next
    case False
    then have "errors = 1" "c mod ?N = 0" using two assms(1) by (auto simp: retry_ok_def)
    then show ?thesis using wrap by (simp add: retry_ok_def)
  qed
qed

lemma drain_loop_link:
  fixes d :: "(link, 'k) drain_pass"
  assumes "link_ok (acq_spi (dp_priv d))" "retry_ok prm (dp_errors d) (fault_reg_reads (dp_priv d))"
    and N: "fault_spi_error_every prm = 0 \<or> 4 \<le> fault_spi_error_every prm" and n: "downsample_n prm \<noteq> 0"
  shows "\<exists>l' c' ds zs d'. drain_loop mcu_bus k prm d = Some (Break_loop, d')
     \<and> link_ok l' \<and> ds @ link_items l' = link_items (acq_spi (dp_priv d)) @ zs
     \<and> (link_items l' \<noteq> [] \<longrightarrow> ln_edges (acq_spi (dp_priv d)) < ln_edges l')
     \<and> dp_drained d' = dp_drained d + of_nat (length ds) \<and> dp_ret d' = None
     \<and> dp_priv d' = set_bus l' c' (snd (dispose_all k prm (map (stamp_item (irq_ts_ns (dp_priv d))) ds) (dp_priv d)))"
  using assms(1,2)
proof (induction "4 * link_load (acq_spi (dp_priv d)) + (3 - unat (dp_errors d))" arbitrary: d rule: less_induct)
  case less
  let ?l = "acq_spi (dp_priv d)" and ?ts = "irq_ts_ns (dp_priv d)" and ?c = "fault_reg_reads (dp_priv d)"
  from less.prems(1) show ?case
  proof (cases rule: drain_step_link [where k = k and prm = prm])
    case (empty l' c')
    then show ?thesis
      by (intro exI [of _ l'] exI [of _ c'] exI [of _ "[]"] exI [of _ "link_items l'"]
          exI [of _ "d\<lparr>dp_priv := set_bus l' c' (dp_priv d), dp_ret := None\<rparr>"])
        (simp add: drain_loop.simps [of mcu_bus k prm d])
  next
    case (item l' c' x ys nx priv')
    let ?d = "d\<lparr>dp_errors := 0, dp_ret := None, dp_drained := dp_drained d + 1, dp_priv := priv'\<rparr>"
    let ?q = "dispose_sample k prm (stamp_item ?ts x) (dp_priv d)"
    have nx: "nx = Again" and priv': "priv' = set_bus l' c' (snd ?q)"
      using item(5) dispose_sample_again [OF n] by (auto simp: dispose_sample_bus)
    have l': "acq_spi (dp_priv ?d) = l'" and ts: "irq_ts_ns priv' = ?ts"
      using dispose_sample_other(1,2) [OF item(5)] by simp_all
    have "\<exists>m c'' es zs d'. drain_loop mcu_bus k prm ?d = Some (Break_loop, d')
      \<and> link_ok m \<and> es @ link_items m = link_items l' @ zs \<and> (link_items m \<noteq> [] \<longrightarrow> ln_edges l' < ln_edges m)
      \<and> dp_drained d' = dp_drained ?d + of_nat (length es) \<and> dp_ret d' = None
      \<and> dp_priv d' = set_bus m c'' (snd (dispose_all k prm (map (stamp_item ?ts) es) priv'))"
      using less.hyps [of ?d] item(2,3) l' ts by (simp add: retry_ok_def)
    then obtain m c'' es zs d' where IH: "drain_loop mcu_bus k prm ?d = Some (Break_loop, d')" "link_ok m"
      "es @ link_items m = link_items l' @ zs" "link_items m \<noteq> [] \<longrightarrow> ln_edges l' < ln_edges m"
      "dp_drained d' = dp_drained ?d + of_nat (length es)" "dp_ret d' = None"
      "dp_priv d' = set_bus m c'' (snd (dispose_all k prm (map (stamp_item ?ts) es) priv'))"
      by blast
    have "drain_loop mcu_bus k prm d = Some (Break_loop, d')"
      using IH(1) item(6) nx by (simp add: drain_loop.simps [of mcu_bus k prm d])
    moreover have "(x # es) @ link_items m = link_items ?l @ (ys @ zs)" using IH(3) item(1) by simp
    moreover have "link_items m \<noteq> [] \<longrightarrow> ln_edges ?l < ln_edges m" using IH(4) item(4) by auto
    moreover have "dp_priv d' = set_bus m c'' (snd (dispose_all k prm (map (stamp_item ?ts) (x # es)) (dp_priv d)))"
      using IH(7) priv' dispose_sample_again [OF n, of k "stamp_item ?ts x" "dp_priv d"]
      by (cases ?q) (simp add: dispose_all_bus [OF n])
    ultimately show ?thesis using IH(2,5,6)
      by (intro exI [of _ m] exI [of _ c''] exI [of _ "x # es"] exI [of _ "ys @ zs"] exI [of _ d']) simp
  next
    case (fault l' c')
    have N4: "4 \<le> fault_spi_error_every prm" using N fault(4) by simp
    note r = retry_step [OF less.prems(2) N4 fault(5,6)]
    let ?d = "d\<lparr>dp_priv := set_bus l' c' (dp_priv d), dp_errors := dp_errors d + 1, dp_ret := Some EIO\<rparr>"
    have e: "unat (dp_errors d + 1) = unat (dp_errors d) + 1" "unat (dp_errors d) < 2"
      using r(1) by (auto simp: word_less_nat_alt unat_word_ariths)
    then have "dp_errors d + 1 < 3" by (simp add: word_less_nat_alt)
    then have st: "drain_step mcu_bus k prm d = (Again, ?d)" using fault(1) by (simp add: drain_error_def Let_def)
    have "link_load l' \<le> link_load ?l" using fault(3) by (rule evolves_load)
    then have "\<exists>m c'' ds zs d'. drain_loop mcu_bus k prm ?d = Some (Break_loop, d')
      \<and> link_ok m \<and> ds @ link_items m = link_items l' @ zs \<and> (link_items m \<noteq> [] \<longrightarrow> ln_edges l' < ln_edges m)
      \<and> dp_drained d' = dp_drained d + of_nat (length ds) \<and> dp_ret d' = None
      \<and> dp_priv d' = set_bus m c'' (snd (dispose_all k prm (map (stamp_item ?ts) ds) (set_bus l' c' (dp_priv d))))"
      using less.hyps [of ?d] e fault(2) r(2) by simp
    then obtain m c'' ds zs d' where IH: "drain_loop mcu_bus k prm ?d = Some (Break_loop, d')" "link_ok m"
      "ds @ link_items m = link_items l' @ zs" "link_items m \<noteq> [] \<longrightarrow> ln_edges l' < ln_edges m"
      "dp_drained d' = dp_drained d + of_nat (length ds)" "dp_ret d' = None"
      "dp_priv d' = set_bus m c'' (snd (dispose_all k prm (map (stamp_item ?ts) ds) (set_bus l' c' (dp_priv d))))"
      by blast
    obtain us where "link_items l' = link_items ?l @ us" "ln_edges ?l \<le> ln_edges l'"
      using fault(3) by (auto simp: evolves_def)
    moreover have "drain_loop mcu_bus k prm d = Some (Break_loop, d')"
      using IH(1) st by (simp add: drain_loop.simps [of mcu_bus k prm d])
    ultimately show ?thesis using IH(2-7)
      by (intro exI [of _ m] exI [of _ c''] exI [of _ ds] exI [of _ "us @ zs"] exI [of _ d'])
        (auto simp: dispose_all_bus [OF n])
  qed
qed

section \<open>A register write\<close>

abbreviation (input) write_cmd :: "u8 \<Rightarrow> u32 \<Rightarrow> u8 list" where
  "write_cmd a v \<equiv> (a OR 0x80) # be32_bytes v"

lemma write_addr:
  fixes a :: u8
  assumes "a < 0x80"
  shows "(a OR 0x80) AND 0x80 \<noteq> 0" "(a OR 0x80) AND 0x7F = a"
  using word_less_0x80 [OF assms] by (simp_all add: mask_simps)

lemma xfer_write: "custom_acq_xfer X b cmd v = X b (cmd # be32_bytes v)"
proof -
  have m: "0xFF = (mask 8 :: u32)" by (simp add: mask_eq_exp_minus_1)
  have "ucast (x AND 0xFF) = (ucast x :: u8)" for x :: u32
    unfolding m by (rule bit_word_eqI) (simp add: bit_ucast_iff bit_and_iff bit_mask_iff)
  then show ?thesis by (simp add: custom_acq_xfer_def be32_bytes_def)
qed

lemma write_frame:
  assumes "spi_idle s" "a < 0x80"
  shows "regs_of (spi_frame (write_cmd a v) s) = regs_of (reg_write a v s)"
    "tx_buf (spi_frame (write_cmd a v) s) = [a OR 0x80, 0, 0, 0, 0]"
  using spi_frame_cases(2) [OF assms(1), of "write_cmd a v"] write_addr [OF assms(2)]
  by (simp_all add: unpack_u32_def be32_bytes_def)

lemma reg_write_link:
  assumes ok: "link_ok (acq_spi priv)" and a: "a < 0x80"
  shows "custom_acq_reg_write mcu_bus a v priv = (Inr (), priv\<lparr>acq_spi := link_op (write_cmd a v) (acq_spi priv)\<rparr>)"
proof -
  let ?l1 = "advance (acq_spi priv)"
  let ?l2 = "link_cmd (write_cmd a v) ?l1"
  have ok1: "link_ok ?l1" by (rule advance_ok(1) [OF ok])
  have ok2: "link_ok ?l2" using ok1 by (rule link_cmd_ok) simp
  have "tx_buf (ln_mcu (advance ?l2)) = [a OR 0x80, 0, 0, 0, 0]"
    using advance_ok(3) [OF ok2] ok1 write_frame(2) [OF _ a] by (simp add: link_ok_def link_cmd_def)
  then show ?thesis
    by (simp add: custom_acq_reg_write_def Let_def xfer_write mcu_bus_def link_cmd_def link_op_def be32_bytes_0)
qed

section \<open>The authentication registers on the link\<close>

text \<open>The part of the register file that the authentication exchange depends on.\<close>

definition auth_view :: "mcu \<Rightarrow> u32 list \<times> u32 list \<times> bool \<times> u32" where
  "auth_view s = (auth_nonce s, auth_mac s, auth_request s, reg_status s AND 0x60)"

lemma auth_view_regs: "regs_of s = regs_of s' \<Longrightarrow> auth_view s = auth_view s'"
  by (auto simp: regs_of_eq auth_view_def plumb_def)

lemma auth_view_tick: "auth_view (TIM2_IRQHandler s) = auth_view s"
  by (simp add: auth_view_def TIM2_IRQHandler_def HAL_TIM_PeriodElapsedCallback_def Let_def)

lemma auth_view_read: "auth_view (snd (reg_read a s)) = auth_view s"
  using reg_read_status [of a s] by (auto simp: auth_view_def mask_simps)

lemma auth_view_read_cmd:
  assumes "link_ok l" "a < 0x80"
  shows "auth_view (ln_mcu (link_cmd (read_cmd a) l)) = auth_view (ln_mcu l)"
proof -
  have "regs_of (spi_frame (read_cmd a) (ln_mcu l)) = regs_of (snd (reg_read a (ln_mcu l)))"
    using assms spi_frame_cases(1) [of "ln_mcu l" "read_cmd a"] word_less_0x80 [OF assms(2)] by (simp add: link_ok_def)
  from auth_view_regs [OF this] show ?thesis by (simp add: auth_view_read link_cmd_def)
qed

lemma auth_view_tick_phase: "auth_view (ln_mcu (tick_phase l)) = auth_view (ln_mcu l)"
proof -
  have "auth_view (ln_mcu ((tick_link ^^ n) l)) = auth_view (ln_mcu l)" for n l
    by (induction n) (simp_all add: tick_link_def Let_def auth_view_tick)
  then show ?thesis by (simp add: tick_phase_def split: list.split)
qed

definition auth_pending :: "u32 list \<Rightarrow> mcu \<Rightarrow> bool" where
  "auth_pending ws s \<longleftrightarrow> auth_nonce s = ws \<and> auth_request s \<and> reg_status s AND 0x60 = 0"

definition auth_served :: "u8 list \<Rightarrow> u32 list \<Rightarrow> mcu \<Rightarrow> bool" where
  "auth_served key ws s \<longleftrightarrow>
     auth_nonce s = ws \<and> \<not> auth_request s
     \<and> (if devauth_key_present key
        then reg_status s AND 0x60 = 0x20
             \<and> auth_mac s = words_of_mac (devauth_spec key DEVICE_ID FW_VERSION (concat (map be32_bytes ws)))
        else reg_status s AND 0x60 = 0x60)"

definition auth_phase :: "u8 list \<Rightarrow> u32 list \<Rightarrow> link \<Rightarrow> bool" where
  "auth_phase key ws l \<longleftrightarrow>
     link_ok l \<and> ln_key l = key \<and> (\<forall>c0 t0 t1. Some (c0, t0, t1) \<in> set (ln_loops l) \<longrightarrow> length (ctx_block c0) = 64)
     \<and> (auth_pending ws (ln_mcu l) \<or> auth_served key ws (ln_mcu l))"

lemma auth_view_pending: "auth_view s = auth_view s' \<Longrightarrow> auth_pending ws s = auth_pending ws s'"
  "auth_view s = auth_view s' \<Longrightarrow> auth_served key ws s = auth_served key ws s'"
  by (simp_all add: auth_view_def auth_pending_def auth_served_def)

lemma service_serves:
  assumes "mcu_inv s" "auth_pending ws s" "length (ctx_block c0) = 64"
  obtains s' where "mcu_main_loop key c0 t0 t1 s = Some s'" "auth_served key ws s'"
proof -
  have "length (auth_nonce s) = 4" using assms(1) by (simp add: mcu_inv_def inv_regs_def)
  note ok = devauth_service_ok [OF assms(3) this, of key t0 t1]
  show thesis
  proof (rule that)
    show "mcu_main_loop key c0 t0 t1 s = Some (the (devauth_service key c0 t0 t1 s))"
      using assms(2) ok by (simp add: mcu_main_loop_def auth_pending_def)
    show "auth_served key ws (the (devauth_service key c0 t0 t1 s))"
      using assms(2) ok by (simp add: auth_served_def auth_pending_def mask_simps)
  qed
qed

lemma loop_idle: "\<not> auth_request s \<Longrightarrow> mcu_main_loop key c0 t0 t1 s = Some s"
  by (simp add: mcu_main_loop_def)

lemma auth_phase_tick:
  assumes "auth_phase key ws l"
  shows "auth_phase key ws (tick_phase l)" "ln_loops (tick_phase l) = ln_loops l"
    "auth_served key ws (ln_mcu (tick_phase l)) = auth_served key ws (ln_mcu l)"
proof -
  have fr: "ln_loops ((tick_link ^^ n) l) = ln_loops l \<and> ln_key ((tick_link ^^ n) l) = ln_key l" for n l
    by (induction n) (simp_all add: tick_link_def Let_def)
  have fr': "ln_loops (tick_phase l) = ln_loops l" "ln_key (tick_phase l) = ln_key l"
    using fr by (simp_all add: tick_phase_def split: list.split)
  note v = auth_view_pending [OF auth_view_tick_phase [of l]]
  show "ln_loops (tick_phase l) = ln_loops l" by (rule fr')
  show "auth_served key ws (ln_mcu (tick_phase l)) = auth_served key ws (ln_mcu l)" by (rule v)
  show "auth_phase key ws (tick_phase l)"
    using assms tick_phase_ok [of l] by (simp add: auth_phase_def fr' v)
qed

lemma auth_phase_loop:
  assumes "auth_phase key ws l"
  shows "auth_phase key ws (loop_link l)"
    and "auth_served key ws (ln_mcu l) \<Longrightarrow> auth_served key ws (ln_mcu (loop_link l))"
    and "ln_loops l = Some e # ls \<Longrightarrow> auth_served key ws (ln_mcu (loop_link l))"
proof -
  have ok: "link_ok l" and key: "ln_key l = key" using assms by (simp_all add: auth_phase_def)
  have ok': "link_ok (loop_link l)" by (rule loop_link_ok(1) [OF ok])
  have key': "ln_key (loop_link l) = key"
    using key by (simp add: loop_link_def split: list.split option.split)
  have sub: "set (ln_loops (loop_link l)) \<subseteq> set (ln_loops l)"
    by (auto simp: loop_link_def split: list.split option.split)
  have served: "auth_served key ws (ln_mcu (loop_link l))" if "auth_served key ws (ln_mcu l)"
    using that key loop_idle [of "ln_mcu l"]
    by (simp add: loop_link_def auth_served_def split: list.split option.split)
  have run: "auth_served key ws (ln_mcu (loop_link l))" if e: "ln_loops l = Some e # ls" for e ls
  proof -
    obtain c0 t0 t1 where ct: "e = (c0, t0, t1)" by (cases e) auto
    have c0: "length (ctx_block c0) = 64" using assms e ct by (auto simp: auth_phase_def)
    show ?thesis
    proof (cases "auth_served key ws (ln_mcu l)")
      case False
      then have "auth_pending ws (ln_mcu l)" using assms by (simp add: auth_phase_def)
      with ok c0 obtain s' where "mcu_main_loop key c0 t0 t1 (ln_mcu l) = Some s'" "auth_served key ws s'"
        using service_serves by (metis link_ok_def)
      then show ?thesis using e ct key by (simp add: loop_link_def)
    qed (rule served)
  qed
  show "auth_served key ws (ln_mcu l) \<Longrightarrow> auth_served key ws (ln_mcu (loop_link l))" by (rule served)
  show "ln_loops l = Some e # ls \<Longrightarrow> auth_served key ws (ln_mcu (loop_link l))" by (rule run)
  have "ln_mcu (loop_link l) = ln_mcu l" if "\<And>e ls. ln_loops l \<noteq> Some e # ls"
    using that by (simp add: loop_link_def split: list.split option.split)
  then have "auth_pending ws (ln_mcu (loop_link l)) \<or> auth_served key ws (ln_mcu (loop_link l))"
    using assms run by (metis auth_phase_def)
  then show "auth_phase key ws (loop_link l)" using assms ok' key' sub by (auto simp: auth_phase_def)
qed

lemma auth_phase_advance:
  assumes "auth_phase key ws l"
  shows "auth_phase key ws (advance l)"
    and "auth_served key ws (ln_mcu l) \<Longrightarrow> auth_served key ws (ln_mcu (advance l))"
    and "ln_loops l = Some e # ls \<Longrightarrow> auth_served key ws (ln_mcu (advance l))"
  using auth_phase_loop [OF auth_phase_tick(1) [OF assms]] auth_phase_tick(2,3) [OF assms]
  by (simp_all add: advance_def)

lemma auth_phase_cmd:
  assumes "auth_phase key ws l" "a < 0x80"
  shows "auth_phase key ws (link_cmd (read_cmd a) l)"
    and "auth_served key ws (ln_mcu (link_cmd (read_cmd a) l)) = auth_served key ws (ln_mcu l)"
proof -
  have ok: "link_ok l" using assms by (simp add: auth_phase_def)
  note v = auth_view_pending [OF auth_view_read_cmd [OF ok assms(2)]]
  show "auth_served key ws (ln_mcu (link_cmd (read_cmd a) l)) = auth_served key ws (ln_mcu l)" by (rule v)
  have "link_ok (link_cmd (read_cmd a) l)" using ok by (rule link_cmd_ok) simp
  then show "auth_phase key ws (link_cmd (read_cmd a) l)"
    using assms v by (simp add: auth_phase_def) (simp add: link_cmd_def)
qed

lemma auth_phase_op:
  assumes "auth_phase key ws l" "a < 0x80"
  shows "auth_phase key ws (link_op (read_cmd a) l)"
    and "auth_served key ws (ln_mcu (advance l)) \<Longrightarrow> auth_served key ws (ln_mcu (link_op (read_cmd a) l))"
proof -
  note p1 = auth_phase_advance(1) [OF assms(1)]
  note p2 = auth_phase_cmd [OF p1 assms(2)]
  note p3 = auth_phase_advance [OF p2(1)]
  have "CMD_NOP < (0x80 :: u8)" by simp
  note p4 = auth_phase_cmd [OF p3(1) this]
  show "auth_phase key ws (link_op (read_cmd a) l)" using p4(1) by (simp add: link_op_def)
  show "auth_served key ws (ln_mcu (advance l)) \<Longrightarrow> auth_served key ws (ln_mcu (link_op (read_cmd a) l))"
    using p2(2) p3(2) p4(2) by (simp add: link_op_def)
qed

text \<open>Each frame takes one entry off the list of main loop iterations.\<close>

lemma ln_loops_advance: "ln_loops (advance l) = tl (ln_loops l)"
proof -
  have fr: "ln_loops ((tick_link ^^ n) l) = ln_loops l" for n l
    by (induction n) (simp_all add: tick_link_def Let_def)
  have "ln_loops (tick_phase l) = ln_loops l" using fr by (simp add: tick_phase_def split: list.split)
  moreover have "ln_loops (loop_link l) = tl (ln_loops l)" for l
    by (simp add: loop_link_def split: list.split option.split)
  ultimately show ?thesis by (simp add: advance_def)
qed

lemma ln_loops_op: "ln_loops (link_op tx l) = drop 2 (ln_loops l)"
  by (simp add: link_op_def link_cmd_def ln_loops_advance drop_Suc eval_nat_numeral)

text \<open>\<open>runs_within n ls\<close>: one of the next \<open>n\<close> frames is preceded by a complete main loop iteration.\<close>

fun runs_within :: "nat \<Rightarrow> 'a option list \<Rightarrow> bool" where
  "runs_within 0 ls = False"
| "runs_within (Suc n) [] = False"
| "runs_within (Suc n) (x # ls) = (x \<noteq> None \<or> runs_within n ls)"

lemma runs_within_tl: "runs_within (Suc n) ls \<Longrightarrow> hd ls = None \<Longrightarrow> runs_within n (tl ls)"
  by (cases ls) auto

lemma runs_within_hd: "runs_within n ls \<Longrightarrow> hd ls \<noteq> None \<Longrightarrow> \<exists>e ls'. ls = Some e # ls'"
  by (cases ls; cases n) auto

lemma auth_poll_link:
  assumes "auth_phase key ws (acq_spi priv)" "fault_spi_error_every prm = 0" "st AND 0x20 = 0"
  shows "\<exists>st' l'. auth_poll mcu_bus prm n st priv = (Inr st', priv\<lparr>acq_spi := l'\<rparr>) \<and> auth_phase key ws l'
     \<and> (st' AND 0x20 \<noteq> 0 \<longrightarrow> auth_served key ws (ln_mcu l') \<and> (st' AND 0x40 = 0 \<longleftrightarrow> devauth_key_present key))
     \<and> (0 < n \<longrightarrow> auth_served key ws (ln_mcu (acq_spi priv)) \<or> runs_within (2 * n - 1) (ln_loops (acq_spi priv))
          \<longrightarrow> st' AND 0x20 \<noteq> 0)"
  using assms(1,3)
proof (induction n arbitrary: st priv)
  case 0
  then show ?case by (intro exI [of _ st] exI [of _ "acq_spi priv"]) simp
next
  case (Suc n)
  let ?l = "acq_spi priv" and ?l' = "link_op (read_cmd REG_STATUS) (acq_spi priv)"
  let ?l2 = "link_cmd (read_cmd REG_STATUS) (advance ?l)"
  let ?st = "reg_status (ln_mcu (advance ?l))"
  have ok: "link_ok ?l" using Suc.prems by (simp add: auth_phase_def)
  have r: "custom_acq_reg_read mcu_bus prm 0x02 priv = (Inr ?st, priv\<lparr>acq_spi := ?l'\<rparr>)"
    using reg_read_link [OF ok, of "0x02" prm] assms(2) by (simp add: reg_read_def)
  have p: "auth_phase key ws ?l'" "auth_served key ws (ln_mcu (advance ?l)) \<Longrightarrow> auth_served key ws (ln_mcu ?l')"
    using auth_phase_op [OF Suc.prems(1), of REG_STATUS] by simp_all
  have bits: "?st AND 0x20 = (?st AND 0x60) AND 0x20" "?st AND 0x40 = (?st AND 0x60) AND 0x40"
    by (simp_all add: mask_simps)
  have pA: "auth_phase key ws (advance ?l)" by (rule auth_phase_advance(1) [OF Suc.prems(1)])
  then have ph: "auth_pending ws (ln_mcu (advance ?l)) \<or> auth_served key ws (ln_mcu (advance ?l))"
    by (simp add: auth_phase_def)
  show ?case
  proof (cases "auth_served key ws (ln_mcu (advance ?l))")
    case True
    then have st: "?st AND 0x20 \<noteq> 0" "?st AND 0x40 = 0 \<longleftrightarrow> devauth_key_present key"
      unfolding bits by (auto simp: auth_served_def split: if_splits)
    then show ?thesis using r p True by (intro exI [of _ ?st] exI [of _ ?l']) simp
  next
    case False
    then have st: "?st AND 0x20 = 0" using ph unfolding bits by (simp add: auth_pending_def)
    have served: "\<not> auth_served key ws (ln_mcu ?l)" using False auth_phase_advance(2) [OF Suc.prems(1)] by blast
    have next_poll: "0 < n \<and> (auth_served key ws (ln_mcu ?l') \<or> runs_within (2 * n - 1) (ln_loops ?l'))"
      if run: "runs_within (2 * Suc n - 1) (ln_loops ?l)"
    proof -
      have h1: "hd (ln_loops ?l) = None"
        using runs_within_hd [OF run] False auth_phase_advance(3) [OF Suc.prems(1)] by blast
      have run': "runs_within (Suc (2 * n)) (ln_loops ?l)" using run by simp
      note r1 = runs_within_tl [OF run' h1]
      have n: "0 < n" using r1 by (cases n) auto
      have r1': "runs_within (Suc (2 * n - 1)) (ln_loops ?l2)"
        using r1 n by (simp add: link_cmd_def ln_loops_advance)
      have p2: "auth_phase key ws ?l2" using auth_phase_cmd(1) [OF pA, of REG_STATUS] by simp
      show ?thesis
      proof (cases "hd (ln_loops ?l2) = None")
        case True
        then show ?thesis
          using runs_within_tl [OF r1' True] n by (simp add: link_op_def link_cmd_def ln_loops_advance)
      next
        case False
        then have "auth_served key ws (ln_mcu (advance ?l2))"
          using runs_within_hd [OF r1' False] auth_phase_advance(3) [OF p2] by blast
        then show ?thesis
          using n auth_phase_cmd(2) [OF auth_phase_advance(1) [OF p2], of CMD_NOP] by (simp add: link_op_def)
      qed
    qed
    then show ?thesis
      using r False st served Suc.IH [of "priv\<lparr>acq_spi := ?l'\<rparr>" ?st] p(1) by auto
  qed
qed

lemma mac_addr:
  assumes "i < 4"
  shows "(0x15 + of_nat i :: u8) < 0x80" "fst (reg_read (0x15 + of_nat i) s) = auth_mac s ! i"
proof -
  have i: "i = 0 \<or> i = 1 \<or> i = 2 \<or> i = 3" using assms by linarith
  then show "(0x15 + of_nat i :: u8) < 0x80" by (elim disjE) simp_all
  have "fst (reg_read 0x15 s) = auth_mac s ! 0" "fst (reg_read 0x16 s) = auth_mac s ! 1"
    "fst (reg_read 0x17 s) = auth_mac s ! 2" "fst (reg_read 0x18 s) = auth_mac s ! 3"
    by (simp_all add: reg_read_def)
  then show "fst (reg_read (0x15 + of_nat i) s) = auth_mac s ! i" using i by (elim disjE) simp_all
qed

lemma auth_read_mac_link:
  assumes "auth_phase key ws (acq_spi priv)" "fault_spi_error_every prm = 0"
    "auth_served key ws (ln_mcu (acq_spi priv))" "devauth_key_present key" "\<forall>i \<in> set is. i < 4"
  defines "mac \<equiv> words_of_mac (devauth_spec key DEVICE_ID FW_VERSION (concat (map be32_bytes ws)))"
  shows "\<exists>l'. auth_read_mac mcu_bus prm is priv
     = (Inr (concat (map (\<lambda>i. be32_bytes (mac ! i)) is)), priv\<lparr>acq_spi := l'\<rparr>)"
  using assms(1,3,5)
proof (induction "is" arbitrary: priv)
  case Nil
  then show ?case by (intro exI [of _ "acq_spi priv"]) simp
next
  case (Cons i "is")
  let ?l = "acq_spi priv" and ?a = "0x15 + of_nat i :: u8"
  let ?p = "priv\<lparr>acq_spi := link_op (read_cmd ?a) ?l\<rparr>"
  have ok: "link_ok ?l" using Cons.prems by (simp add: auth_phase_def)
  have i: "i < 4" using Cons.prems by simp
  have sv: "auth_served key ws (ln_mcu (advance ?l))" by (rule auth_phase_advance(2) [OF Cons.prems(1,2)])
  then have "auth_mac (ln_mcu (advance ?l)) = mac" using assms(4) by (simp add: auth_served_def mac_def)
  then have r: "custom_acq_reg_read mcu_bus prm ?a priv = (Inr (mac ! i), ?p)"
    using reg_read_link [OF ok mac_addr(1) [OF i] assms(2)] mac_addr(2) [OF i] by simp
  note p = auth_phase_op [OF Cons.prems(1) mac_addr(1) [OF i]]
  have "\<exists>l'. auth_read_mac mcu_bus prm is ?p = (Inr (concat (map (\<lambda>i. be32_bytes (mac ! i)) is)), ?p\<lparr>acq_spi := l'\<rparr>)"
    by (rule Cons.IH) (use p(1) p(2) [OF sv] Cons.prems(3) in simp_all)
  then obtain l' where "auth_read_mac mcu_bus prm is ?p
      = (Inr (concat (map (\<lambda>i. be32_bytes (mac ! i)) is)), priv\<lparr>acq_spi := l'\<rparr>)" by fastforce
  then show ?case using r by (intro exI [of _ l']) simp
qed

section \<open>Registers that only a write changes\<close>

text \<open>
  The contract of a field of the register file that neither a tick nor the main loop nor a read
  command touches; inside it, that the field stays put while the link runs, and what a register
  write of the driver leaves in it.
\<close>

locale stable_register =
  fixes field :: "mcu \<Rightarrow> 'a"
  assumes field_tick: "field (TIM2_IRQHandler s) = field s"
    and field_loop: "mcu_main_loop key c0 t0 t1 s = Some s' \<Longrightarrow> field s' = field s"
    and field_read: "field (snd (reg_read a s)) = field s"
    and field_regs: "regs_of s = regs_of s' \<Longrightarrow> field s = field s'"
begin

lemma field_advance: "field (ln_mcu (advance l)) = field (ln_mcu l)"
proof -
  have "field (ln_mcu ((tick_link ^^ n) l)) = field (ln_mcu l)" for n l
    by (induction n) (simp_all add: tick_link_def Let_def field_tick)
  then have "field (ln_mcu (tick_phase l)) = field (ln_mcu l)" by (simp add: tick_phase_def split: list.split)
  moreover have "field (ln_mcu (loop_link l)) = field (ln_mcu l)" for l
    by (simp add: loop_link_def field_loop split: list.split option.split)
  ultimately show ?thesis by (simp add: advance_def)
qed

lemma field_read_cmd:
  assumes "link_ok l" "a < 0x80"
  shows "field (ln_mcu (link_cmd (read_cmd a) l)) = field (ln_mcu l)"
proof -
  have "regs_of (spi_frame (read_cmd a) (ln_mcu l)) = regs_of (snd (reg_read a (ln_mcu l)))"
    using assms spi_frame_cases(1) [of "ln_mcu l" "read_cmd a"] word_less_0x80 [OF assms(2)] by (simp add: link_ok_def)
  from field_regs [OF this] show ?thesis by (simp add: field_read link_cmd_def)
qed

lemma field_write_op:
  assumes "link_ok l" "a < 0x80"
  shows "field (ln_mcu (link_op (write_cmd a v) l)) = field (reg_write a v (ln_mcu (advance l)))"
proof -
  let ?l2 = "link_cmd (write_cmd a v) (advance l)"
  have ok: "link_ok (advance l)" by (rule advance_ok(1) [OF assms(1)])
  then have ok2: "link_ok ?l2" by (rule link_cmd_ok) simp
  have "field (ln_mcu (link_op (write_cmd a v) l)) = field (ln_mcu ?l2)"
    using field_read_cmd [OF advance_ok(1) [OF ok2], of CMD_NOP] by (simp add: link_op_def field_advance)
  also have "\<dots> = field (reg_write a v (ln_mcu (advance l)))"
    using field_regs [OF write_frame(1) [OF _ assms(2)]] ok by (simp add: link_ok_def link_cmd_def)
  finally show ?thesis .
qed

end

lemma reg_read_stable:
  "auth_nonce (snd (reg_read a s)) = auth_nonce s" "reg_sample_rate (snd (reg_read a s)) = reg_sample_rate s"
  by (simp_all add: reg_read_def split: option.split)

lemma main_loop_stable:
  assumes "mcu_main_loop key c0 t0 t1 s = Some s'"
  shows "auth_nonce s' = auth_nonce s" "reg_sample_rate s' = reg_sample_rate s"
  using assms by (auto simp: mcu_main_loop_def devauth_service_def Let_def split: if_splits bind_splits)

interpretation nonce_reg: stable_register auth_nonce
proof unfold_locales
  show "regs_of s = regs_of s' \<Longrightarrow> auth_nonce s = auth_nonce s'" for s s' by (auto simp: regs_of_eq plumb_def)
qed (simp_all add: TIM2_IRQHandler_def HAL_TIM_PeriodElapsedCallback_def Let_def reg_read_stable main_loop_stable)

interpretation rate_reg: stable_register reg_sample_rate
proof unfold_locales
  show "regs_of s = regs_of s' \<Longrightarrow> reg_sample_rate s = reg_sample_rate s'" for s s' by (auto simp: regs_of_eq plumb_def)
qed (simp_all add: TIM2_IRQHandler_def HAL_TIM_PeriodElapsedCallback_def Let_def reg_read_stable main_loop_stable)

lemma link_op_write_ok:
  assumes "link_ok l" shows "link_ok (link_op (write_cmd a v) l)"
  using assms by (simp add: link_op_def link_cmd_ok advance_ok(1))

section \<open>The challenge on the link\<close>

definition auth_env :: "u8 list \<Rightarrow> link \<Rightarrow> bool" where
  "auth_env key l \<longleftrightarrow>
     link_ok l \<and> ln_key l = key
     \<and> (\<forall>c0 t0 t1. Some (c0, t0, t1) \<in> set (ln_loops l) \<longrightarrow> length (ctx_block c0) = 64)"

lemma auth_phase_env: "auth_phase key ws l \<longleftrightarrow> auth_env key l \<and> (auth_pending ws (ln_mcu l) \<or> auth_served key ws (ln_mcu l))"
  by (auto simp: auth_phase_def auth_env_def)

lemma ln_key_advance: "ln_key (advance l) = ln_key l"
proof -
  have "ln_key ((tick_link ^^ n) l) = ln_key l" for n l by (induction n) (simp_all add: tick_link_def Let_def)
  then show ?thesis by (simp add: advance_def tick_phase_def loop_link_def split: list.split option.split)
qed

lemma auth_env_advance:
  assumes "auth_env key l" shows "auth_env key (advance l)"
proof -
  have "link_ok (advance l)" using assms by (simp add: auth_env_def advance_ok(1))
  moreover have "length (ctx_block c0) = 64" if "Some (c0, t0, t1) \<in> set (tl (ln_loops l))" for c0 t0 t1
  proof -
    have "Some (c0, t0, t1) \<in> set (ln_loops l)" using that by (cases "ln_loops l") simp_all
    then show ?thesis using assms unfolding auth_env_def by blast
  qed
  ultimately show ?thesis using assms by (simp add: auth_env_def ln_key_advance ln_loops_advance)
qed

lemma auth_env_cmd: "auth_env key l \<Longrightarrow> length tx = 5 \<Longrightarrow> auth_env key (link_cmd tx l)"
  using link_cmd_ok [of l tx] by (simp add: auth_env_def) (simp add: link_cmd_def)

lemma auth_env_op: "auth_env key l \<Longrightarrow> length tx = 5 \<Longrightarrow> auth_env key (link_op tx l)"
  by (simp add: link_op_def auth_env_advance auth_env_cmd)

lemma nonce_addr:
  assumes "i < 4"
  shows "(0x10 + of_nat i :: u8) < 0x80"
    "auth_nonce (reg_write (0x10 + of_nat i) v s) = (auth_nonce s)[i := v]"
proof -
  have i: "i = 0 \<or> i = 1 \<or> i = 2 \<or> i = 3" using assms by linarith
  then show "(0x10 + of_nat i :: u8) < 0x80" by (elim disjE) simp_all
  show "auth_nonce (reg_write (0x10 + of_nat i) v s) = (auth_nonce s)[i := v]"
    using i by (elim disjE) (simp_all add: reg_write_def)
qed

definition nonce_word :: "u8 list \<Rightarrow> nat \<Rightarrow> u32" where
  "nonce_word nonce i =
     be32_word (nonce ! (4 * i)) (nonce ! (4 * i + 1)) (nonce ! (4 * i + 2)) (nonce ! (4 * i + 3))"

lemma auth_write_nonce_link:
  assumes "auth_env key (acq_spi priv)" "\<forall>i \<in> set is. i < 4"
  shows "\<exists>l'. auth_write_nonce mcu_bus nonce is priv = (Inr (), priv\<lparr>acq_spi := l'\<rparr>) \<and> auth_env key l'
     \<and> auth_nonce (ln_mcu l') = foldl (\<lambda>ws i. ws[i := nonce_word nonce i]) (auth_nonce (ln_mcu (acq_spi priv))) is
     \<and> ln_loops l' = drop (2 * length is) (ln_loops (acq_spi priv))"
  using assms
proof (induction "is" arbitrary: priv)
  case Nil
  then show ?case by (intro exI [of _ "acq_spi priv"]) simp
next
  case (Cons i "is")
  let ?a = "0x10 + of_nat i :: u8" and ?l = "acq_spi priv"
  let ?l' = "link_op (write_cmd ?a (nonce_word nonce i)) ?l"
  have i: "i < 4" and ok: "link_ok ?l" using Cons.prems by (simp_all add: auth_env_def)
  have w: "custom_acq_reg_write mcu_bus ?a (nonce_word nonce i) priv = (Inr (), priv\<lparr>acq_spi := ?l'\<rparr>)"
    by (rule reg_write_link [OF ok nonce_addr(1) [OF i]])
  have nn: "auth_nonce (ln_mcu ?l') = (auth_nonce (ln_mcu ?l))[i := nonce_word nonce i]"
    unfolding nonce_reg.field_write_op [OF ok nonce_addr(1) [OF i]] nonce_addr(2) [OF i]
    by (simp add: nonce_reg.field_advance)
  have env: "auth_env key ?l'" using Cons.prems by (intro auth_env_op) simp_all
  let ?p = "priv\<lparr>acq_spi := ?l'\<rparr>"
  have i': "\<forall>i \<in> set is. i < 4" and env': "auth_env key (acq_spi ?p)" using env Cons.prems by simp_all
  obtain l'' where IH: "auth_write_nonce mcu_bus nonce is ?p = (Inr (), ?p\<lparr>acq_spi := l''\<rparr>)" "auth_env key l''"
     "auth_nonce (ln_mcu l'') = foldl (\<lambda>ws i. ws[i := nonce_word nonce i]) (auth_nonce (ln_mcu (acq_spi ?p))) is"
     "ln_loops l'' = drop (2 * length is) (ln_loops (acq_spi ?p))"
    using Cons.IH [OF env' i'] by blast
  have "auth_write_nonce mcu_bus nonce (i # is) priv = (Inr (), priv\<lparr>acq_spi := l''\<rparr>)"
    unfolding auth_write_nonce.simps nonce_word_def [symmetric] w using IH(1) by simp
  moreover have "auth_nonce (ln_mcu l'') = foldl (\<lambda>ws i. ws[i := nonce_word nonce i]) (auth_nonce (ln_mcu ?l)) (i # is)"
    using IH(3) nn by simp
  moreover have "ln_loops l'' = drop (2 * length (i # is)) (ln_loops ?l)"
    using IH(4) by (simp add: ln_loops_op add.commute)
  ultimately show ?case using IH(2) by blast
qed

lemma nonce_words_bytes:
  assumes "length nonce = 16"
  shows "concat (map be32_bytes (map (nonce_word nonce) [0..<4])) = nonce"
  using words_of_mac_bytes [OF assms] unfolding words_of_mac_def unpack_u32_def nonce_word_def
  by (simp add: comp_def)

lemma auth_challenge_link:
  fixes priv :: "(link, 'k) custom_acq"
  assumes env: "auth_env key (acq_spi priv)" and buf: "32 \<le> length buf" "k_hex2bin k buf 16 = Some nonce" "length nonce = 16"
  defines "ws \<equiv> map (nonce_word nonce) [0..<4]"
  shows "\<exists>l'. auth_challenge_store mcu_bus k buf priv = (Inr (length buf), priv\<lparr>acq_spi := l'\<rparr>) \<and> auth_phase key ws l'
     \<and> (runs_within 200 (drop 9 (ln_loops (acq_spi priv))) \<longrightarrow>
          auth_served key ws (ln_mcu l') \<or> runs_within 199 (ln_loops l'))"
proof -
  let ?l = "acq_spi priv"
  obtain l1 where l1: "auth_write_nonce mcu_bus nonce [0..<4] priv = (Inr (), priv\<lparr>acq_spi := l1\<rparr>)" "auth_env key l1"
    "auth_nonce (ln_mcu l1) = foldl (\<lambda>ws i. ws[i := nonce_word nonce i]) (auth_nonce (ln_mcu ?l)) [0..<4]"
    "ln_loops l1 = drop 8 (ln_loops ?l)"
    using auth_write_nonce_link [OF env, of "[0..<4]" nonce] by auto
  have "length (auth_nonce (ln_mcu ?l)) = 4"
    using env by (simp add: auth_env_def link_ok_def mcu_inv_def inv_regs_def)
  then obtain a b c d where "auth_nonce (ln_mcu ?l) = [a, b, c, d]" by (rule list4_cases)
  then have nn: "auth_nonce (ln_mcu l1) = ws" using l1(3) by (simp add: ws_def upt_conv_Cons)
  let ?A = "advance l1" and ?C = "link_cmd (write_cmd 0x14 1) (advance l1)"
  have ok1: "link_ok l1" using l1(2) by (simp add: auth_env_def)
  have okA: "link_ok ?A" by (rule advance_ok(1) [OF ok1])
  have "regs_of (ln_mcu ?C) = regs_of (reg_write 0x14 1 (ln_mcu ?A))"
    using write_frame(1) [of "ln_mcu ?A" "0x14" 1] okA by (simp add: link_ok_def link_cmd_def)
  from auth_view_regs [OF this] have "auth_pending ws (ln_mcu ?C) = auth_pending ws (reg_write 0x14 1 (ln_mcu ?A))"
    by (rule auth_view_pending(1))
  moreover have "auth_pending ws (reg_write 0x14 1 (ln_mcu ?A))"
    using nn nonce_reg.field_advance [of l1] by (simp add: auth_pending_def reg_write_def mask_simps)
  moreover have "auth_env key ?C" using l1(2) by (simp add: auth_env_cmd auth_env_advance)
  ultimately have C: "auth_phase key ws ?C" by (simp add: auth_phase_env)
  let ?D = "advance ?C"
  let ?E = "link_op (write_cmd 0x14 1) l1"
  have D: "auth_phase key ws ?D" by (rule auth_phase_advance(1) [OF C])
  have E: "auth_phase key ws ?E" "auth_served key ws (ln_mcu ?E) = auth_served key ws (ln_mcu ?D)"
    using auth_phase_cmd [OF D, of CMD_NOP] by (simp_all add: link_op_def)
  have dr: "ln_loops ?C = drop 9 (ln_loops ?l)"
    using drop_Suc [of 8 "ln_loops ?l"] by (simp add: link_cmd_def ln_loops_advance l1(4) tl_drop)
  have run: "auth_served key ws (ln_mcu ?E) \<or> runs_within 199 (ln_loops ?E)"
    if r: "runs_within 200 (drop 9 (ln_loops ?l))"
  proof (cases "hd (ln_loops ?C) = None")
    case True
    have "runs_within (Suc 199) (ln_loops ?C)" using r dr by simp
    from runs_within_tl [OF this True] show ?thesis by (simp add: link_op_def link_cmd_def ln_loops_advance)
  next
    case False
    have "runs_within 200 (ln_loops ?C)" using r dr by simp
    then show ?thesis using runs_within_hd [OF _ False] auth_phase_advance(3) [OF C] E(2) by blast
  qed
  have "custom_acq_reg_write mcu_bus 0x14 1 (priv\<lparr>acq_spi := l1\<rparr>) = (Inr (), priv\<lparr>acq_spi := ?E\<rparr>)"
    using reg_write_link [of "priv\<lparr>acq_spi := l1\<rparr>" "0x14" 1] ok1 by simp
  then have "auth_challenge_store mcu_bus k buf priv = (Inr (length buf), priv\<lparr>acq_spi := ?E\<rparr>)"
    using l1(1) buf by (simp add: auth_challenge_store_def)
  then show ?thesis using E(1) run by (intro exI [of _ ?E]) blast
qed

section \<open>Properties\<close>

definition demo_link :: "nat list \<Rightarrow> (sha256_ctx \<times> u32 \<times> u32) option list \<Rightarrow> link" where
  "demo_link sched loops = \<lparr>ln_mcu = mcu_started, ln_sched = sched, ln_edges = 0, ln_key = replicate 32 0x11, ln_loops = loops\<rparr>"

lemma demo_link_ok: "link_ok (demo_link sched loops)"
  using mcu_started_inv by (simp add: link_ok_def demo_link_def)

lemma irq_thread_link:
  fixes priv :: "(link, 'k) custom_acq"
  assumes "link_ok (acq_spi priv)" "fault_spi_error_every prm = 0 \<or> 4 \<le> fault_spi_error_every prm" "downsample_n prm \<noteq> 0"
  obtains d ds zs where "custom_acq_irq_thread mcu_bus k prm priv = Some (Break_loop, d)"
    "link_ok (acq_spi (dp_priv d))" "ds @ link_items (acq_spi (dp_priv d)) = link_items (acq_spi priv) @ zs"
    "link_items (acq_spi (dp_priv d)) \<noteq> [] \<longrightarrow> ln_edges (acq_spi priv) < ln_edges (acq_spi (dp_priv d))"
    "dp_drained d = of_nat (length ds)" "dp_ret d = None"
    "\<exists>l' c' n. dp_priv d = (set_bus l' c' (snd (dispose_all k prm (map (stamp_item (irq_ts_ns priv)) ds)
       (priv\<lparr>fault_stall_ms := 0\<rparr>))))\<lparr>wakeups := n\<rparr>"
proof -
  let ?d = "\<lparr>dp_errors = 0, dp_drained = 0, dp_ret = None, dp_priv = priv\<lparr>fault_stall_ms := 0\<rparr>\<rparr>"
  let ?all = "\<lambda>ds. snd (dispose_all k prm (map (stamp_item (irq_ts_ns priv)) ds) (priv\<lparr>fault_stall_ms := 0\<rparr>))"
  have "link_ok (acq_spi (dp_priv ?d))" "retry_ok prm (dp_errors ?d) (fault_reg_reads (dp_priv ?d))"
    using assms(1) by (simp_all add: retry_ok_def)
  from drain_loop_link [OF this assms(2,3), of k]
  obtain l' c' ds zs d' where r: "drain_loop mcu_bus k prm ?d = Some (Break_loop, d')" "link_ok l'"
    "ds @ link_items l' = link_items (acq_spi (dp_priv ?d)) @ zs"
    "link_items l' \<noteq> [] \<longrightarrow> ln_edges (acq_spi (dp_priv ?d)) < ln_edges l'"
    "dp_drained d' = dp_drained ?d + of_nat (length ds)" "dp_ret d' = None"
    "dp_priv d' = set_bus l' c' (snd (dispose_all k prm (map (stamp_item (irq_ts_ns (dp_priv ?d))) ds) (dp_priv ?d)))"
    by blast
  let ?e = "if dp_drained d' \<noteq> 0 then d'\<lparr>dp_priv := (dp_priv d')\<lparr>wakeups := wakeups (dp_priv d') + 1\<rparr>\<rparr> else d'"
  show thesis
  proof (rule that [of ?e ds zs])
    show "custom_acq_irq_thread mcu_bus k prm priv = Some (Break_loop, ?e)"
      using r(1) by (simp add: custom_acq_irq_thread_def Let_def)
    have "dp_priv ?e = (dp_priv d')\<lparr>wakeups := wakeups (dp_priv ?e)\<rparr>" by simp
    then show "\<exists>l' c' n. dp_priv ?e = (set_bus l' c' (?all ds))\<lparr>wakeups := n\<rparr>"
      using r(7) by (intro exI [of _ l'] exI [of _ c'] exI [of _ "wakeups (dp_priv ?e)"]) simp
  qed (use r in simp_all)
qed





text \<open>C14. The sample rate set through sysfs is the sample rate read back: a value from 1 to 10000 is
  written to the board and shown again, whatever the board does in between; any other value is
  refused with EINVAL before anything is sent.\<close>

theorem sample_rate_roundtrip:
  fixes k :: "'k kernel_api" and priv :: "(link, 'k) custom_acq"
  assumes "link_ok (acq_spi priv)" "fault_spi_error_every prm = 0" "k_strtou32 k buf = Inr v"
  shows "if 1 \<le> v \<and> v \<le> 10000
     then \<exists>l'. sample_rate_store mcu_bus k buf priv = (Inr (length buf), priv\<lparr>acq_spi := l'\<rparr>)
        \<and> fst (sample_rate_show mcu_bus prm (priv\<lparr>acq_spi := l'\<rparr>)) = Inr v
     else sample_rate_store mcu_bus k buf priv = (Inl EINVAL, priv)"
proof (cases "1 \<le> v \<and> v \<le> 10000")
  case True
  let ?l = "link_op (write_cmd 0x04 v) (acq_spi priv)"
  have "sample_rate_store mcu_bus k buf priv = (Inr (length buf), priv\<lparr>acq_spi := ?l\<rparr>)"
    using True assms(3) reg_write_link [OF assms(1), of "0x04" v] by (auto simp: sample_rate_store_def)
  moreover have "reg_sample_rate (ln_mcu (advance ?l)) = v"
    using rate_reg.field_write_op [OF assms(1), of "0x04" v] True
    by (simp add: rate_reg.field_advance reg_write_def Let_def)
  moreover have "link_ok ?l" by (rule link_op_write_ok [OF assms(1)])
  ultimately show ?thesis
    using True reg_read_link [of "priv\<lparr>acq_spi := ?l\<rparr>" "0x04" prm] assms(2)
    by (auto simp: sample_rate_show_def reg_read_def)
next
  case False
  then have "v < 1 \<or> v > 10000" by (simp add: not_le)
  then show ?thesis using False assms(3) by (simp add: sample_rate_store_def)
qed

theorem sample_rate_roundtrip_witness:
  "link_ok (demo_link [3, 1] []) \<and> k_strtou32 list_kernel ''2500'' = Inr 2500
   \<and> (\<exists>l'. sample_rate_store mcu_bus list_kernel ''2500'' (demo_acq (demo_link [3, 1] []) [])
            = (Inr (length ''2500''), (demo_acq (demo_link [3, 1] []) [])\<lparr>acq_spi := l'\<rparr>)
        \<and> fst (sample_rate_show mcu_bus demo_params ((demo_acq (demo_link [3, 1] []) [])\<lparr>acq_spi := l'\<rparr>)) = Inr 2500)"
proof -
  have k: "k_strtou32 list_kernel ''2500'' = Inr 2500"
    by (simp add: list_kernel_def list_strtou32_def chomp_def hex_digit_def Let_def)
  have ok: "link_ok (acq_spi (demo_acq (demo_link [3, 1] []) []))" "fault_spi_error_every demo_params = 0"
    using demo_link_ok by (simp_all add: demo_acq_def demo_params_def)
  have "1 \<le> (2500 :: u32) \<and> (2500 :: u32) \<le> 10000" by simp
  then show ?thesis
    using sample_rate_roundtrip [OF ok k] k demo_link_ok by simp
qed



end
