(* ===== verification/Backpressure.thy ===== *)
theory Backpressure
  imports Device Link
begin

text \<open>
  The backpressure controller of the device service (src/backpressure\_controller.cpp). It is
  verified in two parts: the pure decision function, and the periodic check over the whole stack
  below it (sysfs text, driver, SPI link, board registers), which carries out that function on the
  board's sample rate register.
\<close>

section \<open>Model\<close>

datatype Congestion = No_congestion | Warning | Loss

definition next_backpressure_rate :: "u32 \<Rightarrow> Congestion \<Rightarrow> u32 \<Rightarrow> u32 \<Rightarrow> u32 \<Rightarrow> u32 \<Rightarrow> u32" where
  "next_backpressure_rate current_hz congestion min_hz target_hz backoff_divisor recovery_step_hz =
     (case congestion of
        Loss \<Rightarrow> (let backed_off = current_hz div max 1 backoff_divisor in max min_hz backed_off)
      | Warning \<Rightarrow> max min_hz (if current_hz > recovery_step_hz then current_hz - recovery_step_hz else min_hz)
      | No_congestion \<Rightarrow> min target_hz (current_hz + recovery_step_hz))"

definition next_rate_on_overflow :: "u32 \<Rightarrow> bool \<Rightarrow> u32 \<Rightarrow> u32 \<Rightarrow> u32 \<Rightarrow> u32 \<Rightarrow> u32" where
  "next_rate_on_overflow current_hz overflow_this_window =
     next_backpressure_rate current_hz (if overflow_this_window then Loss else No_congestion)"

record bp_controller =
  bp_min_hz :: u32
  bp_target_hz :: u32
  bp_backoff_divisor :: u32
  bp_recovery_step_hz :: u32
  bp_last_overflow :: u32
  bp_have_baseline :: bool

definition BackpressureController :: "u32 \<Rightarrow> u32 \<Rightarrow> u32 \<Rightarrow> u32 \<Rightarrow> bp_controller" where
  "BackpressureController min_hz target_hz backoff_divisor recovery_step_hz =
     \<lparr>bp_min_hz = min_hz, bp_target_hz = target_hz, bp_backoff_divisor = backoff_divisor,
      bp_recovery_step_hz = recovery_step_hz, bp_last_overflow = 0, bp_have_baseline = False\<rparr>"

text \<open>\<open>warn\<close> is what the early-warning callback answers, \<open>None\<close> when there is no callback.\<close>

definition window_congestion :: "bool \<Rightarrow> bool option \<Rightarrow> Congestion" where
  "window_congestion overflowed warn =
     (if overflowed then Loss else if warn = Some True then Warning else No_congestion)"

definition decide_rate :: "bp_controller \<Rightarrow> Congestion \<Rightarrow> u32 \<Rightarrow> u32" where
  "decide_rate c g hz = next_backpressure_rate hz g (bp_min_hz c) (bp_target_hz c) (bp_backoff_divisor c) (bp_recovery_step_hz c)"

definition bp_check_once ::
  "'w os_api \<Rightarrow> bool option \<Rightarrow> bp_controller \<Rightarrow> 'w device \<Rightarrow> bp_controller \<times> 'w device" where
  "bp_check_once os warn c d =
     (case read_kfifo_overflow os d of
        (Inl e, d1) \<Rightarrow> (c, d1)
      | (Inr overflow_now, d1) \<Rightarrow>
          (if \<not> bp_have_baseline c
           then (c\<lparr>bp_last_overflow := overflow_now, bp_have_baseline := True\<rparr>, d1)
           else let congestion = window_congestion (overflow_now \<noteq> bp_last_overflow c) warn;
                    c1 = c\<lparr>bp_last_overflow := overflow_now\<rparr>
                in case read_sample_rate os d1 of
                     (Inl e, d2) \<Rightarrow> (c1, d2)
                   | (Inr current_hz, d2) \<Rightarrow>
                       (let next_hz = decide_rate c congestion current_hz
                        in if next_hz = current_hz then (c1, d2)
                           else (c1, snd (write_sample_rate os next_hz d2)))))"

section \<open>The decision\<close>

text \<open>A configuration whose limits are ordered and whose ramp cannot run past 32 bits.\<close>

definition bp_config_ok :: "bp_controller \<Rightarrow> bool" where
  "bp_config_ok c \<longleftrightarrow>
     bp_min_hz c \<le> bp_target_hz c \<and> unat (bp_target_hz c) + unat (bp_recovery_step_hz c) < 2 ^ 32"

definition rate_ok :: "bp_controller \<Rightarrow> u32 \<Rightarrow> bool" where
  "rate_ok c hz \<longleftrightarrow> bp_min_hz c \<le> hz \<and> hz \<le> bp_target_hz c"

lemma unat_ramp:
  assumes "bp_config_ok c" "hz \<le> bp_target_hz c"
  shows "unat (hz + bp_recovery_step_hz c) = unat hz + unat (bp_recovery_step_hz c)"
  using assms by (subst unat_add_lem [THEN iffD1]) (auto simp: bp_config_ok_def word_le_nat_alt)

lemma decide_rate_none:
  assumes "bp_config_ok c" "hz \<le> bp_target_hz c"
  shows "unat (decide_rate c No_congestion hz) = min (unat (bp_target_hz c)) (unat hz + unat (bp_recovery_step_hz c))"
  using unat_ramp [OF assms] by (auto simp: decide_rate_def next_backpressure_rate_def min_def word_le_nat_alt)

lemma decide_rate_loss:
  "unat (decide_rate c Loss hz) = max (unat (bp_min_hz c)) (unat hz div max 1 (unat (bp_backoff_divisor c)))"
proof -
  have m: "unat (max a b) = max (unat a) (unat b)" for a b :: u32 by (simp add: max_def word_le_nat_alt)
  show ?thesis by (simp add: decide_rate_def next_backpressure_rate_def Let_def m unat_div)
qed

lemma decide_rate_warning:
  "unat (decide_rate c Warning hz) = max (unat (bp_min_hz c)) (unat hz - unat (bp_recovery_step_hz c))"
  by (auto simp: decide_rate_def next_backpressure_rate_def max_def word_le_nat_alt word_less_nat_alt unat_sub)

lemma rate_ok_nat: "rate_ok c hz \<longleftrightarrow> unat (bp_min_hz c) \<le> unat hz \<and> unat hz \<le> unat (bp_target_hz c)"
  by (simp add: rate_ok_def word_le_nat_alt)

lemma decide_rate_ok:
  assumes "bp_config_ok c" "rate_ok c hz"
  shows "rate_ok c (decide_rate c g hz)"
proof (cases g)
  case No_congestion
  then show ?thesis using assms decide_rate_none [of c hz] by (simp add: rate_ok_nat rate_ok_def word_le_nat_alt bp_config_ok_def)
next
  case Warning
  have "unat hz - n \<le> unat (bp_target_hz c)" for n using assms(2) by (simp add: rate_ok_nat le_diff_conv trans_le_add1)
  then show ?thesis using assms decide_rate_warning [of c hz] Warning by (simp add: rate_ok_nat bp_config_ok_def word_le_nat_alt)
next
  case Loss
  have "unat hz div n \<le> unat (bp_target_hz c)" for n
    using assms(2) by (intro le_trans [OF div_le_dividend]) (simp add: rate_ok_nat)
  then show ?thesis using assms decide_rate_loss [of c hz] Loss by (simp add: rate_ok_nat bp_config_ok_def word_le_nat_alt)
qed

lemma ramp_reaches:
  assumes "bp_config_ok c" "rate_ok c hz"
  shows "rate_ok c ((decide_rate c No_congestion ^^ n) hz)
    \<and> unat ((decide_rate c No_congestion ^^ n) hz) = min (unat (bp_target_hz c)) (unat hz + n * unat (bp_recovery_step_hz c))"
proof (induction n)
  case 0
  then show ?case using assms by (simp add: rate_ok_nat)
next
  case (Suc n)
  then show ?case
    using decide_rate_ok [OF assms(1)] decide_rate_none [OF assms(1), of "(decide_rate c No_congestion ^^ n) hz"]
    by (auto simp: rate_ok_def)
qed

lemma backoff_reaches:
  assumes "2 \<le> bp_backoff_divisor c"
  shows "unat ((decide_rate c Loss ^^ n) hz) \<le> max (unat (bp_min_hz c)) (unat hz div 2 ^ n)"
proof (induction n)
  case (Suc n)
  let ?r = "(decide_rate c Loss ^^ n) hz" and ?d = "unat (bp_backoff_divisor c)"
  have d: "2 \<le> ?d" using assms by (simp add: word_le_nat_alt)
  have "unat ?r div max 1 ?d \<le> unat ?r div 2" using d by (intro div_le_mono2) auto
  also have "\<dots> \<le> max (unat (bp_min_hz c)) (unat hz div 2 ^ n) div 2" using Suc by (rule div_le_mono)
  also have "\<dots> \<le> max (unat (bp_min_hz c)) (unat hz div 2 ^ Suc n)"
  proof -
    have h: "unat hz div 2 ^ n div 2 = unat hz div 2 ^ Suc n" by (simp add: div_mult2_eq [symmetric] mult.commute)
    have "max a b div 2 \<le> max a (b div 2)" for a b :: nat by (simp add: max_def)
    from this [of "unat (bp_min_hz c)" "unat hz div 2 ^ n"] show ?thesis by (simp only: h)
  qed
  finally show ?case by (simp add: decide_rate_loss)
qed simp

section \<open>The check over the whole stack\<close>

definition board_rate :: "(link, 'k) custom_acq device \<Rightarrow> u32" where
  "board_rate d = reg_sample_rate (ln_mcu (acq_spi (dev_world d)))"

definition device_overflow :: "(link, 'k) custom_acq device \<Rightarrow> u32" where
  "device_overflow d = kfifo_overflow (dev_world d)"

definition device_ok :: "(link, 'k) custom_acq device \<Rightarrow> bool" where
  "device_ok d \<longleftrightarrow> link_ok (acq_spi (dev_world d))"

text \<open>What the controller relies on of the kernel: decimal text is parsed as the number it shows.\<close>

definition strtou_law :: "'k kernel_api \<Rightarrow> bool" where
  "strtou_law k \<longleftrightarrow> (\<forall>v. k_strtou32 k (dec_text (unat v)) = Inr v)"

lemma read_rate_stack:
  assumes "device_ok d" "fault_spi_error_every prm = 0"
  shows "\<exists>d'. read_sample_rate (driver_os mcu_bus k prm) d = (Inr (board_rate d), d')
     \<and> device_ok d' \<and> board_rate d' = board_rate d \<and> device_overflow d' = device_overflow d"
proof -
  let ?l = "acq_spi (dev_world d)"
  let ?l' = "link_op (read_cmd 0x04) ?l"
  have ok: "link_ok ?l" using assms(1) by (simp add: device_ok_def)
  have v: "fst (reg_read 0x04 (ln_mcu (advance ?l))) = board_rate d"
    by (simp add: reg_read_def rate_reg.field_advance board_rate_def)
  have sh: "sample_rate_show mcu_bus prm (dev_world d) = (Inr (board_rate d), (dev_world d)\<lparr>acq_spi := ?l'\<rparr>)"
    using reg_read_link [OF ok, of "0x04" prm] assms(2) v by (simp add: sample_rate_show_def)
  have keep: "reg_sample_rate (ln_mcu ?l') = reg_sample_rate (ln_mcu ?l)"
  proof -
    have ok2: "link_ok (link_cmd (read_cmd 0x04) (advance ?l))" using advance_ok(1) [OF ok] by (rule link_cmd_ok) simp
    show ?thesis
      unfolding link_op_def
      using rate_reg.field_read_cmd [OF advance_ok(1) [OF ok2], of CMD_NOP] rate_reg.field_read_cmd [OF advance_ok(1) [OF ok], of "0x04"]
      by (simp add: rate_reg.field_advance)
  qed
  have "read_sample_rate (driver_os mcu_bus k prm) d = (Inr (board_rate d), d\<lparr>dev_world := (dev_world d)\<lparr>acq_spi := ?l'\<rparr>\<rparr>)"
    using sysfs_read_driver [of mcu_bus k prm d] sh by simp
  then show ?thesis
    using link_op_ok [OF ok] keep by (auto simp: device_ok_def board_rate_def device_overflow_def)
qed

lemma write_rate_stack:
  assumes "device_ok d" "strtou_law k" "1 \<le> hz" "hz \<le> 10000"
  shows "\<exists>d'. write_sample_rate (driver_os mcu_bus k prm) hz d = (Inr (dec_text (unat hz)), d')
     \<and> device_ok d' \<and> board_rate d' = hz \<and> device_overflow d' = device_overflow d"
proof -
  let ?l = "acq_spi (dev_world d)"
  let ?l' = "link_op (write_cmd 0x04 hz) ?l"
  have ok: "link_ok ?l" using assms(1) by (simp add: device_ok_def)
  have st: "sample_rate_store mcu_bus k (dec_text (unat hz)) (dev_world d) = (Inr (length (dec_text (unat hz))), (dev_world d)\<lparr>acq_spi := ?l'\<rparr>)"
    using assms(2-4) reg_write_link [OF ok, of "0x04" hz] by (auto simp: sample_rate_store_def strtou_law_def)
  have "reg_sample_rate (ln_mcu ?l') = hz"
    using rate_reg.field_write_op [OF ok, of "0x04" hz] assms(3,4) by (simp add: reg_write_def Let_def)
  then show ?thesis
    using st link_op_write_ok [OF ok, of "0x04" hz]
    by (auto simp: write_sample_rate_def write_sysfs_def driver_os_def device_ok_def board_rate_def device_overflow_def)
qed

lemma check_once_stack:
  assumes "device_ok d" "strtou_law k" "fault_spi_error_every prm = 0"
    "bp_config_ok c" "1 \<le> bp_min_hz c" "bp_target_hz c \<le> 10000" "rate_ok c (board_rate d)" "bp_have_baseline c"
  shows "\<exists>d'. bp_check_once (driver_os mcu_bus k prm) warn c d = (c\<lparr>bp_last_overflow := device_overflow d\<rparr>, d')
     \<and> device_ok d' \<and> device_overflow d' = device_overflow d
     \<and> board_rate d' = decide_rate c (window_congestion (device_overflow d \<noteq> bp_last_overflow c) warn) (board_rate d)"
proof -
  let ?os = "driver_os mcu_bus k prm"
  let ?g = "window_congestion (device_overflow d \<noteq> bp_last_overflow c) warn"
  let ?n = "decide_rate c ?g (board_rate d)"
  have ov: "read_kfifo_overflow ?os d = (Inr (device_overflow d), d)"
    using sysfs_read_driver [of mcu_bus k prm d] by (simp add: device_overflow_def)
  obtain d2 where d2: "read_sample_rate ?os d = (Inr (board_rate d), d2)" "device_ok d2" "board_rate d2 = board_rate d"
    "device_overflow d2 = device_overflow d" using read_rate_stack [OF assms(1,3), of k] by (elim exE conjE)
  have "rate_ok c ?n" by (rule decide_rate_ok [OF assms(4,7)])
  then have n: "1 \<le> ?n" "?n \<le> 10000" using assms(5,6) unfolding rate_ok_def by (meson order_trans)+
  obtain d3 where d3: "write_sample_rate ?os ?n d2 = (Inr (dec_text (unat ?n)), d3)" "device_ok d3" "board_rate d3 = ?n"
    "device_overflow d3 = device_overflow d2" using write_rate_stack [OF d2(2) assms(2) n, of prm] by (elim exE conjE)
  show ?thesis
  proof (cases "?n = board_rate d")
    case True
    then have "bp_check_once ?os warn c d = (c\<lparr>bp_last_overflow := device_overflow d\<rparr>, d2)"
      using assms(8) by (simp add: bp_check_once_def ov d2(1) Let_def)
    then show ?thesis using d2 True by (intro exI [of _ d2]) simp
  next
    case False
    then have "bp_check_once ?os warn c d = (c\<lparr>bp_last_overflow := device_overflow d\<rparr>, d3)"
      using assms(8) d3(1) by (simp add: bp_check_once_def ov d2(1) Let_def)
    then show ?thesis using d2 d3 by (intro exI [of _ d3]) simp
  qed
qed

text \<open>
  A run of the controller: before each check the other threads and the board do anything that
  keeps the link in order and the rate as it is. A window is labelled with whether the overflow
  counter moved in it and with the answer of the early-warning callback.
\<close>

inductive bp_windows ::
  "(link, 'k) custom_acq os_api \<Rightarrow> (bool \<times> bool option) list \<Rightarrow> bp_controller \<times> (link, 'k) custom_acq device
     \<Rightarrow> bp_controller \<times> (link, 'k) custom_acq device \<Rightarrow> bool" for os where
  bp_none: "bp_windows os [] s s"
| bp_window: "bp_windows os ws s (c, d) \<Longrightarrow> device_ok d1 \<Longrightarrow> board_rate d1 = board_rate d \<Longrightarrow>
     moved = (device_overflow d1 \<noteq> device_overflow d) \<Longrightarrow>
     bp_windows os (ws @ [(moved, warn)]) s (bp_check_once os warn c d1)"

lemma decide_rate_cong:
  "bp_min_hz c = bp_min_hz c' \<Longrightarrow> bp_target_hz c = bp_target_hz c' \<Longrightarrow> bp_backoff_divisor c = bp_backoff_divisor c' \<Longrightarrow>
   bp_recovery_step_hz c = bp_recovery_step_hz c' \<Longrightarrow> decide_rate c = decide_rate c'"
  by (intro ext) (simp add: decide_rate_def)

definition decide_all :: "bp_controller \<Rightarrow> (bool \<times> bool option) list \<Rightarrow> u32 \<Rightarrow> u32" where
  "decide_all c ws hz = fold (\<lambda>(moved, warn). decide_rate c (window_congestion moved warn)) ws hz"

lemma bp_windows_run:
  assumes "bp_windows os ws (c0, d0) cd" "os = driver_os mcu_bus k prm" "strtou_law k" "fault_spi_error_every prm = 0"
    "bp_config_ok c0" "1 \<le> bp_min_hz c0" "bp_target_hz c0 \<le> 10000" "rate_ok c0 (board_rate d0)" "device_ok d0"
    "bp_have_baseline c0" "bp_last_overflow c0 = device_overflow d0"
  shows "device_ok (snd cd) \<and> fst cd = c0\<lparr>bp_last_overflow := device_overflow (snd cd)\<rparr>
     \<and> board_rate (snd cd) = decide_all c0 ws (board_rate d0) \<and> rate_ok c0 (board_rate (snd cd))"
  using assms
proof (induction ws "(c0, d0)" cd)
  case bp_none
  then show ?case by (simp add: decide_all_def)
next
  case (bp_window ws c d d1 moved warn)
  from bp_window.hyps(2) [OF bp_window.prems]
  have IH: "c = c0\<lparr>bp_last_overflow := device_overflow d\<rparr>" "board_rate d = decide_all c0 ws (board_rate d0)"
    "rate_ok c0 (board_rate d)" unfolding fst_conv snd_conv by blast+
  have c: "bp_config_ok c" "1 \<le> bp_min_hz c" "bp_target_hz c \<le> 10000" "rate_ok c (board_rate d1)" "bp_have_baseline c"
    "bp_last_overflow c = device_overflow d"
    using IH bp_window.prems bp_window.hyps(4) by (simp_all add: bp_config_ok_def rate_ok_def)
  have dc: "decide_rate c = decide_rate c0" by (rule decide_rate_cong) (simp_all add: IH(1))
  obtain d' where d': "bp_check_once os warn c d1 = (c\<lparr>bp_last_overflow := device_overflow d1\<rparr>, d')"
    "device_ok d'" "device_overflow d' = device_overflow d1"
    "board_rate d' = decide_rate c (window_congestion (device_overflow d1 \<noteq> bp_last_overflow c) warn) (board_rate d1)"
    using check_once_stack [OF bp_window.hyps(3) bp_window.prems(2,3) c(1-5), of warn] bp_window.prems(1) by auto
  have "board_rate d' = decide_all c0 (ws @ [(moved, warn)]) (board_rate d0)"
    using d'(4) c(6) bp_window.hyps(4,5) IH(2) by (simp add: dc decide_all_def)
  moreover have "rate_ok c0 (board_rate d')"
    using decide_rate_ok [OF c(1,4)] d'(4) IH(1) by (simp add: rate_ok_def)
  ultimately show ?case using d' IH(1) by simp
qed

section \<open>Properties\<close>

text \<open>C25. The decision keeps the rate between the floor and the target, for every congestion level. It never
  raises the rate on a warning or a loss and never lowers it in a clean window.\<close>

theorem backpressure_bounds:
  assumes "bp_config_ok c" "rate_ok c hz"
  shows "rate_ok c (decide_rate c g hz)
    \<and> decide_rate c Loss hz \<le> hz \<and> decide_rate c Warning hz \<le> hz \<and> hz \<le> decide_rate c No_congestion hz"
proof (intro conjI decide_rate_ok assms)
  have r: "unat (bp_min_hz c) \<le> unat hz" "unat hz \<le> unat (bp_target_hz c)" using assms(2) by (simp_all add: rate_ok_nat)
  have "unat hz div n \<le> unat hz" for n by simp
  then show "decide_rate c Loss hz \<le> hz" using r by (simp add: word_le_nat_alt decide_rate_loss)
  show "decide_rate c Warning hz \<le> hz" using r by (simp add: word_le_nat_alt decide_rate_warning)
  show "hz \<le> decide_rate c No_congestion hz"
    using r assms by (simp add: word_le_nat_alt decide_rate_none rate_ok_def)
qed

text \<open>C26. The controller settles. In clean windows the rate climbs by the recovery step to exactly the target
  and stays there; under sustained loss, with a divisor of at least two, it is at the floor after at
  most 32 windows.\<close>

theorem backpressure_settles:
  assumes "bp_config_ok c" "rate_ok c hz"
  shows "(0 < bp_recovery_step_hz c \<and> unat (bp_target_hz c) \<le> unat hz + n * unat (bp_recovery_step_hz c) \<longrightarrow>
       (decide_rate c No_congestion ^^ n) hz = bp_target_hz c)
    \<and> (2 \<le> bp_backoff_divisor c \<and> 32 \<le> n \<longrightarrow> (decide_rate c Loss ^^ n) hz = bp_min_hz c)"
proof (intro conjI impI)
  assume "0 < bp_recovery_step_hz c \<and> unat (bp_target_hz c) \<le> unat hz + n * unat (bp_recovery_step_hz c)"
  then show "(decide_rate c No_congestion ^^ n) hz = bp_target_hz c"
    using ramp_reaches [OF assms, of n] by (simp add: word_unat_eq_iff)
next
  assume n: "2 \<le> bp_backoff_divisor c \<and> 32 \<le> n"
  have "rate_ok c ((decide_rate c Loss ^^ n) hz)" by (induction n) (simp_all add: assms decide_rate_ok)
  moreover have "unat hz div 2 ^ n = 0"
  proof -
    have "unat hz < 2 ^ 32" using unsigned_less [of hz] by simp
    also have "\<dots> \<le> 2 ^ n" using n by (intro power_increasing) simp_all
    finally show ?thesis by simp
  qed
  ultimately show "(decide_rate c Loss ^^ n) hz = bp_min_hz c"
    using backoff_reaches [of c n hz] n by (simp add: word_unat_eq_iff rate_ok_nat)
qed

text \<open>C27. Closed loop. Through sysfs text, the driver and the SPI link, a sequence of checks does to the
  board's sample rate register exactly what the decision function says for the sequence of
  congestion levels, whatever the other threads and the board do in between, and leaves the register
  within the configured limits.\<close>

theorem backpressure_closed_loop:
  fixes k :: "'k kernel_api"
  assumes "bp_windows (driver_os mcu_bus k prm) ws (c0, d0) (c, d)" "strtou_law k" "fault_spi_error_every prm = 0"
    "bp_config_ok c0" "1 \<le> bp_min_hz c0" "bp_target_hz c0 \<le> 10000" "rate_ok c0 (board_rate d0)" "device_ok d0"
    "bp_have_baseline c0" "bp_last_overflow c0 = device_overflow d0"
  shows "board_rate d = fold (\<lambda>(moved, warn). decide_rate c0 (window_congestion moved warn)) ws (board_rate d0)
    \<and> rate_ok c0 (board_rate d) \<and> device_ok d"
  using bp_windows_run [OF assms(1) refl assms(2-10)] unfolding decide_all_def fst_conv snd_conv by blast

definition demo_controller :: bp_controller where
  "demo_controller = (BackpressureController 100 2000 2 300)\<lparr>bp_have_baseline := True\<rparr>"

definition demo_device :: "(link, custom_acq_sample list) custom_acq device" where
  "demo_device = \<lparr>dev_fd = True, dev_world = demo_acq (demo_link [3, 1] []) []\<rparr>"

lemma demo_controller_ok:
  "bp_config_ok demo_controller" "1 \<le> bp_min_hz demo_controller" "bp_target_hz demo_controller \<le> 10000"
  "rate_ok demo_controller 1000" "bp_have_baseline demo_controller" "bp_last_overflow demo_controller = 0"
  by (simp_all add: bp_config_ok_def rate_ok_def demo_controller_def BackpressureController_def)

lemma mcu_started_rate: "reg_sample_rate mcu_started = 1000"
  by code_simp

lemma demo_device_ok: "device_ok demo_device" "board_rate demo_device = 1000" "device_overflow demo_device = 0"
  using demo_link_ok mcu_started_rate
  by (simp_all add: device_ok_def board_rate_def device_overflow_def demo_device_def demo_acq_def) (simp add: demo_link_def)

lemma decimal_dec_text: "decimal acc (dec_text n @ s) = decimal (acc * 10 ^ length (dec_text n) + n) s"
proof (induction n arbitrary: acc s rule: dec_text.induct)
  case (1 n)
  show ?case
  proof (cases "n < 10")
    case True
    then show ?thesis by (simp add: dec_text.simps [of n] hex_digit_char mult.commute)
  next
    case False
    have "decimal acc (dec_text n @ s) = decimal acc (dec_text (n div 10) @ digit_char (n mod 10) # s)"
      using False by (simp add: dec_text.simps [of n])
    also have "\<dots> = decimal (10 * (acc * 10 ^ length (dec_text (n div 10)) + n div 10) + n mod 10) s"
      unfolding "1.IH" [OF False] by (simp add: hex_digit_char)
    also have "10 * (acc * 10 ^ length (dec_text (n div 10)) + n div 10) + n mod 10 = acc * 10 ^ length (dec_text n) + n"
      using False by (simp add: dec_text.simps [of n] algebra_simps)
    finally show ?thesis .
  qed
qed

lemma list_strtou_law: "strtou_law list_kernel"
proof -
  have "last (dec_text n) \<noteq> CHR 0x0A" for n
    using digit_char_plain(7) [of "n mod 10"] by (cases "n < 10") (simp_all add: dec_text.simps [of n])
  then have "chomp (dec_text n) = dec_text n" for n by (simp add: chomp_def)
  moreover have "unat v < 2 ^ 32" for v :: u32 using unsigned_less [of v] by simp
  ultimately show ?thesis
    using decimal_dec_text [of 0 _ "[]"] by (simp add: strtou_law_def list_kernel_def list_strtou32_def dec_text_ne)
qed

theorem backpressure_bounds_witness:
  "bp_config_ok demo_controller \<and> rate_ok demo_controller 1000 \<and> decide_rate demo_controller Loss 1000 \<le> 1000"
  using backpressure_bounds [OF demo_controller_ok(1,4)] demo_controller_ok by blast

theorem backpressure_settles_witness:
  "(decide_rate demo_controller No_congestion ^^ 4) 1000 = 2000 \<and> (decide_rate demo_controller Loss ^^ 32) 1000 = 100"
  using backpressure_settles [OF demo_controller_ok(1,4), of 4] backpressure_settles [OF demo_controller_ok(1,4), of 32]
  by (simp add: demo_controller_def BackpressureController_def)

theorem backpressure_closed_loop_witness:
  "board_rate (snd (bp_check_once (driver_os mcu_bus list_kernel demo_params) (Some True) demo_controller demo_device)) = 700"
proof -
  let ?os = "driver_os mcu_bus list_kernel demo_params"
  let ?r = "bp_check_once ?os (Some True) demo_controller demo_device"
  have "bp_windows ?os ([] @ [(False, Some True)]) (demo_controller, demo_device) ?r"
    by (rule bp_window [OF bp_none]) (simp_all add: demo_device_ok)
  then have w: "bp_windows ?os [(False, Some True)] (demo_controller, demo_device) (fst ?r, snd ?r)" by simp
  have f: "fault_spi_error_every demo_params = 0" by (simp add: demo_params_def)
  have r: "rate_ok demo_controller (board_rate demo_device)" "bp_last_overflow demo_controller = device_overflow demo_device"
    using demo_controller_ok demo_device_ok by simp_all
  have "board_rate (snd ?r) = decide_rate demo_controller Warning (board_rate demo_device)"
    using backpressure_closed_loop [OF w list_strtou_law f demo_controller_ok(1-3) r(1) demo_device_ok(1) demo_controller_ok(5) r(2)]
    by (simp add: window_congestion_def)
  then show ?thesis
    by (simp add: demo_device_ok decide_rate_def next_backpressure_rate_def demo_controller_def BackpressureController_def)
qed

end
