(* ===== verification/Ring_Buffer.thy ===== *)
theory Ring_Buffer
  imports Queue_Interface
begin

text \<open>
  The blocking ring buffer of the device service (include/ring\_buffer.hpp). An operation whose
  condition variable would wait is \<open>None\<close>; the mutex makes the rest of it one step. Between the
  acquisition thread (\<open>push\<close>), the consumer thread (\<open>pop\<close>) and the thread that calls \<open>stop\<close>, the
  steps interleave freely, which is the relation \<open>spsc_step\<close>.
\<close>

section \<open>Model\<close>

record 'a ring_buffer =
  rb_buf :: "'a list"
  read_pos :: nat
  write_pos :: nat
  rb_count :: nat
  rb_stopped :: bool

definition RingBuffer :: "'a \<Rightarrow> nat \<Rightarrow> 'a ring_buffer" where
  "RingBuffer d capacity =
     \<lparr>rb_buf = replicate capacity d, read_pos = 0, write_pos = 0, rb_count = 0, rb_stopped = False\<rparr>"

definition rb_push :: "'a \<Rightarrow> 'a ring_buffer \<Rightarrow> 'a ring_buffer option" where
  "rb_push x r =
     (if \<not> (rb_count r < length (rb_buf r) \<or> rb_stopped r) then None
      else if rb_stopped r then Some r
      else Some (r\<lparr>rb_buf := (rb_buf r)[write_pos r := x],
                   write_pos := (write_pos r + 1) mod length (rb_buf r),
                   rb_count := rb_count r + 1\<rparr>))"

text \<open>\<open>Some (None, r)\<close> is the return value false: stopped and drained.\<close>

definition rb_pop :: "'a ring_buffer \<Rightarrow> ('a option \<times> 'a ring_buffer) option" where
  "rb_pop r =
     (if \<not> (0 < rb_count r \<or> rb_stopped r) then None
      else if rb_count r = 0 \<and> rb_stopped r then Some (None, r)
      else Some (Some (rb_buf r ! read_pos r),
                 r\<lparr>read_pos := (read_pos r + 1) mod length (rb_buf r), rb_count := rb_count r - 1\<rparr>))"

definition rb_size :: "'a ring_buffer \<Rightarrow> nat" where
  "rb_size r = rb_count r"

definition rb_stop :: "'a ring_buffer \<Rightarrow> 'a ring_buffer" where
  "rb_stop r = r\<lparr>rb_stopped := True\<rparr>"

section \<open>The queue it is\<close>

definition rb_items :: "'a ring_buffer \<Rightarrow> 'a list" where
  "rb_items r = ring_view (rb_buf r) (read_pos r) (rb_count r)"

definition rb_inv :: "'a ring_buffer \<Rightarrow> bool" where
  "rb_inv r \<longleftrightarrow>
     rb_count r \<le> length (rb_buf r)
     \<and> (rb_buf r \<noteq> [] \<longrightarrow> read_pos r < length (rb_buf r)
          \<and> write_pos r = (read_pos r + rb_count r) mod length (rb_buf r))"

lemma RingBuffer_inv: "rb_inv (RingBuffer d n)" "rb_items (RingBuffer d n) = []" "\<not> rb_stopped (RingBuffer d n)"
  "length (rb_buf (RingBuffer d n)) = n"
  by (simp_all add: RingBuffer_def rb_inv_def rb_items_def)

lemma rb_push_room:
  assumes "rb_inv r" "\<not> rb_stopped r" "length (rb_items r) < length (rb_buf r)"
  obtains r' where "rb_push x r = Some r'" "rb_items r' = rb_items r @ [x]" "rb_inv r'"
    "length (rb_buf r') = length (rb_buf r)" "\<not> rb_stopped r'"
proof
  let ?m = "length (rb_buf r)"
  let ?r = "r\<lparr>rb_buf := (rb_buf r)[write_pos r := x], write_pos := (write_pos r + 1) mod ?m, rb_count := rb_count r + 1\<rparr>"
  have c: "rb_count r < ?m" using assms(3) by (simp add: rb_items_def)
  then have ne: "rb_buf r \<noteq> []" by auto
  then have w: "write_pos r = (read_pos r + rb_count r) mod ?m" "read_pos r < ?m" using assms(1) by (simp_all add: rb_inv_def)
  show "rb_push x r = Some ?r" using assms(2) c by (simp add: rb_push_def)
  show "rb_items ?r = rb_items r @ [x]"
    using ring_view_push [OF c, of "read_pos r" x] by (simp add: rb_items_def w(1))
  have "(write_pos r + 1) mod ?m = (read_pos r + (rb_count r + 1)) mod ?m"
    unfolding w(1) mod_add_left_eq by (simp only: add.assoc)
  then show "rb_inv ?r" using c w(2) by (simp add: rb_inv_def)
qed (use assms(2) in simp_all)

lemma rb_pop_item:
  assumes "rb_inv r" "rb_items r = x # xs"
  obtains r' where "rb_pop r = Some (Some x, r')" "rb_items r' = xs" "rb_inv r'"
    "length (rb_buf r') = length (rb_buf r)" "rb_stopped r' = rb_stopped r"
proof
  let ?m = "length (rb_buf r)"
  let ?r = "r\<lparr>read_pos := (read_pos r + 1) mod ?m, rb_count := rb_count r - 1\<rparr>"
  obtain n where n: "rb_count r = Suc n" using assms(2) by (cases "rb_count r") (simp_all add: rb_items_def)
  then have ne: "rb_buf r \<noteq> []" using assms(1) by (auto simp: rb_inv_def)
  then have rp: "read_pos r < ?m" using assms(1) by (simp add: rb_inv_def)
  have "rb_items r = rb_buf r ! read_pos r # ring_view (rb_buf r) ((read_pos r + 1) mod ?m) n"
    using rp by (simp add: rb_items_def n ring_view_pop)
  then have x: "x = rb_buf r ! read_pos r" "xs = ring_view (rb_buf r) ((read_pos r + 1) mod ?m) n"
    using assms(2) by simp_all
  show "rb_pop r = Some (Some x, ?r)" using n x by (simp add: rb_pop_def)
  show "rb_items ?r = xs" using x n by (simp add: rb_items_def)
  have "(read_pos r + rb_count r) mod ?m = ((read_pos r + 1) mod ?m + n) mod ?m"
    unfolding n mod_add_left_eq by simp
  then show "rb_inv ?r" using assms(1) n ne by (simp add: rb_inv_def)
qed simp_all

lemma rb_pop_empty: "rb_items r = [] \<Longrightarrow> rb_pop r = (if rb_stopped r then Some (None, r) else None)"
  by (simp add: rb_pop_def rb_items_def)

text \<open>
  While nobody has called \<open>stop\<close>, a push that retries until it fits and a pop that reports \<open>None\<close>
  when it would wait make a bounded queue.
\<close>

definition rb_try_push :: "'a \<Rightarrow> 'a ring_buffer \<Rightarrow> 'a ring_buffer" where
  "rb_try_push x r = (case rb_push x r of Some r' \<Rightarrow> r' | None \<Rightarrow> r)"

definition rb_try_pop :: "'a ring_buffer \<Rightarrow> ('a \<times> 'a ring_buffer) option" where
  "rb_try_pop r = (case rb_pop r of Some (Some x, r') \<Rightarrow> Some (x, r') | _ \<Rightarrow> None)"

interpretation rb: bounded_queue "\<lambda>r. rb_inv r \<and> \<not> rb_stopped r" rb_items "\<lambda>r. length (rb_buf r)" "\<lambda>_ x. x"
  rb_try_push rb_try_pop
proof
  fix q :: "'b ring_buffer" and v x :: 'b and xs
  assume inv: "rb_inv q \<and> \<not> rb_stopped q"
  show cap: "length (rb_items q) \<le> length (rb_buf q)" using inv by (simp add: rb_items_def rb_inv_def)
  have full: "rb_try_push v q = q" if "\<not> length (rb_items q) < length (rb_buf q)"
    using that inv by (simp add: rb_try_push_def rb_push_def rb_items_def)
  have room: "rb_items (rb_try_push v q) = rb_items q @ [v] \<and> rb_inv (rb_try_push v q) \<and> \<not> rb_stopped (rb_try_push v q)
      \<and> length (rb_buf (rb_try_push v q)) = length (rb_buf q)"
    if "length (rb_items q) < length (rb_buf q)"
  proof -
    from inv have "rb_inv q" "\<not> rb_stopped q" by simp_all
    from this that show ?thesis by (rule rb_push_room [where x = v]) (simp add: rb_try_push_def)
  qed
  show "length (rb_items q) < length (rb_buf q) \<Longrightarrow> rb_items (rb_try_push v q) = rb_items q @ [v]"
    using room by blast
  show "length (rb_items q) = length (rb_buf q) \<Longrightarrow> rb_items (rb_try_push v q) = rb_items q" using full by simp
  show "rb_inv (rb_try_push v q) \<and> \<not> rb_stopped (rb_try_push v q)"
    "length (rb_buf (rb_try_push v q)) = length (rb_buf q)"
    using room full inv by (cases "length (rb_items q) < length (rb_buf q)"; simp)+
  show "rb_items q = [] \<Longrightarrow> rb_try_pop q = None" using inv by (simp add: rb_try_pop_def rb_pop_empty)
  show "rb_items q = x # xs \<Longrightarrow> \<exists>q'. rb_try_pop q = Some (x, q') \<and> (rb_inv q' \<and> \<not> rb_stopped q')
      \<and> rb_items q' = xs \<and> length (rb_buf q') = length (rb_buf q)"
  proof -
    assume items: "rb_items q = x # xs"
    from inv have "rb_inv q" by simp
    from this items show ?thesis by (rule rb_pop_item) (use inv in \<open>simp add: rb_try_pop_def\<close>)
  qed
qed

section \<open>One producer, one consumer, one stopper\<close>

text \<open>
  \<open>sp_todo\<close> is what the producer still has to push, \<open>sp_got\<close> what the consumer has received;
  \<open>sp_ended\<close> is set when its \<open>pop\<close> has returned false.
\<close>

record 'a spsc =
  sp_todo :: "'a list"
  sp_ring :: "'a ring_buffer"
  sp_got :: "'a list"
  sp_ended :: bool

inductive spsc_step :: "'a spsc \<Rightarrow> 'a spsc \<Rightarrow> bool" where
  spsc_push: "sp_todo s = x # xs \<Longrightarrow> rb_push x (sp_ring s) = Some r \<Longrightarrow>
     spsc_step s (s\<lparr>sp_todo := xs, sp_ring := r\<rparr>)"
| spsc_pop: "\<not> sp_ended s \<Longrightarrow> rb_pop (sp_ring s) = Some (Some x, r) \<Longrightarrow>
     spsc_step s (s\<lparr>sp_ring := r, sp_got := sp_got s @ [x]\<rparr>)"
| spsc_end: "\<not> sp_ended s \<Longrightarrow> rb_pop (sp_ring s) = Some (None, r) \<Longrightarrow>
     spsc_step s (s\<lparr>sp_ring := r, sp_ended := True\<rparr>)"
| spsc_stop: "\<not> rb_stopped (sp_ring s) \<Longrightarrow> spsc_step s (s\<lparr>sp_ring := rb_stop (sp_ring s)\<rparr>)"

definition spsc_start :: "'a \<Rightarrow> nat \<Rightarrow> 'a list \<Rightarrow> 'a spsc" where
  "spsc_start d n xs = \<lparr>sp_todo = xs, sp_ring = RingBuffer d n, sp_got = [], sp_ended = False\<rparr>"

definition spsc_inv :: "'a list \<Rightarrow> nat \<Rightarrow> 'a spsc \<Rightarrow> bool" where
  "spsc_inv xs n s \<longleftrightarrow>
     rb_inv (sp_ring s) \<and> length (rb_buf (sp_ring s)) = n
     \<and> (\<exists>zs. sp_got s @ rb_items (sp_ring s) @ zs = xs)
     \<and> (\<not> rb_stopped (sp_ring s) \<longrightarrow> sp_got s @ rb_items (sp_ring s) @ sp_todo s = xs)
     \<and> (sp_ended s \<longrightarrow> rb_stopped (sp_ring s) \<and> rb_items (sp_ring s) = [])"

lemma spsc_start_inv: "spsc_inv xs n (spsc_start d n xs)"
  by (simp add: spsc_inv_def spsc_start_def RingBuffer_inv)

lemma rb_push_cases:
  assumes "rb_inv r" "rb_push x r = Some r'"
  obtains (stopped) "rb_stopped r" "r' = r"
    | (stored) "\<not> rb_stopped r" "\<not> rb_stopped r'" "rb_items r' = rb_items r @ [x]" "rb_inv r'"
        "length (rb_buf r') = length (rb_buf r)"
proof (cases "rb_stopped r")
  case True
  then show thesis using assms(2) by (intro stopped) (simp_all add: rb_push_def)
next
  case False
  then have "length (rb_items r) < length (rb_buf r)"
    using assms(2) by (simp add: rb_push_def rb_items_def split: if_splits)
  from assms(1) False this show thesis
    by (rule rb_push_room [where x = x]) (use assms(2) False stored in simp)
qed

lemma rb_pop_cases:
  assumes "rb_inv r" "rb_pop r = Some (y, r')"
  obtains (ended) "y = None" "r' = r" "rb_items r = []" "rb_stopped r"
    | (item) x where "y = Some x" "rb_items r = x # rb_items r'" "rb_inv r'"
        "length (rb_buf r') = length (rb_buf r)" "rb_stopped r' = rb_stopped r"
proof (cases "rb_items r")
  case Nil
  then show thesis using assms(2) by (intro ended) (simp_all add: rb_pop_empty split: if_splits)
next
  case (Cons x xs)
  from assms(1) Cons show thesis by (rule rb_pop_item) (use assms(2) Cons item in simp)
qed

lemma spsc_invI:
  assumes "rb_inv (sp_ring s)" "length (rb_buf (sp_ring s)) = n" "sp_got s @ rb_items (sp_ring s) @ zs = xs"
    "\<not> rb_stopped (sp_ring s) \<longrightarrow> sp_todo s = zs" "sp_ended s \<longrightarrow> rb_stopped (sp_ring s) \<and> rb_items (sp_ring s) = []"
  shows "spsc_inv xs n s"
  unfolding spsc_inv_def using assms by blast

lemma spsc_invE:
  assumes "spsc_inv xs n s"
  obtains zs where "rb_inv (sp_ring s)" "length (rb_buf (sp_ring s)) = n" "sp_got s @ rb_items (sp_ring s) @ zs = xs"
    "\<not> rb_stopped (sp_ring s) \<longrightarrow> sp_todo s = zs" "sp_ended s \<longrightarrow> rb_stopped (sp_ring s) \<and> rb_items (sp_ring s) = []"
  using assms unfolding spsc_inv_def by (cases "rb_stopped (sp_ring s)") blast+

lemma spsc_step_inv:
  assumes "spsc_step s s'" "spsc_inv xs n s"
  shows "spsc_inv xs n s'"
proof -
  from assms(2) obtain zs where I: "rb_inv (sp_ring s)" "length (rb_buf (sp_ring s)) = n"
    "sp_got s @ rb_items (sp_ring s) @ zs = xs" "\<not> rb_stopped (sp_ring s) \<longrightarrow> sp_todo s = zs"
    "sp_ended s \<longrightarrow> rb_stopped (sp_ring s) \<and> rb_items (sp_ring s) = []"
    by (rule spsc_invE)
  from assms(1) show ?thesis
  proof cases
    case st: (spsc_push x ys r)
    from I(1) st(3) show ?thesis
    proof (cases rule: rb_push_cases)
      case stopped
      then show ?thesis using I st by (intro spsc_invI [of _ _ zs]) simp_all
    next
      case stored
      then have "zs = x # ys" using I(4) st(2) by simp
      then show ?thesis using I st stored by (intro spsc_invI [of _ _ ys]) simp_all
    qed
  next
    case st: (spsc_pop x r)
    from I(1) st(3) show ?thesis
      by (cases rule: rb_pop_cases) (use I st in \<open>auto intro!: spsc_invI [of _ _ zs]\<close>)
  next
    case st: (spsc_end r)
    from I(1) st(3) show ?thesis
      by (cases rule: rb_pop_cases) (use I st in \<open>auto intro!: spsc_invI [of _ _ zs]\<close>)
  next
    case spsc_stop
    then show ?thesis using I
      by (intro spsc_invI [of _ _ zs]) (simp_all add: rb_stop_def rb_inv_def rb_items_def)
  qed
qed

lemma spsc_reach_inv: "spsc_step\<^sup>*\<^sup>* (spsc_start d n xs) s \<Longrightarrow> spsc_inv xs n s"
  by (induction rule: rtranclp_induct) (blast intro: spsc_start_inv spsc_step_inv)+

text \<open>Every step uses something up, so no run is infinite.\<close>

definition spsc_work :: "'a spsc \<Rightarrow> nat" where
  "spsc_work s = 2 * length (sp_todo s) + rb_count (sp_ring s)
     + (if rb_stopped (sp_ring s) then 0 else 1) + (if sp_ended s then 0 else 1)"

lemma spsc_step_work: "spsc_step s s' \<Longrightarrow> spsc_work s' < spsc_work s"
  by (cases rule: spsc_step.cases) (auto simp: spsc_work_def rb_push_def rb_pop_def rb_stop_def split: if_splits)

section \<open>Properties\<close>

text \<open>C17. The ring buffer between two threads. For every capacity and every interleaving of pushes,
  pops and a stop: the consumer receives a prefix of what was pushed, in order and without
  duplicates; until stop is called nothing is missing; when pop reports the end, the buffer has been
  drained; and, unless the capacity is zero, the threads cannot deadlock: as long as a sample is
  not delivered, some push or pop can proceed.\<close>

theorem ring_buffer_spsc:
  assumes "spsc_step\<^sup>*\<^sup>* (spsc_start d n xs) s"
  shows "(\<exists>zs. sp_got s @ rb_items (sp_ring s) @ zs = xs)
     \<and> length (rb_items (sp_ring s)) \<le> n
     \<and> (\<not> rb_stopped (sp_ring s) \<longrightarrow> sp_got s @ rb_items (sp_ring s) @ sp_todo s = xs)
     \<and> (sp_ended s \<longrightarrow> rb_items (sp_ring s) = [])
     \<and> (0 < n \<longrightarrow> \<not> rb_stopped (sp_ring s) \<longrightarrow> sp_got s \<noteq> xs \<longrightarrow>
          (sp_todo s \<noteq> [] \<and> rb_push (hd (sp_todo s)) (sp_ring s) \<noteq> None) \<or> rb_pop (sp_ring s) \<noteq> None)
     \<and> (rb_stopped (sp_ring s) \<longrightarrow> (\<forall>x. rb_push x (sp_ring s) \<noteq> None) \<and> rb_pop (sp_ring s) \<noteq> None)"
proof -
  have inv: "spsc_inv xs n s" by (rule spsc_reach_inv [OF assms])
  have blocked: "rb_items (sp_ring s) = []" if "rb_pop (sp_ring s) = None"
    using that by (simp add: rb_pop_def rb_items_def split: if_splits)
  have room: "\<exists>r. rb_push x (sp_ring s) = Some r" if "rb_items (sp_ring s) = []" "0 < n" for x
    using that inv by (simp add: rb_push_def rb_items_def spsc_inv_def)
  have progress: "0 < n \<longrightarrow> \<not> rb_stopped (sp_ring s) \<longrightarrow> sp_got s \<noteq> xs \<longrightarrow>
       (sp_todo s \<noteq> [] \<and> rb_push (hd (sp_todo s)) (sp_ring s) \<noteq> None) \<or> rb_pop (sp_ring s) \<noteq> None"
  proof (intro impI, rule ccontr)
    assume n: "0 < n" and ns: "\<not> rb_stopped (sp_ring s)" and ne: "sp_got s \<noteq> xs"
      and no: "\<not> ((sp_todo s \<noteq> [] \<and> rb_push (hd (sp_todo s)) (sp_ring s) \<noteq> None) \<or> rb_pop (sp_ring s) \<noteq> None)"
    then have items: "rb_items (sp_ring s) = []" using blocked by blast
    then have "sp_todo s \<noteq> []" using inv ns ne by (auto simp: spsc_inv_def)
    then show False using no room [OF items n, of "hd (sp_todo s)"] by auto
  qed
  have "length (rb_items (sp_ring s)) \<le> n" using inv by (simp add: spsc_inv_def rb_inv_def rb_items_def)
  moreover have "rb_stopped (sp_ring s) \<longrightarrow> (\<forall>x. rb_push x (sp_ring s) \<noteq> None) \<and> rb_pop (sp_ring s) \<noteq> None"
    by (simp add: rb_push_def rb_pop_def)
  ultimately show ?thesis using inv progress unfolding spsc_inv_def by blast
qed

theorem ring_buffer_spsc_witness:
  "spsc_step\<^sup>*\<^sup>* (spsc_start 0 1 [5, 6::nat])
     \<lparr>sp_todo = [6], sp_ring = \<lparr>rb_buf = [5], read_pos = 0, write_pos = 0, rb_count = 1, rb_stopped = False\<rparr>, sp_got = [], sp_ended = False\<rparr>
   \<and> rb_pop \<lparr>rb_buf = [5::nat], read_pos = 0, write_pos = 0, rb_count = 1, rb_stopped = False\<rparr> \<noteq> None"
proof -
  let ?r = "\<lparr>rb_buf = [5::nat], read_pos = 0, write_pos = 0, rb_count = 1, rb_stopped = False\<rparr>"
  let ?s = "\<lparr>sp_todo = [6], sp_ring = ?r, sp_got = [], sp_ended = False\<rparr>"
  have "rb_push 5 (RingBuffer 0 1) = Some ?r" by (simp add: rb_push_def RingBuffer_def)
  then have "spsc_step (spsc_start 0 1 [5, 6]) ?s"
    using spsc_push [of "spsc_start 0 1 [5, 6]" 5 "[6]" ?r] by (simp add: spsc_start_def)
  then have r: "spsc_step\<^sup>*\<^sup>* (spsc_start 0 1 [5, 6]) ?s" by simp
  have "rb_push 6 ?r = None" by (simp add: rb_push_def)
  moreover have "sp_todo ?s \<noteq> [] \<and> rb_push (hd (sp_todo ?s)) (sp_ring ?s) \<noteq> None \<or> rb_pop (sp_ring ?s) \<noteq> None"
    using ring_buffer_spsc [OF r, THEN conjunct2, THEN conjunct2, THEN conjunct2, THEN conjunct2, THEN conjunct1] by simp
  ultimately have "rb_pop ?r \<noteq> None" by simp
  with r show ?thesis by (rule conjI)
qed



end
