(* ===== verification/Doubles.thy ===== *)
theory Doubles
  imports Complex_Main "HOL-Library.Log_Nat"
begin

text \<open>
  Double-precision arithmetic, as far as the service uses it. A finite double is a rational number;
  every operation is the exact one followed by \<open>dbl\<close>, which rounds to the nearest number with a
  significand of 53 bits, ties to even. The exponent is unbounded: the quantities computed stay far
  away from both ends of its range. Only a division can leave the finite numbers, so its result is
  a \<open>double\<close>, finite or positive infinity.
\<close>

section \<open>Rounding\<close>

definition round_even :: "rat \<Rightarrow> int" where
  "round_even y =
     (let f = \<lfloor>y\<rfloor>; r = y - of_int f
      in if r < 1 / 2 then f else if r > 1 / 2 then f + 1 else if even f then f else f + 1)"

text \<open>The exponent of the last bit of the significand.\<close>

definition ulp_exp :: "rat \<Rightarrow> int" where
  "ulp_exp x =
     (let (p, q) = quotient_of \<bar>x\<bar>;
          e = bitlen p - bitlen q - 53
      in if \<bar>x\<bar> < 2 powi (e + 53) then e else e + 1)"

definition dbl :: "rat \<Rightarrow> rat" where
  "dbl x = (if x = 0 then 0 else of_int (round_even (x / 2 powi ulp_exp x)) * 2 powi ulp_exp x)"

datatype double = Finite rat | Infinity

definition dbl_div :: "rat \<Rightarrow> rat \<Rightarrow> double" where
  "dbl_div x y = (if y = 0 then Infinity else Finite (dbl (x / y)))"

text \<open>Numbers that a double can hold.\<close>

definition representable :: "rat \<Rightarrow> bool" where
  "representable x \<longleftrightarrow> (\<exists>m e. x = of_int m * 2 powi e \<and> \<bar>m\<bar> \<le> 2 ^ 53)"

section \<open>Rounding is to the nearest\<close>

lemma round_even_near: "\<bar>of_int (round_even y) - y\<bar> \<le> 1 / 2"
proof -
  have "of_int \<lfloor>y\<rfloor> \<le> y" "y < of_int \<lfloor>y\<rfloor> + 1" by linarith+
  then show ?thesis by (auto simp: round_even_def Let_def abs_le_iff)
qed

lemma round_even_nearest: "\<bar>of_int (round_even y) - y\<bar> \<le> \<bar>of_int k - y\<bar>"
proof (cases "k = round_even y")
  case False
  then have "1 \<le> \<bar>k - round_even y\<bar>" by linarith
  then have "(1 :: rat) \<le> \<bar>of_int k - of_int (round_even y)\<bar>" by (metis of_int_1_le_iff of_int_abs of_int_diff)
  then show ?thesis using round_even_near [of y] by linarith
qed simp

lemma powi_pos [simp]: "0 < (2 :: rat) powi e"
  by (simp add: zero_less_power_int)

lemma powi_Suc: "(2 :: rat) powi (e + 1) = 2 * 2 powi e"
  by (simp add: power_int_add)

lemma bitlen_rat:
  assumes "0 < p"
  shows "2 powi (bitlen p - 1) \<le> (of_int p :: rat)" "(of_int p :: rat) < 2 powi bitlen p"
proof -
  have b: "0 \<le> bitlen p - 1" "0 \<le> bitlen p" using assms by (simp_all add: bitlen_alt_def)
  have "(2 :: int) ^ nat (bitlen p - 1) \<le> p" "p < 2 ^ nat (bitlen p)" using bitlen_bounds [OF assms] by simp_all
  then have "(of_int (2 ^ nat (bitlen p - 1)) :: rat) \<le> of_int p" "(of_int p :: rat) < of_int (2 ^ nat (bitlen p))"
    by (simp_all only: of_int_le_iff of_int_less_iff)
  then show "2 powi (bitlen p - 1) \<le> (of_int p :: rat)" "(of_int p :: rat) < 2 powi bitlen p"
    using b by (simp_all add: power_int_def)
qed

lemma ulp_exp_bounds:
  assumes "x \<noteq> 0"
  shows "2 powi (ulp_exp x + 52) \<le> \<bar>x\<bar>" "\<bar>x\<bar> < 2 powi (ulp_exp x + 53)"
proof -
  obtain p q where pq: "quotient_of \<bar>x\<bar> = (p, q)" by (cases "quotient_of \<bar>x\<bar>")
  have q: "0 < q" by (rule quotient_of_denom_pos [OF pq])
  have x: "\<bar>x\<bar> = of_int p / of_int q" by (rule quotient_of_div [OF pq])
  have "0 < (of_int p :: rat)" using assms q x by (metis zero_less_abs_iff zero_less_divide_iff of_int_0_less_iff not_less_iff_gr_or_eq)
  then have p: "0 < p" by simp
  note bp = bitlen_rat [OF p] and bq = bitlen_rat [OF q]
  let ?e = "bitlen p - bitlen q - 53"
  have q': "(0 :: rat) < of_int q" using q by simp
  have "(2 :: rat) powi (?e + 52) * of_int q \<le> 2 powi (?e + 52) * 2 powi bitlen q" using bq(2) by (intro mult_left_mono) simp_all
  also have "\<dots> = 2 powi (bitlen p - 1)" by (subst power_int_add [symmetric]) simp_all
  also have "\<dots> \<le> \<bar>x\<bar> * of_int q" using bp(1) q' x by simp
  finally have lo: "2 powi (?e + 52) \<le> \<bar>x\<bar>" using q' by (rule mult_right_le_imp_le)
  have "\<bar>x\<bar> * of_int q < 2 powi bitlen p" using bp(2) q' x by simp
  also have "(2 :: rat) powi bitlen p = 2 powi (?e + 54) * 2 powi (bitlen q - 1)"
    by (subst power_int_add [symmetric]) simp_all
  also have "\<dots> \<le> 2 powi (?e + 54) * of_int q" using bq(1) by (intro mult_left_mono) simp_all
  finally have hi: "\<bar>x\<bar> < 2 powi (?e + 54)" using q' by (simp add: mult_less_cancel_right_pos)
  show "2 powi (ulp_exp x + 52) \<le> \<bar>x\<bar>" "\<bar>x\<bar> < 2 powi (ulp_exp x + 53)"
    using lo hi by (auto simp: ulp_exp_def pq Let_def not_less)
qed

lemma dbl_0 [simp]: "dbl 0 = 0"
  by (simp add: dbl_def)

lemma dbl_near:
  assumes "x \<noteq> 0"
  shows "\<bar>dbl x - x\<bar> \<le> 2 powi ulp_exp x / 2" "\<bar>dbl x - x\<bar> \<le> \<bar>of_int k * 2 powi ulp_exp x - x\<bar>"
proof -
  let ?u = "(2 :: rat) powi ulp_exp x"
  have e: "\<bar>of_int j * ?u - x\<bar> = \<bar>of_int j - x / ?u\<bar> * ?u" for j
  proof -
    have "of_int j * ?u - x = (of_int j - x / ?u) * ?u" by (simp add: field_simps)
    then show ?thesis by (simp add: abs_mult)
  qed
  have d: "dbl x = of_int (round_even (x / ?u)) * ?u" using assms by (simp add: dbl_def)
  show "\<bar>dbl x - x\<bar> \<le> ?u / 2"
    unfolding d e using mult_right_mono [OF round_even_near [of "x / ?u"], of ?u] by simp
  show "\<bar>dbl x - x\<bar> \<le> \<bar>of_int k * ?u - x\<bar>"
    unfolding d e by (intro mult_right_mono round_even_nearest) simp
qed

lemma dbl_representable: "representable (dbl x)"
proof (cases "x = 0")
  case True
  then show ?thesis by (auto simp: representable_def intro!: exI [of _ 0])
next
  case False
  let ?u = "(2 :: rat) powi ulp_exp x" and ?m = "round_even (x / 2 powi ulp_exp x)"
  have "\<bar>x\<bar> < 2 ^ 53 * ?u" using ulp_exp_bounds(2) [OF False] by (simp add: power_int_add)
  then have "\<bar>x / ?u\<bar> < 2 ^ 53" by (simp add: abs_divide field_simps)
  then have "\<bar>of_int ?m :: rat\<bar> < 2 ^ 53 + 1" using round_even_near [of "x / ?u"] by linarith
  then have "(of_int \<bar>?m\<bar> :: rat) < of_int (2 ^ 53 + 1)" by simp
  then have "\<bar>?m\<bar> \<le> 2 ^ 53" by (simp only: of_int_less_iff)
  then show ?thesis using False by (auto simp: representable_def dbl_def)
qed

text \<open>A representable number at least as large as the smallest one with this exponent is a multiple of the last bit.\<close>

lemma representable_multiple:
  assumes "representable r" "2 powi (e + 52) \<le> r"
  obtains k where "r = of_int k * 2 powi e"
proof -
  obtain m f where m: "r = of_int m * 2 powi f" "\<bar>m\<bar> \<le> 2 ^ 53" using assms(1) by (auto simp: representable_def)
  show thesis
  proof (cases "e \<le> f")
    case True
    then have "(2 :: rat) powi f = of_int (2 ^ nat (f - e)) * 2 powi e"
      using power_int_add [of "2 :: rat" "f - e" e] by (simp add: power_int_def)
    then show thesis using m(1) by (intro that [of "m * 2 ^ nat (f - e)"]) simp
  next
    case False
    then have "2 * (2 :: rat) powi f \<le> 2 powi e"
      using power_int_increasing [of "f + 1" e "2 :: rat"] by (simp add: power_int_add)
    moreover have "(of_int m :: rat) \<le> 2 ^ 53" using m(2) by (metis abs_le_iff of_int_le_iff of_int_numeral of_int_power)
    then have "r \<le> 2 ^ 53 * 2 powi f" unfolding m(1) by (intro mult_right_mono) simp_all
    ultimately have "r \<le> 2 ^ 52 * 2 powi e" by simp
    moreover have "2 ^ 52 * 2 powi e \<le> r" using assms(2) by (simp add: power_int_add)
    ultimately show thesis by (intro that [of "2 ^ 52"]) simp
  qed
qed

lemma representable_minus: "representable r \<Longrightarrow> representable (- r)"
  unfolding representable_def by (metis abs_minus_cancel mult_minus_left of_int_minus)

lemma dbl_nearest:
  assumes "representable r"
  shows "\<bar>dbl x - x\<bar> \<le> \<bar>r - x\<bar>"
proof (cases "x = 0")
  case False
  define s where "s = (if 0 < x then 1 else - 1 :: int)"
  have sx: "of_int s * x = \<bar>x\<bar>" "of_int s * of_int s = (1 :: rat)" using False by (simp_all add: s_def)
  have rs: "representable (of_int s * r)" using assms representable_minus by (simp add: s_def)
  show ?thesis
  proof (cases "2 powi (ulp_exp x + 52) \<le> of_int s * r")
    case True
    then obtain k where "of_int s * r = of_int k * 2 powi ulp_exp x" using rs representable_multiple by metis
    then have "r = of_int (s * k) * 2 powi ulp_exp x" by (cases "0 < x") (simp_all add: s_def)
    then show ?thesis using dbl_near(2) [OF False, of "s * k"] by simp
  next
    case lt: False
    have "(2 :: rat) powi (ulp_exp x + 52) = of_int (2 ^ 52) * 2 powi ulp_exp x" by (simp add: power_int_add)
    then have "\<bar>dbl x - x\<bar> \<le> \<bar>of_int s * 2 powi (ulp_exp x + 52) - x\<bar>"
      using dbl_near(2) [OF False, of "s * 2 ^ 52"] by (simp add: mult.assoc)
    moreover have "2 powi (ulp_exp x + 52) \<le> \<bar>x\<bar>" by (rule ulp_exp_bounds(1) [OF False])
    ultimately show ?thesis using lt False by (cases "0 < x") (simp_all add: s_def)
  qed
qed simp

lemma dbl_exact: "representable x \<Longrightarrow> dbl x = x"
  using dbl_nearest [of x x] by simp

lemma dbl_mono:
  assumes "x \<le> y"
  shows "dbl x \<le> dbl y"
proof (rule ccontr)
  assume "\<not> dbl x \<le> dbl y"
  moreover have "\<bar>dbl x - x\<bar> \<le> \<bar>dbl y - x\<bar>" "\<bar>dbl y - y\<bar> \<le> \<bar>dbl x - y\<bar>"
    by (rule dbl_nearest [OF dbl_representable])+
  ultimately have "x = y" using assms by linarith
  then show False using \<open>\<not> dbl x \<le> dbl y\<close> by simp
qed

lemma dbl_nonneg: "0 \<le> x \<Longrightarrow> 0 \<le> dbl x"
  using dbl_mono [of 0 x] by simp

lemma dbl_le: "x \<le> y \<Longrightarrow> representable y \<Longrightarrow> dbl x \<le> y"
  using dbl_mono [of x y] by (simp add: dbl_exact)

lemma dbl_ge: "x \<le> y \<Longrightarrow> representable x \<Longrightarrow> x \<le> dbl y"
  using dbl_mono [of x y] by (simp add: dbl_exact)

lemma dbl_relative: "\<bar>dbl x - x\<bar> \<le> \<bar>x\<bar> / 2 ^ 53"
proof (cases "x = 0")
  case False
  have "\<bar>dbl x - x\<bar> \<le> 2 powi ulp_exp x / 2" by (rule dbl_near(1) [OF False])
  also have "\<dots> = 2 powi (ulp_exp x + 52) / 2 ^ 53" by (simp add: power_int_add)
  also have "\<dots> \<le> \<bar>x\<bar> / 2 ^ 53" using ulp_exp_bounds(1) [OF False] by (intro divide_right_mono) simp_all
  finally show ?thesis .
qed simp

section \<open>Representable numbers\<close>

lemma representableI: "\<bar>m\<bar> \<le> 2 ^ 53 \<Longrightarrow> x = of_int m * 2 powi e \<Longrightarrow> representable x"
  by (auto simp: representable_def)

lemma representable_int: "\<bar>m\<bar> \<le> 2 ^ 53 \<Longrightarrow> representable (of_int m)"
  by (rule representableI [of m _ 0]) simp_all

lemma representable_nat: "n \<le> 2 ^ 53 \<Longrightarrow> representable (of_nat n)"
  using representable_int [of "int n"] by simp

lemma representable_half: "representable x \<Longrightarrow> representable (x / 2)"
proof -
  assume "representable x"
  then obtain m e where "x = of_int m * 2 powi e" "\<bar>m\<bar> \<le> 2 ^ 53" by (auto simp: representable_def)
  then show ?thesis by (intro representableI [of m _ "e - 1"]) (simp_all add: power_int_diff)
qed

lemma representable_quarter: "\<bar>m\<bar> \<le> 2 ^ 53 \<Longrightarrow> representable (of_int m / 4)"
  using representable_half [OF representable_half [OF representable_int]] by simp

end
