(* ===== verification/Clock_Calibrator.thy ===== *)
theory Clock_Calibrator
  imports Prelude Doubles
begin

text \<open>
  The online clock calibration of the device service (src/clock\_calibrator.cpp): a straight line is
  fitted through the points (sample number, interrupt time) with running means and co-moments, so
  that no large sums are formed. The arithmetic is that of theory Doubles: every operation is
  rounded, in the order of the source and without fusing a product with a sum. The strings that say
  why a calibration failed are modelled up to the numbers printed in them.
\<close>

section \<open>Model\<close>

abbreviation (input) "kMaxSeqJump \<equiv> 1000 :: u32"

definition kMaxRepeatedFraction :: rat where
  "kMaxRepeatedFraction = dbl (1 / 100)"

datatype cal_reason = No_reason | Sequence_restarted u32 | Nominal_unknown | Too_few u64 u64 | Batched u64

record CalibrationResult =
  cr_ok :: bool
  cr_reason :: cal_reason
  cr_samples :: u64
  cr_nominal_hz :: u32
  cr_measured_hz :: double
  cr_drift_ppm :: double
  cr_duration_s :: rat
  cr_gaps :: u64
  cr_repeated_timestamps :: u64

record Fit =
  f_nominal_hz :: u32
  f_have_first :: bool
  f_broken :: bool
  f_broken_reason :: cal_reason
  f_last_seq :: u32
  f_last_ts :: "64 word"
  f_first_ts :: "64 word"
  f_x :: rat
  f_n :: u64
  f_mean_x :: rat
  f_mean_y :: rat
  f_cxx :: rat
  f_cxy :: rat
  f_gaps :: u64
  f_repeated_ts :: u64

definition cal_reset :: "u32 \<Rightarrow> Fit" where
  "cal_reset nominal_hz =
     \<lparr>f_nominal_hz = nominal_hz, f_have_first = False, f_broken = False, f_broken_reason = No_reason,
      f_last_seq = 0, f_last_ts = 0, f_first_ts = 0, f_x = 0, f_n = 0, f_mean_x = 0, f_mean_y = 0,
      f_cxx = 0, f_cxy = 0, f_gaps = 0, f_repeated_ts = 0\<rparr>"

text \<open>The co-moment update at the end of \<open>observe\<close>.\<close>

definition cal_update :: "rat \<Rightarrow> rat \<Rightarrow> Fit \<Rightarrow> Fit" where
  "cal_update x y f =
     (let n = f_n f + 1;
          nd = dbl (of_nat (unat n));
          dx = dbl (x - f_mean_x f);
          mx = dbl (f_mean_x f + dbl (dx / nd));
          my = dbl (f_mean_y f + dbl (dbl (y - f_mean_y f) / nd))
      in f\<lparr>f_n := n, f_mean_x := mx, f_mean_y := my,
           f_cxx := dbl (f_cxx f + dbl (dx * dbl (x - mx))),
           f_cxy := dbl (f_cxy f + dbl (dx * dbl (y - my)))\<rparr>)"

definition cal_observe :: "u32 \<Rightarrow> 64 word \<Rightarrow> Fit \<Rightarrow> Fit" where
  "cal_observe seq irq_ts_ns f =
     (if sint irq_ts_ns \<le> 0 then f
      else if f_broken f then f
      else let step = seq - f_last_seq f
           in if f_have_first f \<and> (step = 0 \<or> step > kMaxSeqJump)
              then f\<lparr>f_broken := True, f_broken_reason := Sequence_restarted step\<rparr>
              else let f1 = (if \<not> f_have_first f
                             then f\<lparr>f_have_first := True, f_first_ts := irq_ts_ns, f_x := 0\<rparr>
                             else f\<lparr>f_gaps := f_gaps f + (if step \<noteq> 1 then 1 else 0),
                                    f_repeated_ts := f_repeated_ts f + (if irq_ts_ns = f_last_ts f then 1 else 0),
                                    f_x := dbl (f_x f + of_nat (unat step))\<rparr>);
                       f2 = f1\<lparr>f_last_seq := seq, f_last_ts := irq_ts_ns\<rparr>
                   in cal_update (f_x f2) (dbl (of_int (sint irq_ts_ns - sint (f_first_ts f2)))) f2)"

definition cal_result :: "u64 \<Rightarrow> Fit \<Rightarrow> CalibrationResult" where
  "cal_result min_samples f =
     (let r = \<lparr>cr_ok = False, cr_reason = No_reason, cr_samples = f_n f, cr_nominal_hz = f_nominal_hz f,
               cr_measured_hz = Finite 0, cr_drift_ppm = Finite 0,
               cr_duration_s = (if f_n f \<noteq> 0
                 then dbl (dbl (of_int (sint (f_last_ts f) - sint (f_first_ts f))) / 10 ^ 9) else 0),
               cr_gaps = f_gaps f, cr_repeated_timestamps = f_repeated_ts f\<rparr>
      in if f_broken f then r\<lparr>cr_reason := f_broken_reason f\<rparr>
         else if f_nominal_hz f = 0 then r\<lparr>cr_reason := Nominal_unknown\<rparr>
         else if f_n f < min_samples \<or> f_n f < 2 \<or> f_cxx f \<le> 0 then r\<lparr>cr_reason := Too_few (f_n f) min_samples\<rparr>
         else if dbl (of_nat (unat (f_repeated_ts f))) > dbl (kMaxRepeatedFraction * dbl (of_nat (unat (f_n f))))
         then r\<lparr>cr_reason := Batched (f_repeated_ts f)\<rparr>
         else let spacing_ns = dbl (f_cxy f / f_cxx f);
                  hz = dbl_div (10 ^ 9) spacing_ns;
                  drift = (case hz of
                     Infinity \<Rightarrow> Infinity
                   | Finite v \<Rightarrow> Finite (dbl (dbl (dbl (v / of_nat (unat (f_nominal_hz f))) - 1) * 10 ^ 6)))
              in r\<lparr>cr_measured_hz := hz, cr_drift_ppm := drift, cr_ok := True\<rparr>)"

section \<open>The points of a run\<close>

text \<open>
  The reference: the sample numbers unwrapped to a distance from the first one, how often a step is
  not 1, and how often a time stamp repeats. A run is \<open>clean\<close> when every sample is stamped and every
  step is from 1 to 1000.
\<close>

type_synonym obs = "u32 \<times> 64 word"

definition step_of :: "obs list \<Rightarrow> nat \<Rightarrow> u32" where
  "step_of os i = fst (os ! Suc i) - fst (os ! i)"

definition position :: "obs list \<Rightarrow> nat \<Rightarrow> nat" where
  "position os i = (\<Sum>j<i. unat (step_of os j))"

definition gap_count :: "obs list \<Rightarrow> nat" where
  "gap_count os = length (filter (\<lambda>i. step_of os i \<noteq> 1) [0..<length os - 1])"

definition repeat_count :: "obs list \<Rightarrow> nat" where
  "repeat_count os = length (filter (\<lambda>i. snd (os ! Suc i) = snd (os ! i)) [0..<length os - 1])"

definition clean_run :: "obs list \<Rightarrow> bool" where
  "clean_run os \<longleftrightarrow>
     (\<forall>i < length os. 0 < sint (snd (os ! i)))
     \<and> (\<forall>i. Suc i < length os \<longrightarrow> step_of os i \<noteq> 0 \<and> step_of os i \<le> kMaxSeqJump)"

definition cal_run :: "u32 \<Rightarrow> obs list \<Rightarrow> Fit" where
  "cal_run nominal os = fold (\<lambda>(seq, ts). cal_observe seq ts) os (cal_reset nominal)"

lemma cal_run_snoc: "cal_run h (os @ [z]) = cal_observe (fst z) (snd z) (cal_run h os)"
  by (simp add: cal_run_def case_prod_beta)

lemma step_of_append: "Suc i < length os \<Longrightarrow> step_of (os @ zs) i = step_of os i"
  by (simp add: step_of_def nth_append)

lemma step_of_last: "os \<noteq> [] \<Longrightarrow> step_of (os @ [z]) (length os - 1) = fst z - fst (last os)"
  by (simp add: step_of_def nth_append last_conv_nth)

lemma snoc_range: "os \<noteq> [] \<Longrightarrow> [0..<length (os @ [z]) - 1] = [0..<length os - 1] @ [length os - 1]"
  by (cases os) simp_all

lemma gap_count_snoc:
  assumes "os \<noteq> []"
  shows "gap_count (os @ [z]) = gap_count os + (if fst z - fst (last os) \<noteq> 1 then 1 else 0)"
proof -
  have "filter (\<lambda>i. step_of (os @ [z]) i \<noteq> 1) [0..<length os - 1] = filter (\<lambda>i. step_of os i \<noteq> 1) [0..<length os - 1]"
    by (intro filter_cong) (auto simp: step_of_append)
  then show ?thesis unfolding gap_count_def snoc_range [OF assms] using step_of_last [OF assms, of z] by simp
qed

lemma repeat_count_snoc:
  assumes "os \<noteq> []"
  shows "repeat_count (os @ [z]) = repeat_count os + (if snd z = snd (last os) then 1 else 0)"
proof -
  have "filter (\<lambda>i. snd ((os @ [z]) ! Suc i) = snd ((os @ [z]) ! i)) [0..<length os - 1]
      = filter (\<lambda>i. snd (os ! Suc i) = snd (os ! i)) [0..<length os - 1]"
    by (intro filter_cong) (auto simp: nth_append)
  then show ?thesis unfolding repeat_count_def snoc_range [OF assms] using assms by (simp add: nth_append last_conv_nth)
qed

lemma position_snoc:
  assumes "os \<noteq> []"
  shows "position (os @ [z]) (length os) = position os (length os - 1) + unat (fst z - fst (last os))"
proof -
  obtain m where m: "length os = Suc m" using assms by (cases "length os") auto
  have "position (os @ [z]) m = position os m"
    unfolding position_def by (intro sum.cong) (auto simp: step_of_append m)
  then show ?thesis using step_of_last [OF assms, of z] by (simp add: position_def m)
qed

lemma counts_le: "gap_count os \<le> length os" "repeat_count os \<le> length os"
  using length_filter_le [of _ "[0..<length os - 1]"] unfolding gap_count_def repeat_count_def
  by (metis (no_types, lifting) diff_le_self diff_zero le_trans length_upt)+

lemma clean_run_snocD:
  assumes "clean_run (os @ [z])"
  shows "clean_run os" "0 < sint (snd z)"
    "os \<noteq> [] \<Longrightarrow> fst z - fst (last os) \<noteq> 0 \<and> fst z - fst (last os) \<le> kMaxSeqJump"
proof -
  have a: "\<forall>i < length os. 0 < sint (snd (os ! i))"
    using assms unfolding clean_run_def by (metis length_append_singleton less_Suc_eq nth_append)
  have b: "step_of os i \<noteq> 0 \<and> step_of os i \<le> kMaxSeqJump" if "Suc i < length os" for i
    using assms that step_of_append [OF that, of "[z]"] unfolding clean_run_def
    by (elim conjE allE [of _ i]) simp
  show "clean_run os" using a b unfolding clean_run_def by blast
  show "0 < sint (snd z)" using assms unfolding clean_run_def by (metis length_append_singleton lessI nth_append_length)
  assume "os \<noteq> []"
  then obtain m where m: "length os = Suc m" by (cases "length os") auto
  then have "step_of (os @ [z]) m = fst z - fst (last os)"
    using \<open>os \<noteq> []\<close> by (simp add: step_of_def nth_append last_conv_nth)
  moreover have "Suc m < length (os @ [z])" using m by simp
  ultimately show "fst z - fst (last os) \<noteq> 0 \<and> fst z - fst (last os) \<le> kMaxSeqJump"
    using assms unfolding clean_run_def by metis
qed

section \<open>The accumulator along a clean run\<close>

text \<open>
  The mean of the sample numbers stays between zero and the newest one, rounding included; so the
  increments of the second moment are never negative, and from the second sample on it is positive.
\<close>

definition x_moments :: "nat \<Rightarrow> Fit \<Rightarrow> bool" where
  "x_moments n f \<longleftrightarrow>
     0 \<le> f_mean_x f \<and> f_mean_x f \<le> f_x f \<and> representable (f_cxx f) \<and> 0 \<le> f_cxx f \<and> (2 \<le> n \<longrightarrow> 0 < f_cxx f)
     \<and> (n \<le> 1 \<longrightarrow> f_mean_x f = 0 \<and> f_x f = 0)"

lemma mean_step:
  assumes "0 \<le> m" "m \<le> x" "representable x" "2 \<le> n"
  shows "0 \<le> dbl (m + dbl (dbl (x - m) / of_nat n))" "dbl (m + dbl (dbl (x - m) / of_nat n)) \<le> x"
proof -
  let ?d = "dbl (x - m)"
  have d: "0 \<le> ?d" using assms by (intro dbl_nonneg) simp
  have "\<bar>?d - (x - m)\<bar> \<le> \<bar>x - m\<bar> / 2 ^ 53" by (rule dbl_relative)
  moreover have "\<bar>x - m\<bar> / 2 ^ 53 \<le> x - m" using assms by (simp add: divide_le_eq)
  ultimately have "?d / 2 \<le> x - m" by linarith
  moreover have "?d / of_nat n \<le> ?d / 2" using d assms(4) by (intro divide_left_mono) simp_all
  then have "dbl (?d / of_nat n) \<le> ?d / 2" by (rule dbl_le) (rule representable_half [OF dbl_representable])
  ultimately have "m + dbl (?d / of_nat n) \<le> x" by simp
  then show "dbl (m + dbl (?d / of_nat n)) \<le> x" using assms(3) by (rule dbl_le)
  have "0 \<le> dbl (?d / of_nat n)" using d by (intro dbl_nonneg) simp
  then show "0 \<le> dbl (m + dbl (?d / of_nat n))" using assms(1) by (intro dbl_nonneg) simp
qed

lemma dbl_pos:
  assumes "0 < x"
  shows "0 < dbl x"
proof -
  have "\<bar>dbl x - x\<bar> \<le> x / 2 ^ 53" using dbl_relative [of x] assms by simp
  moreover have "x / 2 ^ 53 < x" using assms by (simp add: divide_less_eq)
  ultimately show ?thesis by linarith
qed

lemma cal_update_fields:
  assumes "unat (f_n f) = n" "n < 2 ^ 43"
  shows "f_n (cal_update x y f) = f_n f + 1" "unat (f_n (cal_update x y f)) = Suc n"
    "f_mean_x (cal_update x y f) = dbl (f_mean_x f + dbl (dbl (x - f_mean_x f) / of_nat (Suc n)))"
    "f_mean_y (cal_update x y f) = dbl (f_mean_y f + dbl (dbl (y - f_mean_y f) / of_nat (Suc n)))"
    "f_cxx (cal_update x y f) = dbl (f_cxx f + dbl (dbl (x - f_mean_x f) * dbl (x - f_mean_x (cal_update x y f))))"
    "f_cxy (cal_update x y f) = dbl (f_cxy f + dbl (dbl (x - f_mean_x f) * dbl (y - f_mean_y (cal_update x y f))))"
proof -
  have n: "unat (f_n f + 1) = Suc n" using assms by (simp add: unat_word_ariths)
  have nd: "dbl (of_nat (unat (f_n f + 1))) = of_nat (Suc n)"
    unfolding n using assms(2) by (intro dbl_exact representable_nat) simp
  show "f_n (cal_update x y f) = f_n f + 1" "unat (f_n (cal_update x y f)) = Suc n"
    using n by (simp_all add: cal_update_def Let_def)
  show "f_mean_x (cal_update x y f) = dbl (f_mean_x f + dbl (dbl (x - f_mean_x f) / of_nat (Suc n)))"
    "f_mean_y (cal_update x y f) = dbl (f_mean_y f + dbl (dbl (y - f_mean_y f) / of_nat (Suc n)))"
    "f_cxx (cal_update x y f) = dbl (f_cxx f + dbl (dbl (x - f_mean_x f) * dbl (x - f_mean_x (cal_update x y f))))"
    "f_cxy (cal_update x y f) = dbl (f_cxy f + dbl (dbl (x - f_mean_x f) * dbl (y - f_mean_y (cal_update x y f))))"
    unfolding cal_update_def Let_def nd by simp_all
qed

lemma cal_update_frame [simp]:
  "f_nominal_hz (cal_update x y f) = f_nominal_hz f" "f_broken (cal_update x y f) = f_broken f"
  "f_have_first (cal_update x y f) = f_have_first f" "f_last_seq (cal_update x y f) = f_last_seq f"
  "f_last_ts (cal_update x y f) = f_last_ts f" "f_first_ts (cal_update x y f) = f_first_ts f"
  "f_x (cal_update x y f) = f_x f" "f_gaps (cal_update x y f) = f_gaps f"
  "f_repeated_ts (cal_update x y f) = f_repeated_ts f"
  by (simp_all add: cal_update_def Let_def)

text \<open>The first sample leaves everything at zero.\<close>

lemma x_moments_first:
  assumes "unat (f_n f) = 0" "f_mean_x f = 0" "f_cxx f = 0" "f_x f = 0"
  shows "x_moments 1 (cal_update (f_x f) y f)"
  using cal_update_fields [OF assms(1), of "f_x f" y] assms(2-4)
  by (simp add: x_moments_def representable_int [of 0, simplified])

lemma x_moments_step:
  assumes "x_moments n f" "unat (f_n f) = n" "1 \<le> n" "n < 2 ^ 43" "f_x f < x" "representable x"
  shows "x_moments (Suc n) (cal_update x y (f\<lparr>f_x := x\<rparr>))"
proof -
  let ?g = "cal_update x y (f\<lparr>f_x := x\<rparr>)"
  have u: "unat (f_n (f\<lparr>f_x := x\<rparr>)) = n" using assms(2) by simp
  note f = cal_update_fields [OF u assms(4), of x y]
  have m: "0 \<le> f_mean_x f" "f_mean_x f \<le> x" using assms(1,5) by (simp_all add: x_moments_def)
  have "2 \<le> Suc n" using assms(3) by simp
  note ms = mean_step [OF m assms(6) this]
  have mg: "0 \<le> f_mean_x ?g" "f_mean_x ?g \<le> x" using ms f(3) by simp_all
  let ?inc = "dbl (dbl (x - f_mean_x f) * dbl (x - f_mean_x ?g))"
  have inc: "0 \<le> ?inc" using m mg by (intro dbl_nonneg mult_nonneg_nonneg) simp_all
  have cxx: "f_cxx ?g = dbl (f_cxx f + ?inc)" using f(5) by simp
  have rep: "representable (f_cxx f)" and nn: "0 \<le> f_cxx f" using assms(1) by (simp_all add: x_moments_def)
  have ge: "f_cxx f \<le> f_cxx ?g" unfolding cxx using inc rep by (intro dbl_ge) simp_all
  have "0 < f_cxx ?g"
  proof (cases "2 \<le> n")
    case True
    then show ?thesis using ge assms(1) by (simp add: x_moments_def)
  next
    case False
    then have n: "n = 1" using assms(3) by simp
    then have z: "f_mean_x f = 0" "0 < x" using assms(1,5) by (simp_all add: x_moments_def)
    have xx: "dbl x = x" by (rule dbl_exact [OF assms(6)])
    have x2: "dbl (x / 2) = x / 2" by (rule dbl_exact [OF representable_half [OF assms(6)]])
    have mg2: "f_mean_x ?g = x / 2" using f(3) by (simp add: n z xx x2)
    have "?inc = dbl (x * (x / 2))" by (simp add: mg2 z(1) xx x2 flip: times_divide_eq_right)
    then have "0 < ?inc" using z(2) by (simp add: dbl_pos)
    then show ?thesis unfolding cxx using nn by (intro dbl_pos) simp
  qed
  then show ?thesis using mg dbl_representable [of "f_cxx f + ?inc"] assms(3) by (simp add: x_moments_def cxx)
qed

definition fit_of :: "u32 \<Rightarrow> obs list \<Rightarrow> Fit \<Rightarrow> bool" where
  "fit_of h os f \<longleftrightarrow>
     f_nominal_hz f = h \<and> \<not> f_broken f \<and> (f_have_first f \<longleftrightarrow> os \<noteq> []) \<and> unat (f_n f) = length os
     \<and> unat (f_gaps f) = gap_count os \<and> unat (f_repeated_ts f) = repeat_count os \<and> x_moments (length os) f
     \<and> (if os = [] then f_cxx f = 0
        else f_last_seq f = fst (last os) \<and> f_last_ts f = snd (last os) \<and> f_first_ts f = snd (os ! 0)
          \<and> f_x f = of_nat (position os (length os - 1)) \<and> position os (length os - 1) \<le> 1000 * (length os - 1))"

text \<open>One observation of a clean run, spelled out: the first, and any later one.\<close>

lemma cal_observe_first:
  assumes "fit_of h [] f" "0 < sint ts"
  shows "cal_observe seq ts f = cal_update 0 0
    (f\<lparr>f_have_first := True, f_first_ts := ts, f_x := 0, f_last_seq := seq, f_last_ts := ts\<rparr>)"
  using assms by (simp add: cal_observe_def fit_of_def Let_def)

lemma cal_observe_next:
  assumes "fit_of h os f" "os \<noteq> []" "clean_run (os @ [z])" "length os < 2 ^ 43"
  shows "cal_observe (fst z) (snd z) f
    = cal_update (of_nat (position (os @ [z]) (length os))) (dbl (of_int (sint (snd z) - sint (snd (os ! 0)))))
        (f\<lparr>f_gaps := f_gaps f + (if fst z - fst (last os) \<noteq> 1 then 1 else 0),
           f_repeated_ts := f_repeated_ts f + (if snd z = snd (last os) then 1 else 0),
           f_last_seq := fst z, f_last_ts := snd z, f_x := of_nat (position (os @ [z]) (length os))\<rparr>)"
    and "position (os @ [z]) (length os) \<le> 1000 * length os" "f_x f < of_nat (position (os @ [z]) (length os))"
proof -
  note c = clean_run_snocD [OF assms(3)]
  let ?s = "fst z - fst (last os)"
  have f: "f_last_seq f = fst (last os)" "f_last_ts f = snd (last os)" "f_first_ts f = snd (os ! 0)" "f_have_first f"
    "\<not> f_broken f" "f_x f = of_nat (position os (length os - 1))" "position os (length os - 1) \<le> 1000 * (length os - 1)"
    using assms(1,2) by (simp_all add: fit_of_def)
  have s: "?s \<noteq> 0" "\<not> kMaxSeqJump < ?s" using c(3) [OF assms(2)] by (simp_all add: not_less)
  have p: "position (os @ [z]) (length os) = position os (length os - 1) + unat ?s" by (rule position_snoc [OF assms(2)])
  have "unat ?s \<le> 1000" using s(2) by (simp add: word_less_nat_alt)
  then show le: "position (os @ [z]) (length os) \<le> 1000 * length os" using p f(7) assms(2) by (cases os) auto
  have "0 < unat ?s" using s(1) by (metis gr_zeroI unat_eq_0)
  then show "f_x f < of_nat (position (os @ [z]) (length os))" 
    unfolding f(6) p of_nat_less_iff by simp
  have "f_x f + of_nat (unat ?s) = of_nat (position (os @ [z]) (length os))" unfolding f(6) p by (simp only: of_nat_add)
  moreover have "dbl (of_nat (position (os @ [z]) (length os))) = of_nat (position (os @ [z]) (length os))"
    using le assms(4) by (intro dbl_exact representable_nat) simp
  ultimately have "dbl (f_x f + of_nat (unat ?s)) = of_nat (position (os @ [z]) (length os))" by (simp only:)
  then have "cal_observe (fst z) (snd z) f
    = cal_update (of_nat (position (os @ [z]) (length os))) (dbl (of_int (sint (snd z) - sint (snd (os ! 0)))))
        (f\<lparr>f_gaps := f_gaps f + (if ?s \<noteq> 1 then 1 else 0),
           f_repeated_ts := f_repeated_ts f + (if snd z = snd (last os) then 1 else 0),
           f_x := of_nat (position (os @ [z]) (length os)), f_last_seq := fst z, f_last_ts := snd z\<rparr>)"
    using s c(2) f(3-5) unfolding cal_observe_def Let_def f(1,2) by simp
  also have "f\<lparr>f_gaps := f_gaps f + (if ?s \<noteq> 1 then 1 else 0),
           f_repeated_ts := f_repeated_ts f + (if snd z = snd (last os) then 1 else 0),
           f_x := of_nat (position (os @ [z]) (length os)), f_last_seq := fst z, f_last_ts := snd z\<rparr>
     = f\<lparr>f_gaps := f_gaps f + (if ?s \<noteq> 1 then 1 else 0),
           f_repeated_ts := f_repeated_ts f + (if snd z = snd (last os) then 1 else 0),
           f_last_seq := fst z, f_last_ts := snd z, f_x := of_nat (position (os @ [z]) (length os))\<rparr>" by simp
  finally show "cal_observe (fst z) (snd z) f
    = cal_update (of_nat (position (os @ [z]) (length os))) (dbl (of_int (sint (snd z) - sint (snd (os ! 0)))))
        (f\<lparr>f_gaps := f_gaps f + (if ?s \<noteq> 1 then 1 else 0),
           f_repeated_ts := f_repeated_ts f + (if snd z = snd (last os) then 1 else 0),
           f_last_seq := fst z, f_last_ts := snd z, f_x := of_nat (position (os @ [z]) (length os))\<rparr>)" .
qed

lemma unat_bump: "unat (w :: u64) < 2 ^ 43 \<Longrightarrow> unat (w + (if P then 1 else 0)) = unat w + (if P then 1 else 0)"
  by (simp add: unat_word_ariths)

lemma fit_of_step:
  assumes "fit_of h os f" "clean_run (os @ [z])" "length os < 2 ^ 43"
  shows "fit_of h (os @ [z]) (cal_observe (fst z) (snd z) f)"
proof (cases "os = []")
  case True
  let ?g = "f\<lparr>f_have_first := True, f_first_ts := snd z, f_x := 0, f_last_seq := fst z, f_last_ts := snd z\<rparr>"
  have n: "unat (f_n ?g) = 0" using assms(1) True by (simp add: fit_of_def)
  have "x_moments 1 (cal_update (f_x ?g) 0 ?g)"
    using assms(1) True by (intro x_moments_first) (simp_all add: fit_of_def x_moments_def)
  moreover have "cal_observe (fst z) (snd z) f = cal_update 0 0 ?g"
    using assms(1) True clean_run_snocD(2) [OF assms(2)] by (intro cal_observe_first) simp_all
  ultimately show ?thesis using assms(1) True cal_update_fields(2) [OF n, of 0 0]
    by (simp add: fit_of_def position_def gap_count_def repeat_count_def)
next
  case False
  note o = cal_observe_next [OF assms(1) False assms(2,3)]
  let ?x = "of_nat (position (os @ [z]) (length os)) :: rat"
  let ?f = "f\<lparr>f_gaps := f_gaps f + (if fst z - fst (last os) \<noteq> 1 then 1 else 0),
           f_repeated_ts := f_repeated_ts f + (if snd z = snd (last os) then 1 else 0),
           f_last_seq := fst z, f_last_ts := snd z\<rparr>"
  have n: "unat (f_n ?f) = length os" "f_x ?f < ?x" using assms(1) o(3) by (simp_all add: fit_of_def)
  have m: "x_moments (length os) ?f" using assms(1) by (simp add: fit_of_def x_moments_def)
  have r: "representable ?x" using o(2) assms(3) by (intro representable_nat) simp
  have one: "1 \<le> length os" using False by (cases os) simp_all
  have u: "unat (f_n (?f\<lparr>f_x := ?x\<rparr>)) = length os" using n by simp
  have cnt: "unat (f_gaps f) = gap_count os" "unat (f_repeated_ts f) = repeat_count os"
    using assms(1) by (simp_all add: fit_of_def)
  have small: "unat (f_gaps f) < 2 ^ 43" "unat (f_repeated_ts f) < 2 ^ 43"
    unfolding cnt using counts_le [of os] assms(3) by linarith+
  show ?thesis
    unfolding o(1) using x_moments_step [OF m n(1) one assms(3) n(2) r] cal_update_fields(2) [OF u assms(3)]
      assms(1) False o(2) unat_bump [OF small(1)] unat_bump [OF small(2)]
    by (simp add: fit_of_def gap_count_snoc repeat_count_snoc nth_append cnt)
qed

lemma fit_of_run: "clean_run os \<Longrightarrow> length os < 2 ^ 43 \<Longrightarrow> fit_of h os (cal_run h os)"
proof (induction os rule: rev_induct)
  case Nil
  show ?case
    by (simp add: fit_of_def cal_run_def cal_reset_def x_moments_def gap_count_def repeat_count_def
        representable_int [of 0, simplified])
next
  case (snoc z os)
  then have "fit_of h os (cal_run h os)" using clean_run_snocD(1) by simp
  then show ?case using fit_of_step snoc.prems by (simp add: cal_run_snoc)
qed

section \<open>The verdict\<close>

text \<open>The rounded comparison with one percent decides exactly as the rational one does.\<close>

lemma repeated_threshold:
  assumes "n < 2 ^ 43" "k \<le> n"
  shows "dbl (of_nat k) > dbl (kMaxRepeatedFraction * dbl (of_nat n)) \<longleftrightarrow> n < 100 * k"
proof -
  let ?c = kMaxRepeatedFraction
  have kd: "dbl (of_nat k) = of_nat k" and nd: "dbl (of_nat n) = of_nat n" and rk: "representable (of_nat k)"
    using assms by (auto intro!: dbl_exact representable_nat)
  have c: "1 / 100 \<le> ?c" "?c \<le> 1 / 100 + 1 / 2 ^ 58" by code_simp+
  show ?thesis
  proof
    assume "n < 100 * k"
    then have "n + 1 \<le> 100 * k" by simp
    then have "(of_nat (n + 1) :: rat) \<le> of_nat (100 * k)" by (simp only: of_nat_le_iff)
    then have k: "of_nat n / 100 + 1 / 100 \<le> (of_nat k :: rat)" by simp
    have n: "(of_nat n :: rat) < 2 ^ 43" using assms(1) by (metis of_nat_less_iff of_nat_numeral of_nat_power)
    let ?t = "?c * of_nat n"
    have "?t \<le> (1 / 100 + 1 / 2 ^ 58) * of_nat n" using c(2) by (intro mult_right_mono) simp_all
    then have t: "?t \<le> of_nat n / 100 + of_nat n / 2 ^ 58" by (simp add: distrib_right)
    have e: "of_nat n / 2 ^ 58 < (1 :: rat) / 400" using n by simp
    have "\<bar>?t\<bar> = ?t" using c(1) by simp
    then have "\<bar>dbl ?t - ?t\<bar> \<le> ?t / 2 ^ 53" using dbl_relative [of ?t] by (simp only:)
    moreover have "?t / 2 ^ 53 < 1 / 400" using t n by simp
    ultimately have "dbl ?t < of_nat n / 100 + 1 / 100" using t e by linarith
    then show "dbl (of_nat k) > dbl (?c * dbl (of_nat n))" using k kd nd by simp
  next
    assume "dbl (of_nat k) > dbl (?c * dbl (of_nat n))"
    then have lt: "dbl (?c * of_nat n) < of_nat k" by (simp add: kd nd)
    show "n < 100 * k"
    proof (rule ccontr)
      assume "\<not> n < 100 * k"
      then have "(of_nat (100 * k) :: rat) \<le> of_nat n" by (simp only: of_nat_le_iff not_less)
      then have "of_nat k \<le> 1 / 100 * (of_nat n :: rat)" by simp
      also have "\<dots> \<le> ?c * of_nat n" using c(1) by (intro mult_right_mono) simp_all
      finally have "of_nat k \<le> dbl (?c * of_nat n)" using rk by (rule dbl_ge)
      then show False using lt by simp
    qed
  qed
qed

lemma broken_kept: "f_broken f \<Longrightarrow> fold (\<lambda>(seq, ts). cal_observe seq ts) zs f = f"
  by (induction zs) (auto simp: cal_observe_def)

lemma cal_result_clean:
  assumes "fit_of h os f" "length os < 2 ^ 43" "2 \<le> length os"
  shows "cr_ok (cal_result m f) \<longleftrightarrow> h \<noteq> 0 \<and> unat m \<le> length os \<and> 100 * repeat_count os \<le> length os"
    and "cr_reason (cal_result m f)
      = (if h = 0 then Nominal_unknown else if length os < unat m then Too_few (of_nat (length os)) m
         else if length os < 100 * repeat_count os then Batched (of_nat (repeat_count os)) else No_reason)"
    and "cr_samples (cal_result m f) = of_nat (length os)" "cr_gaps (cal_result m f) = of_nat (gap_count os)"
      "cr_repeated_timestamps (cal_result m f) = of_nat (repeat_count os)"
proof -
  have f: "unat (f_n f) = length os" "unat (f_gaps f) = gap_count os" "unat (f_repeated_ts f) = repeat_count os"
    "\<not> f_broken f" "f_nominal_hz f = h" "0 < f_cxx f"
    using assms(1,3) by (simp_all add: fit_of_def x_moments_def)
  have w: "f_n f = of_nat (length os)" "f_gaps f = of_nat (gap_count os)" "f_repeated_ts f = of_nat (repeat_count os)"
    unfolding f(1-3) [symmetric] by simp_all
  have lt: "f_n f < m \<longleftrightarrow> length os < unat m" "\<not> f_n f < 2" using assms(3) by (simp_all add: word_less_nat_alt f(1))
  have rep: "dbl (of_nat (unat (f_repeated_ts f))) > dbl (kMaxRepeatedFraction * dbl (of_nat (unat (f_n f))))
      \<longleftrightarrow> length os < 100 * repeat_count os"
    unfolding f(1,3) by (rule repeated_threshold [OF assms(2) counts_le(2)])
  show "cr_ok (cal_result m f) \<longleftrightarrow> h \<noteq> 0 \<and> unat m \<le> length os \<and> 100 * repeat_count os \<le> length os"
    unfolding cal_result_def Let_def rep lt(1) f(5) using f(4,6) lt(2) by auto
  show "cr_reason (cal_result m f)
      = (if h = 0 then Nominal_unknown else if length os < unat m then Too_few (of_nat (length os)) m
         else if length os < 100 * repeat_count os then Batched (of_nat (repeat_count os)) else No_reason)"
    unfolding cal_result_def Let_def rep lt(1) f(5) using f(4,6) lt(2) by (simp add: w)
  show "cr_samples (cal_result m f) = of_nat (length os)" "cr_gaps (cal_result m f) = of_nat (gap_count os)"
      "cr_repeated_timestamps (cal_result m f) = of_nat (repeat_count os)"
    unfolding cal_result_def Let_def by (simp_all add: w)
qed

section \<open>A periodic source\<close>

text \<open>
  Samples without gaps, their time stamps \<open>c\<close> nanoseconds apart: as long as the numerators of the
  moments fit in 53 bits, every intermediate result is exact.
\<close>

definition periodic :: "nat \<Rightarrow> obs list \<Rightarrow> bool" where
  "periodic c os \<longleftrightarrow>
     0 < c \<and> (\<forall>i < length os. 0 < sint (snd (os ! i)) \<and> sint (snd (os ! i)) = sint (snd (os ! 0)) + int c * int i)
     \<and> (\<forall>i. Suc i < length os \<longrightarrow> step_of os i = 1)"

lemma periodic_clean: "periodic c os \<Longrightarrow> clean_run os"
  by (auto simp: periodic_def clean_run_def)

lemma periodic_snocD:
  assumes "periodic c (os @ [z])" "os \<noteq> []"
  shows "periodic c os" "sint (snd z) - sint (snd (os ! 0)) = int c * int (length os)" "fst z - fst (last os) = 1"
proof -
  have ts: "0 < sint (snd (os ! i)) \<and> sint (snd (os ! i)) = sint (snd (os ! 0)) + int c * int i" if "i < length os" for i
    using assms that unfolding periodic_def by (auto simp: nth_append dest!: spec [of _ i])
  have st: "step_of os i = 1" if "Suc i < length os" for i
    using assms(1) that step_of_append [OF that, of "[z]"] unfolding periodic_def by auto
  show "periodic c os" using ts st assms(1) unfolding periodic_def by blast
  show "sint (snd z) - sint (snd (os ! 0)) = int c * int (length os)"
    using assms unfolding periodic_def by (auto simp: nth_append dest!: spec [of _ "length os"])
  have "Suc (length os - 1) < length (os @ [z])" using assms(2) by (cases os) simp_all
  then have "step_of (os @ [z]) (length os - 1) = 1" using assms(1) unfolding periodic_def by blast
  then show "fst z - fst (last os) = 1" using step_of_last [OF assms(2), of z] by simp
qed

lemma periodic_position: "periodic c os \<Longrightarrow> i < length os \<Longrightarrow> position os i = i"
proof (induction i)
  case (Suc i)
  then have "step_of os i = 1" by (simp add: periodic_def)
  then show ?case using Suc by (simp add: position_def)
qed (simp add: position_def)

lemma dbl_quarter: "q = of_int m / 4 \<Longrightarrow> \<bar>m\<bar> \<le> 2 ^ 53 \<Longrightarrow> dbl q = q"
  by (metis dbl_exact representable_quarter)

definition exact_moments :: "nat \<Rightarrow> nat \<Rightarrow> Fit \<Rightarrow> bool" where
  "exact_moments c n f \<longleftrightarrow>
     f_mean_x f = (of_nat n - 1) / 2 \<and> f_mean_y f = of_nat c * (of_nat n - 1) / 2
     \<and> f_cxx f = (of_nat n ^ 3 - of_nat n) / 12 \<and> f_cxy f = of_nat c * (of_nat n ^ 3 - of_nat n) / 12"

lemma cube_minus_self:
  fixes i :: int
  shows "\<exists>k. i ^ 3 - i = 3 * k"
proof -
  define q r where "q = i div 3" and "r = i mod 3"
  have i: "i = 3 * q + r" by (simp add: q_def r_def)
  have "r = 0 \<or> r = 1 \<or> r = 2" unfolding r_def by auto
  then obtain k where "r ^ 3 - r = 3 * k" by (elim disjE) (auto intro: that [of 0] that [of 2])
  then have "i ^ 3 - i = 3 * (9 * q ^ 3 + 9 * q\<^sup>2 * r + 3 * q * r\<^sup>2 - q + k)"
    unfolding i by (simp add: algebra_simps power3_eq_cube power2_eq_square)
  then show ?thesis by blast
qed

lemma exact_moments_step:
  assumes "exact_moments c n f" "unat (f_n f) = n" "1 \<le> n" "n < 2 ^ 43" "0 < c" "c * Suc n ^ 3 \<le> 2 ^ 53"
  shows "exact_moments c (Suc n) (cal_update (of_nat n) (of_nat c * of_nat n) f)"
proof -
  let ?g = "cal_update (of_nat n) (of_nat c * of_nat n) f"
  let ?n = "of_nat n :: rat" and ?c = "of_nat c :: rat"
  note u = cal_update_fields [OF assms(2,4), of ?n "?c * ?n"]
  have f: "f_mean_x f = (?n - 1) / 2" "f_mean_y f = ?c * (?n - 1) / 2"
    "f_cxx f = (?n ^ 3 - ?n) / 12" "f_cxy f = ?c * (?n ^ 3 - ?n) / 12"
    using assms(1) by (simp_all add: exact_moments_def)
  have pos: "(0 :: rat) < of_nat (Suc n)" by simp
  define N where "N = int (Suc n)"
  have N: "2 \<le> N" "int c * N ^ 3 \<le> 2 ^ 53" "1 \<le> int c"
    using assms(3,5,6) by (simp_all add: N_def flip: of_nat_power of_nat_mult of_nat_Suc)
  have mono: "a \<le> b \<Longrightarrow> 0 \<le> a \<Longrightarrow> int c * b \<le> 2 ^ 53 \<Longrightarrow> \<bar>a\<bar> \<le> 2 ^ 53 \<and> \<bar>int c * a\<bar> \<le> 2 ^ 53" for a b
  proof -
    assume a: "a \<le> b" "0 \<le> a" "int c * b \<le> 2 ^ 53"
    have "int c * a \<le> int c * b" using a(1) by (intro mult_left_mono) simp_all
    moreover have "1 * a \<le> int c * a" using N(3) a(2) by (intro mult_right_mono) simp_all
    ultimately show ?thesis using a by simp
  qed
  have N2: "2 * N \<le> N ^ 3" "N * N \<le> N ^ 3"
  proof -
    have "2 * N \<le> N * N" "1 * (N * N) \<le> N * (N * N)" using N(1) by (intro mult_right_mono; simp)+
    then show "2 * N \<le> N ^ 3" "N * N \<le> N ^ 3" by (simp_all add: power3_eq_cube mult.assoc)
  qed
  have b1: "\<bar>2 * N\<bar> \<le> 2 ^ 53" "\<bar>int c * (2 * N)\<bar> \<le> 2 ^ 53" using mono [OF N2(1) _ N(2)] N(1) by simp_all
  have le: "0 \<le> N * (N - 1)" "N * (N - 1) \<le> N ^ 3" using N(1) N2(2) by (simp_all add: algebra_simps)
  have b2: "\<bar>N * (N - 1)\<bar> \<le> 2 ^ 53" "\<bar>int c * (N * (N - 1))\<bar> \<le> 2 ^ 53" using mono [OF le(2,1) N(2)] by simp_all
  obtain k where k: "N ^ 3 - N = 3 * k" using cube_minus_self by blast
  have "0 \<le> k" "k \<le> N ^ 3" using k N2(1) N(1) by linarith+
  then have b3: "\<bar>k\<bar> \<le> 2 ^ 53" "\<bar>int c * k\<bar> \<le> 2 ^ 53" using mono [OF _ _ N(2)] by simp_all
  have Nn: "(of_int N :: rat) = ?n + 1" by (simp add: N_def)
  have k': "(of_int k :: rat) = ((?n + 1) ^ 3 - (?n + 1)) / 3"
    using arg_cong [OF k, of "of_int :: int \<Rightarrow> rat"] by (simp add: Nn)
  have dx: "dbl (?n - f_mean_x f) = (?n + 1) / 2"
    using dbl_quarter [of "(?n + 1) / 2" "2 * N"] b1 by (simp add: f Nn field_simps)
  have dy: "dbl (?c * ?n - f_mean_y f) = ?c * (?n + 1) / 2"
    using dbl_quarter [of "?c * (?n + 1) / 2" "int c * (2 * N)"] b1 by (simp add: f Nn field_simps)
  have half: "(?n + 1) / 2 / of_nat (Suc n) = 1 / 2" "?c * (?n + 1) / 2 / of_nat (Suc n) = ?c / 2"
    using pos by (simp_all add: field_simps)
  have r: "dbl (1 / 2) = 1 / 2" using dbl_quarter [of "1 / 2" 2] by simp
  have le1: "2 * (N - 1) \<le> N ^ 3" "(2 :: int) \<le> N ^ 3"
    using order_trans [OF _ N2(1), of "2 * (N - 1)"] order_trans [OF _ N2(1), of 2] N(1) by simp_all
  have rc: "dbl (?c / 2) = ?c / 2"
    using dbl_quarter [of "?c / 2" "int c * 2"] mono [OF le1(2) _ N(2)] by simp
  have b4: "\<bar>2 * (N - 1)\<bar> \<le> 2 ^ 53" "\<bar>int c * (2 * (N - 1))\<bar> \<le> 2 ^ 53" using mono [OF le1(1) _ N(2)] N(1) by simp_all
  have hn: "dbl (?n / 2) = ?n / 2" using dbl_quarter [of "?n / 2" "2 * (N - 1)"] b4 by (simp add: Nn)
  have hc: "dbl (?c * ?n / 2) = ?c * ?n / 2"
    using dbl_quarter [of "?c * ?n / 2" "int c * (2 * (N - 1))"] b4 by (simp add: Nn)
  have mx: "f_mean_x ?g = ?n / 2"
  proof -
    have "f_mean_x f + 1 / 2 = ?n / 2" by (simp add: f field_simps)
    then show ?thesis unfolding u(3) dx half r by (simp only: hn)
  qed
  have my: "f_mean_y ?g = ?c * ?n / 2"
  proof -
    have "f_mean_y f + ?c / 2 = ?c * ?n / 2" by (simp add: f field_simps)
    then show ?thesis unfolding u(4) dy half rc by (simp only: hc)
  qed
  have cxx: "f_cxx ?g = ((?n + 1) ^ 3 - (?n + 1)) / 12"
  proof -
    have "dbl ((?n + 1) / 2 * (?n / 2)) = (?n + 1) / 2 * (?n / 2)"
      by (rule dbl_quarter [OF _ b2(1)]) (simp add: Nn)
    moreover have "?n - ?n / 2 = ?n / 2" by simp
    ultimately have "f_cxx ?g = dbl (f_cxx f + (?n + 1) / 2 * (?n / 2))" unfolding u(5) mx dx by (simp only: hn)
    also have "f_cxx f + (?n + 1) / 2 * (?n / 2) = ((?n + 1) ^ 3 - (?n + 1)) / 12"
      by (simp add: f power3_eq_cube field_simps)
    also have "dbl \<dots> = \<dots>" by (rule dbl_quarter [OF _ b3(1)]) (simp add: k')
    finally show ?thesis .
  qed
  have cxy: "f_cxy ?g = ?c * ((?n + 1) ^ 3 - (?n + 1)) / 12"
  proof -
    have "dbl ((?n + 1) / 2 * (?c * ?n / 2)) = (?n + 1) / 2 * (?c * ?n / 2)"
      by (rule dbl_quarter [OF _ b2(2)]) (simp add: Nn)
    moreover have "?c * ?n - ?c * ?n / 2 = ?c * ?n / 2" by simp
    ultimately have "f_cxy ?g = dbl (f_cxy f + (?n + 1) / 2 * (?c * ?n / 2))" unfolding u(6) my dx by (simp only: hc)
    also have "f_cxy f + (?n + 1) / 2 * (?c * ?n / 2) = ?c * ((?n + 1) ^ 3 - (?n + 1)) / 12"
      by (simp add: f power3_eq_cube field_simps)
    also have "dbl \<dots> = \<dots>" by (rule dbl_quarter [OF _ b3(2)]) (simp add: k')
    finally show ?thesis .
  qed
  show ?thesis using mx my cxx cxy by (simp add: exact_moments_def add.commute)
qed

lemma exact_moments_run:
  assumes "periodic c os" "os \<noteq> []" "c * length os ^ 3 \<le> 2 ^ 53" "length os < 2 ^ 43"
  shows "exact_moments c (length os) (cal_run h os)"
  using assms
proof (induction os rule: rev_induct)
  case (snoc z os)
  have cl: "clean_run (os @ [z])" by (rule periodic_clean [OF snoc.prems(1)])
  have fo: "fit_of h os (cal_run h os)"
    using snoc.prems(4) clean_run_snocD(1) [OF cl] by (intro fit_of_run) simp_all
  have c0: "0 < c" using snoc.prems(1) by (simp add: periodic_def)
  show ?case
  proof (cases "os = []")
    case True
    let ?g = "(cal_run h [])\<lparr>f_have_first := True, f_first_ts := snd z, f_x := 0, f_last_seq := fst z, f_last_ts := snd z\<rparr>"
    have u0: "unat (f_n ?g) = 0" by (simp add: cal_run_def cal_reset_def)
    have "cal_run h (os @ [z]) = cal_update 0 0 ?g"
      unfolding cal_run_snoc True using fo True clean_run_snocD(2) [OF cl] by (intro cal_observe_first) simp_all
    then show ?thesis using cal_update_fields [OF u0, of 0 0] True
      by (simp add: exact_moments_def cal_run_def cal_reset_def)
  next
    case False
    note pd = periodic_snocD [OF snoc.prems(1) False]
    let ?n = "length os" and ?f = "cal_run h os"
    have N: "c * Suc ?n ^ 3 \<le> 2 ^ 53" using snoc.prems(3) by simp
    have "c * ?n ^ 3 \<le> c * Suc ?n ^ 3" by (intro mult_left_mono power_mono) simp_all
    then have le: "c * ?n ^ 3 \<le> 2 ^ 53" using N by (rule order_trans)
    have IH: "exact_moments c ?n ?f" using snoc.IH [OF pd(1) False le] snoc.prems(4) by simp
    have lt: "length os < 2 ^ 43" using snoc.prems(4) by simp
    note o = cal_observe_next [OF fo False cl lt]
    have pos: "position (os @ [z]) ?n = ?n" by (rule periodic_position [OF snoc.prems(1)]) simp
    have "c * ?n \<le> c * Suc ?n ^ 3" by (intro mult_left_mono) (simp_all add: power3_eq_cube)
    then have "c * ?n \<le> 2 ^ 53" using N by (rule order_trans)
    then have y: "dbl (of_int (sint (snd z) - sint (snd (os ! 0)))) = of_nat c * of_nat ?n"
      unfolding pd(2) using dbl_exact [OF representable_nat [of "c * ?n"]] by simp
    let ?g = "?f\<lparr>f_gaps := f_gaps ?f + (if fst z - fst (last os) \<noteq> 1 then 1 else 0),
           f_repeated_ts := f_repeated_ts ?f + (if snd z = snd (last os) then 1 else 0),
           f_last_seq := fst z, f_last_ts := snd z, f_x := of_nat ?n\<rparr>"
    have "exact_moments c ?n ?g" using IH by (simp add: exact_moments_def)
    moreover have "unat (f_n ?g) = ?n" using fo by (simp add: fit_of_def)
    moreover have "1 \<le> ?n" using False by (cases os) simp_all
    ultimately have "exact_moments c (Suc ?n) (cal_update (of_nat ?n) (of_nat c * of_nat ?n) ?g)"
      using lt c0 snoc.prems(3) by (intro exact_moments_step) simp_all
    then show ?thesis unfolding cal_run_snoc o(1) pos y by simp
  qed
qed simp

lemma periodic_repeats:
  assumes "periodic c os"
  shows "repeat_count os = 0"
proof -
  have "snd (os ! Suc i) \<noteq> snd (os ! i)" if "Suc i < length os" for i
  proof
    assume e: "snd (os ! Suc i) = snd (os ! i)"
    have "sint (snd (os ! j)) = sint (snd (os ! 0)) + int c * int j" if "j < length os" for j
      using assms that by (simp add: periodic_def)
    from this [of i] this [of "Suc i"] that e have "int c * int i = int c * int (Suc i)" by simp
    then show False using assms by (simp add: periodic_def)
  qed
  then show ?thesis unfolding repeat_count_def by (auto simp: filter_empty_conv)
qed

section \<open>Properties\<close>

text \<open>C21. A periodic source is measured exactly. When the samples follow one another without gaps and
  their time stamps are \<open>c\<close> nanoseconds apart, wherever the sequence numbers start and whether or
  not they wrap, the calibration succeeds and reports one billion divided by \<open>c\<close>, correctly rounded,
  with no rounding error from the fit, as long as \<open>c\<close> times the cube of the number of samples fits
  in 53 bits. A source at the nominal rate is reported at that rate with a drift of zero.\<close>

theorem calibration_periodic:
  fixes h :: u32 and m :: u64
  assumes "periodic c os" "2 \<le> length os" "c * length os ^ 3 \<le> 2 ^ 53" "length os < 2 ^ 43"
    "h \<noteq> 0" "unat m \<le> length os"
  defines "r \<equiv> cal_result m (cal_run h os)"
  shows "cr_ok r \<and> cr_measured_hz r = Finite (dbl (10 ^ 9 / of_nat c))
    \<and> (c * unat h = 10 ^ 9 \<longrightarrow> cr_measured_hz r = Finite (of_nat (unat h)) \<and> cr_drift_ppm r = Finite 0)"
proof -
  let ?f = "cal_run h os" and ?n = "length os"
  have fo: "fit_of h os ?f" by (rule fit_of_run [OF periodic_clean [OF assms(1)] assms(4)])
  have ne: "os \<noteq> []" and c0: "0 < c" using assms(1,2) by (auto simp: periodic_def)
  note e = exact_moments_run [OF assms(1) ne assms(3,4), of h]
  have ok: "cr_ok r"
    unfolding r_def cal_result_clean(1) [OF fo assms(4,2)] using assms(5,6) by (simp add: periodic_repeats [OF assms(1)])
  have "f_cxx ?f \<noteq> 0" using fo assms(2) by (simp add: fit_of_def x_moments_def)
  moreover have "f_cxy ?f = of_nat c * f_cxx ?f" using e by (simp only: exact_moments_def times_divide_eq_right)
  ultimately have "f_cxy ?f / f_cxx ?f = of_nat c" by simp
  moreover have "c * 1 \<le> c * ?n ^ 3" using assms(2) by (intro mult_left_mono) simp_all
  then have "c * 1 \<le> 2 ^ 53" using assms(3) by (rule order_trans)
  then have "dbl (of_nat c) = of_nat c" by (intro dbl_exact representable_nat) simp
  ultimately have sp: "dbl (f_cxy ?f / f_cxx ?f) = of_nat c" by simp
  have hz: "cr_measured_hz r = Finite (dbl (10 ^ 9 / of_nat c))"
    and dr: "cr_drift_ppm r = Finite (dbl (dbl (dbl (dbl (10 ^ 9 / of_nat c) / of_nat (unat h)) - 1) * 10 ^ 6))"
    using ok c0 fo unfolding r_def
    by (simp_all add: cal_result_def Let_def sp dbl_div_def fit_of_def split: if_splits)
  have "cr_measured_hz r = Finite (of_nat (unat h)) \<and> cr_drift_ppm r = Finite 0" if ch: "c * unat h = 10 ^ 9"
  proof -
    have "(of_nat c :: rat) * of_nat (unat h) = 10 ^ 9" using arg_cong [OF ch, of "of_nat :: nat \<Rightarrow> rat"] by simp
    then have q: "10 ^ 9 / of_nat c = (of_nat (unat h) :: rat)" using c0 by (simp add: field_simps)
    have "unat h < 2 ^ LENGTH(32)" by (rule unsigned_less)
    then have "dbl (of_nat (unat h)) = of_nat (unat h)" by (intro dbl_exact representable_nat) simp
    then have d: "dbl (10 ^ 9 / of_nat c) = of_nat (unat h)" by (simp only: q)
    have "unat h \<noteq> 0" using assms(5) by (simp add: unat_eq_0)
    then have "(of_nat (unat h) :: rat) / of_nat (unat h) = 1" by (metis divide_self of_nat_eq_0_iff)
    moreover have "dbl 1 = 1" using dbl_exact [OF representable_int [of 1]] by simp
    ultimately show ?thesis unfolding hz dr d by simp
  qed
  then show ?thesis using ok hz by blast
qed

definition demo_periodic :: "obs list" where
  "demo_periodic = [(0xFFFFFFFE, 5000000), (0xFFFFFFFF, 6000000), (0, 7000000), (1, 8000000)]"

theorem calibration_periodic_witness:
  "periodic 1000000 demo_periodic \<and> cr_measured_hz (cal_result 4 (cal_run 1000 demo_periodic)) = Finite 1000
   \<and> cr_drift_ppm (cal_result 4 (cal_run 1000 demo_periodic)) = Finite 0"
proof -
  have p: "periodic 1000000 demo_periodic"
    by (auto simp: periodic_def demo_periodic_def step_of_def less_Suc_eq)
  have l: "length demo_periodic = 4" by (simp add: demo_periodic_def)
  show ?thesis using calibration_periodic [OF p, of 1000 4] p by (auto simp: l)
qed

text \<open>C22. What a calibration reports of a run with steps from 1 to 1000, rounding included. It counts the
  samples, the gaps in the numbering and the repeated time stamps exactly. It succeeds if and only
  if the nominal rate is known, there are at least the demanded number of samples (and two), and at
  most one time stamp in a hundred repeats; otherwise the reason says which of these failed. A
  sequence number that repeats, goes back or jumps by more than 1000 makes every later calibration
  of the run fail, with the jump in the reason.\<close>

theorem calibration_verdict:
  fixes m :: u64 and h :: u32
  assumes "clean_run os" "length os < 2 ^ 43" "2 \<le> length os"
  defines "r \<equiv> cal_result m (cal_run h os)"
  shows "(cr_ok r \<longleftrightarrow> h \<noteq> 0 \<and> unat m \<le> length os \<and> 100 * repeat_count os \<le> length os)
    \<and> cr_reason r = (if h = 0 then Nominal_unknown else if length os < unat m then Too_few (of_nat (length os)) m
         else if length os < 100 * repeat_count os then Batched (of_nat (repeat_count os)) else No_reason)
    \<and> cr_samples r = of_nat (length os) \<and> cr_gaps r = of_nat (gap_count os)
    \<and> cr_repeated_timestamps r = of_nat (repeat_count os)
    \<and> (\<forall>seq ts zs. 0 < sint ts \<and> (seq - fst (last os) = 0 \<or> seq - fst (last os) > kMaxSeqJump) \<longrightarrow>
        \<not> cr_ok (cal_result m (cal_run h (os @ (seq, ts) # zs)))
        \<and> cr_reason (cal_result m (cal_run h (os @ (seq, ts) # zs))) = Sequence_restarted (seq - fst (last os)))"
proof -
  let ?f = "cal_run h os"
  have fo: "fit_of h os ?f" by (rule fit_of_run [OF assms(1,2)])
  have "\<not> cr_ok (cal_result m (cal_run h (os @ (seq, ts) # zs)))
        \<and> cr_reason (cal_result m (cal_run h (os @ (seq, ts) # zs))) = Sequence_restarted (seq - fst (last os))"
    if ts: "0 < sint ts" and j: "seq - fst (last os) = 0 \<or> seq - fst (last os) > kMaxSeqJump" for seq ts zs
  proof -
    have "os \<noteq> []" using assms(3) by auto
    then have l: "f_last_seq ?f = fst (last os)" "f_have_first ?f" "\<not> f_broken ?f" using fo by (simp_all add: fit_of_def)
    let ?g = "?f\<lparr>f_broken := True, f_broken_reason := Sequence_restarted (seq - fst (last os))\<rparr>"
    have "cal_observe seq ts ?f = ?g" using ts j l by (auto simp: cal_observe_def Let_def)
    then have "cal_run h (os @ (seq, ts) # zs) = ?g" by (simp add: cal_run_def) (simp add: broken_kept)
    then show ?thesis by (simp add: cal_result_def Let_def)
  qed
  then show ?thesis unfolding r_def using cal_result_clean [OF fo assms(2,3), of m] by (intro conjI) blast+
qed

definition demo_obs :: "obs list" where
  "demo_obs = [(0xFFFFFFFF, 1000), (0, 2000), (2, 2000)]"

lemma demo_obs_clean: "clean_run demo_obs"
  by (auto simp: clean_run_def demo_obs_def step_of_def less_Suc_eq)

text \<open>The sequence number wraps, one sample is lost and one time stamp repeats, one in three.\<close>

theorem calibration_verdict_witness:
  "\<not> cr_ok (cal_result 3 (cal_run 1000000 demo_obs)) \<and> cr_reason (cal_result 3 (cal_run 1000000 demo_obs)) = Batched 1
   \<and> cr_gaps (cal_result 3 (cal_run 1000000 demo_obs)) = 1
   \<and> cr_reason (cal_result 3 (cal_run 1000000 (demo_obs @ (1, 5000) # [(2, 6000)]))) = Sequence_restarted 0xFFFFFFFF"
proof -
  have l: "length demo_obs < 2 ^ 43" "2 \<le> length demo_obs" "length demo_obs = 3" by (simp_all add: demo_obs_def)
  have c: "repeat_count demo_obs = 1" "gap_count demo_obs = 1" by code_simp+
  note v = calibration_verdict [OF demo_obs_clean l(1,2), of 3 1000000, unfolded c l(3)]
  have j: "0 < sint (5000 :: 64 word) \<and> (1 - fst (last demo_obs) = 0 \<or> 1 - fst (last demo_obs) > kMaxSeqJump)"
    "1 - fst (last demo_obs) = 0xFFFFFFFF"
    by (simp_all add: demo_obs_def)
  have "cr_reason (cal_result 3 (cal_run 1000000 (demo_obs @ (1, 5000) # [(2, 6000)]))) = Sequence_restarted 0xFFFFFFFF"
    using v [THEN conjunct2, THEN conjunct2, THEN conjunct2, THEN conjunct2, THEN conjunct2, rule_format, OF j(1)] j(2)
    by (simp only:)
  then show ?thesis using v by simp
qed

end
