(* ===== verification/Acq_Worker.thy ===== *)
theory Acq_Worker
  imports Device Ring_Buffer Clock_Calibrator "HOL-Library.Signed_Division"
begin

text \<open>
  The acquisition thread of the device service and what it feeds: the sequence tracker
  (include/sequence\_tracker.hpp), the latency log (src/latency\_logger.cpp), the publisher
  (src/sample\_publisher.cpp), the worker itself (src/acquisition\_worker.cpp) and the periodic
  metrics (src/metrics.cpp). Times read from the steady clock are arguments, as integers: the
  differences the code forms of two clock readings do not reach the end of a 64-bit integer.
\<close>

section \<open>SequenceTracker\<close>

record sequence_tracker =
  st_last_seq :: "u32 option"
  st_gap_count :: u64

definition SequenceTracker :: sequence_tracker where
  "SequenceTracker = \<lparr>st_last_seq = None, st_gap_count = 0\<rparr>"

definition st_observe :: "u32 \<Rightarrow> sequence_tracker \<Rightarrow> bool \<times> sequence_tracker" where
  "st_observe seq t =
     (let is_gap = (case st_last_seq t of None \<Rightarrow> False | Some l \<Rightarrow> seq \<noteq> l + 1)
      in (is_gap, t\<lparr>st_gap_count := st_gap_count t + (if is_gap then 1 else 0), st_last_seq := Some seq\<rparr>))"

section \<open>LatencyLogger\<close>

text \<open>\<open>None\<close> is a logger with no open file. \<open>can_open\<close> is whether the path can be opened.\<close>

type_synonym latency_log = "string option"

definition int_text :: "int \<Rightarrow> string" where
  "int_text i = (if i < 0 then CHR ''-'' # dec_text (nat (- i)) else dec_text (nat i))"

definition LatencyLogger :: "string \<Rightarrow> bool \<Rightarrow> latency_log" where
  "LatencyLogger path can_open =
     (if path = [] then None
      else if can_open then Some (''seq,irq_ts_ns,recv_ts_ns,latency_ns'' @ [CHR 0x0A]) else None)"

definition log_sample :: "u32 \<Rightarrow> 64 word \<Rightarrow> int \<Rightarrow> latency_log \<Rightarrow> latency_log" where
  "log_sample seq irq_ts recv_ts_ns l =
     (case l of None \<Rightarrow> None
      | Some file \<Rightarrow> Some (file @ dec_text (unat seq) @ '','' @ int_text (sint irq_ts) @ '',''
          @ int_text recv_ts_ns @ '','' @ int_text (recv_ts_ns - sint irq_ts) @ [CHR 0x0A]))"

section \<open>SamplePublisher\<close>

text \<open>The publisher of a topic as the worker uses it: borrow a chunk, fill it, send it.\<close>

record ('c, 'p) bus_api =
  pb_loan :: "'p \<Rightarrow> 'c option \<times> 'p"
  pb_write :: "'c \<Rightarrow> custom_acq_sample \<Rightarrow> 'p \<Rightarrow> 'p"
  pb_send :: "'c \<Rightarrow> 'p \<Rightarrow> 'p"

record 'p sample_publisher =
  sp_pub :: 'p
  publish_failures :: u64

definition publish :: "('c, 'p) bus_api \<Rightarrow> custom_acq_sample \<Rightarrow> 'p sample_publisher \<Rightarrow> bool \<times> 'p sample_publisher" where
  "publish B s p =
     (case pb_loan B (sp_pub p) of
        (None, b) \<Rightarrow> (False, p\<lparr>sp_pub := b, publish_failures := publish_failures p + 1\<rparr>)
      | (Some c, b) \<Rightarrow> (True, p\<lparr>sp_pub := pb_send B c (pb_write B c s b)\<rparr>))"

section \<open>AcquisitionWorker\<close>

record 'p acq_worker =
  w_stop_requested :: bool
  samples_read :: u64
  w_tracker :: sequence_tracker
  w_last_error :: "device_error option"
  last_sample_ms :: int
  sample_age_ns :: int
  age_ewma_ns :: int
  w_failed :: bool
  w_calibrator :: "Fit option"
  w_logger :: "latency_log option"
  w_publisher :: "'p sample_publisher option"

definition AcquisitionWorker :: "latency_log option \<Rightarrow> 'p sample_publisher option \<Rightarrow> 'p acq_worker" where
  "AcquisitionWorker l p =
     \<lparr>w_stop_requested = False, samples_read = 0, w_tracker = SequenceTracker, w_last_error = None,
      last_sample_ms = 0, sample_age_ns = 0, age_ewma_ns = 0, w_failed = False, w_calibrator = None,
      w_logger = l, w_publisher = p\<rparr>"

definition worker_start :: "int \<Rightarrow> 'p acq_worker \<Rightarrow> 'p acq_worker" where
  "worker_start now_ms w =
     w\<lparr>w_stop_requested := False, w_failed := False, w_last_error := None, last_sample_ms := now_ms\<rparr>"

definition worker_stop :: "'p acq_worker \<Rightarrow> 'p acq_worker" where
  "worker_stop w = w\<lparr>w_stop_requested := True\<rparr>"

definition worker_rearm :: "int \<Rightarrow> 'p acq_worker \<Rightarrow> 'p acq_worker" where
  "worker_rearm now_ms w = w\<lparr>last_sample_ms := now_ms\<rparr>"

text \<open>The moving average of the sample age; the division of C++ truncates towards zero.\<close>

definition ewma_step :: "int \<Rightarrow> int \<Rightarrow> int" where
  "ewma_step prev age = (if prev = 0 then age else prev + (age - prev) sdiv 64)"

definition note_age :: "int \<Rightarrow> 64 word \<Rightarrow> 'p acq_worker \<Rightarrow> 'p acq_worker" where
  "note_age recv_ts_ns irq_ts w =
     (if sint irq_ts > 0
      then let age = recv_ts_ns - sint irq_ts
           in w\<lparr>sample_age_ns := age, age_ewma_ns := ewma_step (age_ewma_ns w) age\<rparr>
      else w)"

text \<open>What the loop does with a sample before it goes to the ring buffer.\<close>

definition handle_sample :: "('c, 'p) bus_api \<Rightarrow> int \<Rightarrow> int \<Rightarrow> custom_acq_sample \<Rightarrow> 'p acq_worker \<Rightarrow> 'p acq_worker" where
  "handle_sample B recv_ts_ns now_ms s w =
     (let w1 = w\<lparr>samples_read := samples_read w + 1, last_sample_ms := now_ms,
                 w_tracker := snd (st_observe (sm_seq s) (w_tracker w))\<rparr>;
          w2 = note_age recv_ts_ns (sm_irq_ts_ns s) w1;
          w3 = w2\<lparr>w_calibrator := map_option (cal_observe (sm_seq s) (sm_irq_ts_ns s)) (w_calibrator w2)\<rparr>;
          w4 = w3\<lparr>w_logger := map_option (log_sample (sm_seq s) (sm_irq_ts_ns s) recv_ts_ns) (w_logger w3)\<rparr>
      in w4\<lparr>w_publisher := map_option (\<lambda>p. snd (publish B s p)) (w_publisher w4)\<rparr>)"

definition worker_fail :: "device_error \<Rightarrow> 'p acq_worker \<Rightarrow> 'p acq_worker" where
  "worker_fail e w = w\<lparr>w_last_error := Some e, w_failed := True\<rparr>"

text \<open>
  One turn of the loop of \<open>run\<close>, up to the push: the sample to push, if one was read. An exception
  ends the thread with \<open>failed\<close> set. \<open>None\<close> is a read that never returns.
\<close>

definition run_iteration ::
  "'w os_api \<Rightarrow> ('c, 'p) bus_api \<Rightarrow> int \<Rightarrow> int \<Rightarrow> 'p acq_worker \<Rightarrow> 'w device
     \<Rightarrow> (custom_acq_sample option \<times> 'p acq_worker \<times> 'w device) option" where
  "run_iteration os B now_ns now_ms w d =
     (case wait_readable os d of
        (Inl e, d1) \<Rightarrow> Some (None, worker_fail e w, d1)
      | (Inr False, d1) \<Rightarrow> Some (None, w, d1)
      | (Inr True, d1) \<Rightarrow>
          (case read_sample os d1 of
             None \<Rightarrow> None
           | Some (Inl e, d2) \<Rightarrow> Some (None, worker_fail e w, d2)
           | Some (Inr s, d2) \<Rightarrow> Some (Some s, handle_sample B now_ns now_ms s w, d2)))"

text \<open>
  The thread: its loop, blocked in the push while \<open>at_pending\<close> holds a sample the ring has no room
  for, finished once \<open>at_exited\<close>.
\<close>

record ('p, 'w) acq_thread =
  at_worker :: "'p acq_worker"
  at_device :: "'w device"
  at_ring :: "custom_acq_sample ring_buffer"
  at_pending :: "custom_acq_sample option"
  at_exited :: bool

definition thread_step ::
  "'w os_api \<Rightarrow> ('c, 'p) bus_api \<Rightarrow> int \<Rightarrow> int \<Rightarrow> ('p, 'w) acq_thread \<Rightarrow> ('p, 'w) acq_thread option" where
  "thread_step os B now_ns now_ms t =
     (if at_exited t then Some t
      else case at_pending t of
        Some s \<Rightarrow> map_option (\<lambda>r. t\<lparr>at_ring := r, at_pending := None\<rparr>) (rb_push s (at_ring t))
      | None \<Rightarrow>
          (if w_stop_requested (at_worker t) then Some (t\<lparr>at_exited := True\<rparr>)
           else map_option (\<lambda>(p, w, d). t\<lparr>at_worker := w, at_device := d, at_pending := p, at_exited := w_failed w\<rparr>)
                  (run_iteration os B now_ns now_ms (at_worker t) (at_device t))))"

section \<open>MetricsReporter\<close>

record metrics =
  me_rate :: rat
  me_samples :: u64
  me_gap_count :: u64
  me_buffer :: nat
  me_kfifo_overflow :: u32
  me_sample_age_us :: int

text \<open>\<open>report_once\<close>; the first component is the new \<open>last_samples_read_\<close>.\<close>

definition report_once ::
  "'w os_api \<Rightarrow> int \<Rightarrow> u64 \<Rightarrow> 'p acq_worker \<Rightarrow> 'a ring_buffer \<Rightarrow> 'w device \<Rightarrow> u64 \<times> metrics \<times> 'w device" where
  "report_once os interval last_samples_read w rb d =
     (let samples = samples_read w;
          delta = samples - last_samples_read;
          rate = (if interval > 0 then of_nat (unat delta) * 1000 / of_int interval else 0);
          (ovf, d1) = read_kfifo_overflow os d
      in (samples,
          \<lparr>me_rate = rate, me_samples = samples, me_gap_count = st_gap_count (w_tracker w), me_buffer = rb_size rb,
           me_kfifo_overflow = (case ovf of Inl e \<Rightarrow> 0 | Inr v \<Rightarrow> v),
           me_sample_age_us = age_ewma_ns w sdiv 1000\<rparr>, d1))"

section \<open>Gaps\<close>

definition gap_count_of :: "u32 list \<Rightarrow> nat" where
  "gap_count_of xs = length (filter (\<lambda>(x, y). y \<noteq> x + 1) (zip xs (tl xs)))"

definition track :: "u32 list \<Rightarrow> sequence_tracker" where
  "track xs = fold (\<lambda>s t. snd (st_observe s t)) xs SequenceTracker"

lemma gap_count_of_snoc:
  "gap_count_of (xs @ [y]) = gap_count_of xs + (if xs \<noteq> [] \<and> y \<noteq> last xs + 1 then 1 else 0)"
proof (cases "xs = []")
  case False
  have "zip (xs @ [y]) (tl (xs @ [y])) = zip xs (tl xs) @ [(last xs, y)]"
    using False by (induction xs rule: list_nonempty_induct) (auto simp: neq_Nil_conv)
  then show ?thesis using False by (simp add: gap_count_of_def)
qed (simp add: gap_count_of_def)

lemma track_spec: "track xs = \<lparr>st_last_seq = (if xs = [] then None else Some (last xs)), st_gap_count = of_nat (gap_count_of xs)\<rparr>"
proof (induction xs rule: rev_induct)
  case Nil
  then show ?case by (simp add: track_def SequenceTracker_def gap_count_of_def)
next
  case (snoc y xs)
  have "track (xs @ [y]) = snd (st_observe y (track xs))" by (simp add: track_def)
  then show ?case by (simp add: snoc gap_count_of_snoc st_observe_def Let_def add.commute)
qed

lemma gap_count_of_0: "gap_count_of xs = 0 \<longleftrightarrow> (\<forall>i. Suc i < length xs \<longrightarrow> xs ! Suc i = xs ! i + 1)"
proof -
  have "gap_count_of xs = 0 \<longleftrightarrow> (\<forall>p \<in> set (zip xs (tl xs)). snd p = fst p + 1)"
    by (simp add: gap_count_of_def filter_empty_conv case_prod_beta)
  also have "\<dots> \<longleftrightarrow> (\<forall>i < length xs - 1. snd (zip xs (tl xs) ! i) = fst (zip xs (tl xs) ! i) + 1)"
    by (simp add: all_set_conv_all_nth del: nth_zip)
  also have "\<dots> \<longleftrightarrow> (\<forall>i. Suc i < length xs \<longrightarrow> xs ! Suc i = xs ! i + 1)"
    by (auto simp: nth_tl)
  finally show ?thesis .
qed

lemma consecutive_iff:
  "(\<forall>i. Suc i < length xs \<longrightarrow> xs ! Suc i = xs ! i + 1) \<longleftrightarrow> (\<forall>i < length xs. xs ! i = (xs ! 0 :: u32) + of_nat i)"
proof (intro iffI allI impI)
  fix i
  assume s: "\<forall>i. Suc i < length xs \<longrightarrow> xs ! Suc i = xs ! i + 1" and "i < length xs"
  then show "xs ! i = xs ! 0 + of_nat i" by (induction i) simp_all
next
  fix i
  assume s: "\<forall>i < length xs. xs ! i = xs ! 0 + of_nat i" and "Suc i < length xs"
  then show "xs ! Suc i = xs ! i + 1" using spec [OF s, of i] spec [OF s, of "Suc i"] by simp
qed

lemma gap_count_of_le: "gap_count_of xs \<le> length xs"
  unfolding gap_count_of_def by (rule le_trans [OF length_filter_le]) simp

section \<open>Sample ages\<close>

lemma sdiv_64: "(0 :: int) \<le> d \<Longrightarrow> d sdiv 64 = d div 64" "d \<le> (0 :: int) \<Longrightarrow> d sdiv 64 = - (- d div 64)"
  by (cases "d = 0"; simp add: signed_divide_int_def)+

lemma div_64_between: "(0 :: int) \<le> d \<Longrightarrow> 0 \<le> d div 64 \<and> d div 64 \<le> d"
  by presburger

lemma sdiv_64_between: "(0 :: int) \<le> d \<Longrightarrow> 0 \<le> d sdiv 64 \<and> d sdiv 64 \<le> d" "d \<le> (0 :: int) \<Longrightarrow> d \<le> d sdiv 64 \<and> d sdiv 64 \<le> 0"
  using div_64_between [of d] div_64_between [of "- d"] by (simp_all add: sdiv_64)

lemma ewma_step_between: "lo \<le> age \<Longrightarrow> age \<le> hi \<Longrightarrow> prev = 0 \<or> lo \<le> prev \<and> prev \<le> hi \<Longrightarrow> lo \<le> ewma_step prev age \<and> ewma_step prev age \<le> hi"
  using sdiv_64_between [of "age - prev"] by (cases "prev \<le> age") (auto simp: ewma_step_def)

lemma ewma_step_distance:
  "\<bar>age - ewma_step prev age\<bar> \<le> \<bar>age - prev\<bar>"
  "64 \<le> \<bar>age - prev\<bar> \<Longrightarrow> \<bar>age - ewma_step prev age\<bar> < \<bar>age - prev\<bar>"
proof -
  have *: "\<bar>d - d sdiv 64\<bar> = \<bar>d\<bar> - \<bar>d\<bar> div 64" for d :: int
    using div_64_between [of d] div_64_between [of "- d"] by (cases "0 \<le> d") (simp_all add: sdiv_64)
  have "\<bar>age - ewma_step prev age\<bar> = (if prev = 0 then 0 else \<bar>age - prev\<bar> - \<bar>age - prev\<bar> div 64)"
    using * [of "age - prev"] by (simp add: ewma_step_def diff_diff_eq)
  moreover have "0 \<le> \<bar>age - prev\<bar> div 64" "64 \<le> \<bar>age - prev\<bar> \<Longrightarrow> 0 < \<bar>age - prev\<bar> div 64"
    by (simp_all add: div_greater_zero_iff pos_imp_zdiv_pos_iff)
  ultimately show "\<bar>age - ewma_step prev age\<bar> \<le> \<bar>age - prev\<bar>"
    "64 \<le> \<bar>age - prev\<bar> \<Longrightarrow> \<bar>age - ewma_step prev age\<bar> < \<bar>age - prev\<bar>" by auto
qed

lemma ewma_settles: "\<bar>age - prev\<bar> < 64 + int n \<Longrightarrow> \<bar>age - ((\<lambda>e. ewma_step e age) ^^ n) prev\<bar> < 64"
proof (induction n arbitrary: prev)
  case (Suc n)
  have "\<bar>age - ewma_step prev age\<bar> < 64 + int n"
    using ewma_step_distance [of age prev] Suc.prems by (cases "64 \<le> \<bar>age - prev\<bar>") auto
  from Suc.IH [OF this] show ?case by (simp add: funpow_Suc_right del: funpow.simps)
qed simp

definition note_ages :: "(int \<times> 64 word) list \<Rightarrow> 'p acq_worker \<Rightarrow> 'p acq_worker" where
  "note_ages obs w = fold (\<lambda>(recv, irq). note_age recv irq) obs w"

lemma note_age_ewma: "age_ewma_ns (note_age r i w) = (if 0 < sint i then ewma_step (age_ewma_ns w) (r - sint i) else age_ewma_ns w)"
  by (simp add: note_age_def Let_def)

lemma note_ages_between:
  assumes "\<forall>(r, i) \<in> set obs. 0 < sint i \<longrightarrow> lo \<le> r - sint i \<and> r - sint i \<le> hi"
    "age_ewma_ns w = 0 \<or> lo \<le> age_ewma_ns w \<and> age_ewma_ns w \<le> hi"
  shows "age_ewma_ns (note_ages obs w) = 0 \<and> (\<forall>(r, i) \<in> set obs. \<not> 0 < sint i)
      \<or> lo \<le> age_ewma_ns (note_ages obs w) \<and> age_ewma_ns (note_ages obs w) \<le> hi"
  using assms
proof (induction obs rule: rev_induct)
  case Nil
  then show ?case by (auto simp: note_ages_def)
next
  case (snoc z obs)
  obtain r i where z: "z = (r, i)" by (cases z)
  have n: "note_ages (obs @ [z]) w = note_age r i (note_ages obs w)" by (simp add: note_ages_def z)
  have IH: "age_ewma_ns (note_ages obs w) = 0 \<and> (\<forall>(r, i) \<in> set obs. \<not> 0 < sint i)
      \<or> lo \<le> age_ewma_ns (note_ages obs w) \<and> age_ewma_ns (note_ages obs w) \<le> hi"
    using snoc by simp
  show ?case
  proof (cases "0 < sint i")
    case True
    then have "lo \<le> r - sint i" "r - sint i \<le> hi" using snoc.prems(1) z by auto
    from ewma_step_between [OF this] IH show ?thesis unfolding n note_age_ewma using True by auto
  next
    case False
    then show ?thesis unfolding n note_age_ewma using IH z by auto
  qed
qed

section \<open>One turn of the loop over the driver\<close>

lemma run_iteration_driver:
  fixes k :: "'k kernel_api" and d :: "('b, 'k) custom_acq device"
  assumes "kfifo_laws k items" "kfifo_copy_laws k items"
  shows "(items (samples (dev_world d)) = [] \<longrightarrow> run_iteration (driver_os X k prm) B ns ms w d = Some (None, w, d))
    \<and> (\<forall>x xs. items (samples (dev_world d)) = x # xs \<longrightarrow>
        (\<exists>q. let d' = d\<lparr>dev_world := (dev_world d)\<lparr>samples := q\<rparr>\<rparr> in
           run_iteration (driver_os X k prm) B ns ms w d = Some (None, worker_fail (Read_failed EFAULT) w, d')
           \<or> items q = xs \<and> run_iteration (driver_os X k prm) B ns ms w d = Some (Some x, handle_sample B ns ms x w, d')))"
proof (intro conjI impI allI)
  assume "items (samples (dev_world d)) = []"
  then show "run_iteration (driver_os X k prm) B ns ms w d = Some (None, w, d)"
    using kfifo_lawsD(3) [OF assms(1)]
    by (simp add: run_iteration_def wait_readable_def driver_os_def custom_acq_poll_def)
next
  fix x xs
  assume i: "items (samples (dev_world d)) = x # xs"
  then have "wait_readable (driver_os X k prm) d = (Inr True, d)"
    using kfifo_lawsD(3) [OF assms(1)]
    by (simp add: wait_readable_def driver_os_def custom_acq_poll_def)
  moreover obtain r q where "read_sample (driver_os X k prm) d = Some (r, d\<lparr>dev_world := (dev_world d)\<lparr>samples := q\<rparr>\<rparr>)"
    "r = Inl (Read_failed EFAULT) \<or> r = Inr x \<and> items q = xs"
    using read_sample_driver [OF assms i, of X prm d] by auto
  ultimately show "\<exists>q. let d' = d\<lparr>dev_world := (dev_world d)\<lparr>samples := q\<rparr>\<rparr> in
           run_iteration (driver_os X k prm) B ns ms w d = Some (None, worker_fail (Read_failed EFAULT) w, d')
           \<or> items q = xs \<and> run_iteration (driver_os X k prm) B ns ms w d = Some (Some x, handle_sample B ns ms x w, d')"
    by (auto simp: run_iteration_def Let_def intro!: exI [of _ q])
qed

section \<open>Properties\<close>

text \<open>C23. The gap counter counts exactly the places where a sequence number is not the successor of the
  one before it, modulo 2^32; each call says whether it has just counted one. It is zero exactly when
  the numbers are consecutive from the first one on, through any number of wraps.\<close>

theorem sequence_gaps:
  assumes "length xs < 2 ^ 64"
  shows "unat (st_gap_count (track xs)) = gap_count_of xs
    \<and> (fst (st_observe y (track xs)) \<longleftrightarrow> xs \<noteq> [] \<and> y \<noteq> last xs + 1)
    \<and> (st_gap_count (track xs) = 0 \<longleftrightarrow> (\<forall>i < length xs. xs ! i = xs ! 0 + of_nat i))"
proof -
  have u: "unat (st_gap_count (track xs)) = gap_count_of xs"
    using gap_count_of_le [of xs] assms by (simp add: track_spec unat_of_nat take_bit_nat_eq_self)
  then have "st_gap_count (track xs) = 0 \<longleftrightarrow> gap_count_of xs = 0" by (metis unat_0 unat_eq_0)
  then show ?thesis using u by (simp add: gap_count_of_0 consecutive_iff) (simp add: st_observe_def track_spec Let_def)
qed

theorem sequence_gaps_witness:
  "length [0xFFFFFFFE, 0xFFFFFFFF, 0, 2 :: u32] < 2 ^ 64 \<and> unat (st_gap_count (track [0xFFFFFFFE, 0xFFFFFFFF, 0, 2])) = 1"
  using sequence_gaps [of "[0xFFFFFFFE, 0xFFFFFFFF, 0, 2]"] by (simp add: gap_count_of_def)

text \<open>C24. The smoothed sample age stays between the smallest and the largest age observed since the
  worker was created, whatever their order, and samples without a time stamp do not count. Under a
  steady age it comes within 64 ns of that age, after at most as many samples as the distance in ns.\<close>

theorem sample_age_bounds:
  assumes "age_ewma_ns w = 0" "\<forall>(r, i) \<in> set obs. 0 < sint i \<longrightarrow> lo \<le> r - sint i \<and> r - sint i \<le> hi"
    "\<exists>(r, i) \<in> set obs. 0 < sint i"
  shows "lo \<le> age_ewma_ns (note_ages obs w) \<and> age_ewma_ns (note_ages obs w) \<le> hi
    \<and> (\<forall>n. \<bar>age - age_ewma_ns (note_ages obs w)\<bar> \<le> int n \<longrightarrow>
         \<bar>age - ((\<lambda>e. ewma_step e age) ^^ n) (age_ewma_ns (note_ages obs w))\<bar> < 64)"
proof -
  have "\<not> (\<forall>(r, i) \<in> set obs. \<not> 0 < sint i)" using assms(3) by auto
  then have "lo \<le> age_ewma_ns (note_ages obs w) \<and> age_ewma_ns (note_ages obs w) \<le> hi"
    using note_ages_between [OF assms(2), of w] assms(1) by blast
  moreover have "\<bar>age - ((\<lambda>e. ewma_step e age) ^^ n) (age_ewma_ns (note_ages obs w))\<bar> < 64"
    if "\<bar>age - age_ewma_ns (note_ages obs w)\<bar> \<le> int n" for n
    using that by (intro ewma_settles) linarith
  ultimately show ?thesis by blast
qed

theorem sample_age_bounds_witness:
  "300 \<le> age_ewma_ns (note_ages [(1500, 1200), (3000, 0), (2500, 1000)] (AcquisitionWorker None None :: unit acq_worker))"
  using sample_age_bounds [of "AcquisitionWorker None None :: unit acq_worker" "[(1500, 1200), (3000, 0), (2500, 1000)]" 300 1500 300]
  by (simp add: AcquisitionWorker_def)

end
