(* ===== verification/Device_State.thy ===== *)
theory Device_State
  imports Prelude
begin

text \<open>
  The machine-level states of the device service and their transition table
  (src/device\_state.cpp). Both enumerations are instances of \<open>enum\<close>, so statements about every
  state and every event are decided by evaluation.
\<close>

section \<open>Model\<close>

datatype State = Init | Ready | Running | Paused | Calibrating | Recovering | Fault | Stopped

datatype Event = InitOk | Start | Pause | Resume | Calibrate | CalibrationDone | Stall | DeviceError
  | Recovered | RecoveryFailed | Reset | Stop

definition transition :: "State \<Rightarrow> Event \<Rightarrow> State option" where
  "transition from event =
     (if event = Stop then (if from = Stopped then None else Some Stopped)
      else case from of
        Init \<Rightarrow> (if event = InitOk then Some Ready else None)
      | Ready \<Rightarrow> (case event of Start \<Rightarrow> Some Running | Calibrate \<Rightarrow> Some Calibrating
                   | DeviceError \<Rightarrow> Some Fault | _ \<Rightarrow> None)
      | Running \<Rightarrow> (case event of Pause \<Rightarrow> Some Paused | Stall \<Rightarrow> Some Recovering
                   | DeviceError \<Rightarrow> Some Fault | _ \<Rightarrow> None)
      | Paused \<Rightarrow> (case event of Resume \<Rightarrow> Some Running | Calibrate \<Rightarrow> Some Calibrating
                   | DeviceError \<Rightarrow> Some Fault | _ \<Rightarrow> None)
      | Calibrating \<Rightarrow> (case event of CalibrationDone \<Rightarrow> Some Ready | DeviceError \<Rightarrow> Some Fault | _ \<Rightarrow> None)
      | Recovering \<Rightarrow> (case event of Recovered \<Rightarrow> Some Running | RecoveryFailed \<Rightarrow> Some Fault | _ \<Rightarrow> None)
      | Fault \<Rightarrow> (if event = Reset then Some Recovering else None)
      | Stopped \<Rightarrow> None)"

definition state_to_string :: "State \<Rightarrow> string" where
  "state_to_string s =
     (case s of Init \<Rightarrow> ''Init'' | Ready \<Rightarrow> ''Ready'' | Running \<Rightarrow> ''Running'' | Paused \<Rightarrow> ''Paused''
      | Calibrating \<Rightarrow> ''Calibrating'' | Recovering \<Rightarrow> ''Recovering'' | Fault \<Rightarrow> ''Fault'' | Stopped \<Rightarrow> ''Stopped'')"

definition event_to_string :: "Event \<Rightarrow> string" where
  "event_to_string e =
     (case e of InitOk \<Rightarrow> ''InitOk'' | Start \<Rightarrow> ''Start'' | Pause \<Rightarrow> ''Pause'' | Resume \<Rightarrow> ''Resume''
      | Calibrate \<Rightarrow> ''Calibrate'' | CalibrationDone \<Rightarrow> ''CalibrationDone'' | Stall \<Rightarrow> ''Stall''
      | DeviceError \<Rightarrow> ''DeviceError'' | Recovered \<Rightarrow> ''Recovered'' | RecoveryFailed \<Rightarrow> ''RecoveryFailed''
      | Reset \<Rightarrow> ''Reset'' | Stop \<Rightarrow> ''Stop'')"

section \<open>Enumerations\<close>

instantiation State :: enum
begin

definition enum_State :: "State list" where
  "enum_State = [Init, Ready, Running, Paused, Calibrating, Recovering, Fault, Stopped]"

definition enum_all_State :: "(State \<Rightarrow> bool) \<Rightarrow> bool" where
  "enum_all_State P \<longleftrightarrow> list_all P enum_class.enum"

definition enum_ex_State :: "(State \<Rightarrow> bool) \<Rightarrow> bool" where
  "enum_ex_State P \<longleftrightarrow> list_ex P enum_class.enum"

instance
proof
  have all: "s \<in> set enum_class.enum" for s :: State by (cases s) (simp_all add: enum_State_def)
  then show "(UNIV :: State set) = set enum_class.enum" by auto
  show "distinct (enum_class.enum :: State list)" by (simp add: enum_State_def)
  show "enum_class.enum_all P \<longleftrightarrow> Ball UNIV P" for P :: "State \<Rightarrow> bool"
    using all by (auto simp: enum_all_State_def list_all_iff)
  show "enum_class.enum_ex P \<longleftrightarrow> Bex UNIV P" for P :: "State \<Rightarrow> bool"
    using all by (auto simp: enum_ex_State_def list_ex_iff)
qed

end

instantiation Event :: enum
begin

definition enum_Event :: "Event list" where
  "enum_Event = [InitOk, Start, Pause, Resume, Calibrate, CalibrationDone, Stall, DeviceError,
     Recovered, RecoveryFailed, Reset, Stop]"

definition enum_all_Event :: "(Event \<Rightarrow> bool) \<Rightarrow> bool" where
  "enum_all_Event P \<longleftrightarrow> list_all P enum_class.enum"

definition enum_ex_Event :: "(Event \<Rightarrow> bool) \<Rightarrow> bool" where
  "enum_ex_Event P \<longleftrightarrow> list_ex P enum_class.enum"

instance
proof
  have all: "e \<in> set enum_class.enum" for e :: Event by (cases e) (simp_all add: enum_Event_def)
  then show "(UNIV :: Event set) = set enum_class.enum" by auto
  show "distinct (enum_class.enum :: Event list)" by (simp add: enum_Event_def)
  show "enum_class.enum_all P \<longleftrightarrow> Ball UNIV P" for P :: "Event \<Rightarrow> bool"
    using all by (auto simp: enum_all_Event_def list_all_iff)
  show "enum_class.enum_ex P \<longleftrightarrow> Bex UNIV P" for P :: "Event \<Rightarrow> bool"
    using all by (auto simp: enum_ex_Event_def list_ex_iff)
qed

end

section \<open>The table\<close>

text \<open>The states in which a procedure of the supervisor runs, and the ones that accept a device error.\<close>

definition transient :: "State \<Rightarrow> bool" where
  "transient s \<longleftrightarrow> s = Calibrating \<or> s = Recovering"

lemma stop_accepted: "transition s Stop = (if s = Stopped then None else Some Stopped)"
  by (simp add: transition_def)

lemma into_running: "transition s e = Some Running \<longleftrightarrow>
   s = Ready \<and> e = Start \<or> s = Paused \<and> e = Resume \<or> s = Recovering \<and> e = Recovered"
  by (cases s; cases e) (simp_all add: transition_def)

lemma into_paused: "transition s e = Some Paused \<longleftrightarrow> s = Running \<and> e = Pause"
  by (cases s; cases e) (simp_all add: transition_def)

lemma into_ready: "transition s e = Some Ready \<longleftrightarrow> s = Init \<and> e = InitOk \<or> s = Calibrating \<and> e = CalibrationDone"
  by (cases s; cases e) (simp_all add: transition_def)

lemma into_fault: "transition s e = Some Fault \<longleftrightarrow>
   e = DeviceError \<and> s \<in> {Ready, Running, Paused, Calibrating} \<or> e = RecoveryFailed \<and> s = Recovering"
  by (cases s; cases e) (simp_all add: transition_def)

lemma into_stopped: "transition s e = Some Stopped \<longleftrightarrow> e = Stop \<and> s \<noteq> Stopped"
  by (cases s; cases e) (simp_all add: transition_def)

lemma never_init: "transition s e \<noteq> Some Init"
  by (cases s; cases e) (simp_all add: transition_def)

lemma into_transient: "transition s e = Some Calibrating \<longleftrightarrow> e = Calibrate \<and> s \<in> {Ready, Paused}"
  "transition s e = Some Recovering \<longleftrightarrow> e = Stall \<and> s = Running \<or> e = Reset \<and> s = Fault"
  by (cases s; cases e; simp add: transition_def)+

lemma device_error_accepted: "transition s DeviceError = (if s \<in> {Ready, Running, Paused, Calibrating} then Some Fault else None)"
  by (cases s) (simp_all add: transition_def)

text \<open>A sequence of events, refused ones dropped.\<close>

definition run_events :: "State \<Rightarrow> Event list \<Rightarrow> State" where
  "run_events s es = foldl (\<lambda>s e. case transition s e of Some t \<Rightarrow> t | None \<Rightarrow> s) s es"

lemma run_events_snoc: "run_events s (es @ [e]) = (case transition (run_events s es) e of Some t \<Rightarrow> t | None \<Rightarrow> run_events s es)"
  by (simp add: run_events_def split: option.split)

lemma no_reset: "Reset \<notin> set es \<Longrightarrow> run_events Fault es \<in> {Fault, Stopped}"
proof (induction es rule: rev_induct)
  case (snoc e es)
  then have "run_events Fault es = Fault \<or> run_events Fault es = Stopped" by simp
  then show ?case using snoc.prems by (cases e) (auto simp: run_events_snoc transition_def)
qed (simp add: run_events_def)

lemma no_recovered: "Recovered \<notin> set es \<Longrightarrow> run_events Fault es \<in> {Fault, Recovering, Stopped}"
proof (induction es rule: rev_induct)
  case (snoc e es)
  then have "run_events Fault es = Fault \<or> run_events Fault es = Recovering \<or> run_events Fault es = Stopped" by simp
  then show ?case using snoc.prems by (cases e) (auto simp: run_events_snoc transition_def)
qed (simp add: run_events_def)

section \<open>Properties\<close>

text \<open>A fault is latched and shutdown always works. Whatever events arrive, the device gets from
  Fault back to acquiring, pausing, calibrating or ready only after an operator's reset and a recovery
  that saw samples; a stop is accepted in every state, and nothing leaves Stopped.\<close>

theorem fault_latched:
  "(run_events Fault es \<in> {Init, Ready, Running, Paused, Calibrating} \<longrightarrow> Reset \<in> set es \<and> Recovered \<in> set es)
   \<and> run_events s (es @ [Stop]) = Stopped \<and> run_events s (es @ Stop # es') = Stopped"
proof -
  have stop: "run_events s (es @ [Stop]) = Stopped"
    by (simp add: run_events_snoc stop_accepted)
  have "run_events Stopped es' = Stopped" for es'
    by (induction es' rule: rev_induct) (simp_all add: run_events_def transition_def)
  then have "run_events s (es @ Stop # es') = Stopped"
    using stop by (simp add: run_events_def)
  then show ?thesis
    using stop no_reset [of es] no_recovered [of es] by (cases "Reset \<in> set es"; cases "Recovered \<in> set es") auto
qed

theorem fault_latched_witness:
  "run_events Fault [Start, Reset, Pause, Recovered] = Running \<and> Recovered \<in> set [Start, Reset, Pause, Recovered]"
proof -
  have r: "run_events Fault [Start, Reset, Pause, Recovered] = Running" by code_simp
  then show ?thesis using fault_latched [of "[Start, Reset, Pause, Recovered]"] by simp
qed

end
