(* ===== verification/Fault_Evidence.thy ===== *)
theory Fault_Evidence
  imports Device Complex_Main "HOL-Library.Char_ord" "HOL-Library.List_Lexorder"
begin

text \<open>
  What the service writes down when it enters Fault (src/fault\_evidence.cpp): a JSON document with
  the driver's attributes and the kernel log, in a directory that is pruned to a fixed number of
  files. The directory is an association list from file names to contents, in which a file that
  was created but not written completely has no document. Time stamps, the kernel log and what the
  file system does (opening, writing, closing, listing and removing may each fail) are arguments.
\<close>

section \<open>JSON\<close>

text \<open>The documents the service builds; an object is a list of its members in the order of assignment.\<close>

datatype json = JNull | JBool bool | JNum rat | JStr string | JArr "json list" | JObj "(string \<times> json) list"

section \<open>Model\<close>

definition kSysfsAttrs :: "string list" where
  "kSysfsAttrs = [''device_id'', ''fw_version'', ''sample_rate'', ''fifo_level'', ''kfifo_level'', ''kfifo_overflow'',
     ''policy_dropped'', ''spi_rearm_fail'', ''spi_error_count'']"

definition kKernelLines :: nat where
  "kKernelLines = 60"

primrec snapshot_attrs :: "'w os_api \<Rightarrow> (device_error \<Rightarrow> string) \<Rightarrow> string list \<Rightarrow> 'w device \<Rightarrow> (string \<times> json) list \<times> 'w device" where
  "snapshot_attrs os what [] d = ([], d)"
| "snapshot_attrs os what (name # names) d =
     (case read_sysfs os name d of (r, d1) \<Rightarrow>
        (let v = (case r of Inr line \<Rightarrow> JStr line | Inl e \<Rightarrow> JStr (''error: '' @ what e));
             (rest, d2) = snapshot_attrs os what names d1
         in ((name, v) # rest, d2)))"

definition driver_snapshot :: "'w os_api \<Rightarrow> (device_error \<Rightarrow> string) \<Rightarrow> 'w device \<Rightarrow> json \<times> 'w device" where
  "driver_snapshot os what d = (case snapshot_attrs os what kSysfsAttrs d of (j, d1) \<Rightarrow> (JObj j, d1))"

text \<open>The kernel log: the error text of the system call, or the whole text of the log.\<close>

definition contains_text :: "string \<Rightarrow> string \<Rightarrow> bool" where
  "contains_text pat s \<longleftrightarrow> (\<exists>i \<in> set [0..<Suc (length s)]. take (length pat) (drop i s) = pat)"

function text_lines :: "string \<Rightarrow> string list" where
  "text_lines s =
     (if s = [] then []
      else takeWhile (\<lambda>c. c \<noteq> CHR 0x0A) s # text_lines (tl (dropWhile (\<lambda>c. c \<noteq> CHR 0x0A) s)))"
  by pat_completeness auto

termination
proof (relation "measure length")
  fix s :: string
  assume "s \<noteq> []"
  then show "(tl (dropWhile (\<lambda>c. c \<noteq> CHR 0x0A) s), s) \<in> measure length"
    using length_dropWhile_le [of "\<lambda>c. c \<noteq> CHR 0x0A" s] by (cases s) (auto intro: le_imp_less_Suc)
qed simp

declare text_lines.simps [simp del]

definition kernel_snapshot :: "string + string \<Rightarrow> json" where
  "kernel_snapshot klog =
     (case klog of
        Inl err \<Rightarrow> JStr (''unavailable: '' @ err)
      | Inr buf \<Rightarrow>
          (let hits = filter (\<lambda>l. contains_text ''custom_acq'' l \<or> contains_text ''custom-acq'' l \<or> contains_text ''spi'' l)
                        (text_lines buf);
               from = (if length hits > kKernelLines then length hits - kKernelLines else 0)
           in JArr (map JStr (drop from hits))))"

type_synonym dir = "(string \<times> json option) list"

definition is_evidence :: "string \<Rightarrow> bool" where
  "is_evidence name \<longleftrightarrow> take 6 name = ''fault-'' \<and> drop (length name - 5) name = ''.json''"

text \<open>
  Listing the directory may fail when it is opened, which looks like an empty directory, or later,
  which throws. \<open>removable\<close> says which files \<open>fs::remove\<close> can remove; its error code is not looked at.
  \<open>std::sort\<close> on paths of one directory sorts by name. \<open>None\<close> is the exception.
\<close>

datatype list_result = Listed | List_failed | List_threw

definition prune :: "list_result \<Rightarrow> (string \<Rightarrow> bool) \<Rightarrow> nat \<Rightarrow> dir \<Rightarrow> dir option" where
  "prune lr removable keep d =
     (if lr = List_threw then None
      else let files = (if lr = Listed then filter is_evidence (map fst d) else [])
           in if length files \<le> keep then Some d
              else let old = take (length files - keep) (sort files)
                   in Some (filter (\<lambda>e. \<not> (fst e \<in> set old \<and> removable (fst e))) d))"

text \<open>
  What happens to the output stream: it cannot be opened; it is opened, and an error shows before
  the check; the error shows only when the buffer is flushed on closing, after the check; or all is well.
\<close>

datatype write_result = Open_failed | Write_failed | Close_failed | Written

record capture_env =
  ce_captured_at :: string
  ce_stamp :: string
  ce_suffix :: string
  ce_klog :: "string + string"
  ce_write :: write_result
  ce_list :: list_result
  ce_removable :: "string \<Rightarrow> bool"

definition write_file :: "string \<Rightarrow> json option \<Rightarrow> dir \<Rightarrow> dir" where
  "write_file name j d = (name, j) # filter (\<lambda>e. fst e \<noteq> name) d"

definition evidence_path :: "capture_env \<Rightarrow> string" where
  "evidence_path ce = ''fault-'' @ ce_stamp ce @ ce_suffix ce @ ''.json''"

text \<open>The result is the name of the file written, empty when an exception was caught.\<close>

definition capture_fault_evidence ::
  "'w os_api \<Rightarrow> (device_error \<Rightarrow> string) \<Rightarrow> capture_env \<Rightarrow> string \<Rightarrow> nat \<Rightarrow> string \<Rightarrow> json \<Rightarrow> dir \<Rightarrow> 'w device
     \<Rightarrow> string \<times> dir \<times> 'w device" where
  "capture_fault_evidence os what ce state_dir keep reason service files d =
     (if state_dir = [] then ([], files, d)
      else let (drv, d1) = driver_snapshot os what d;
               j = JObj [(''captured_at'', JStr (ce_captured_at ce)), (''reason'', JStr reason),
                         (''service'', service), (''driver'', drv), (''kernel'', kernel_snapshot (ce_klog ce))];
               path = evidence_path ce
           in case ce_write ce of
                Open_failed \<Rightarrow> ([], files, d1)
              | Write_failed \<Rightarrow> ([], write_file path None files, d1)
              | w \<Rightarrow>
                  (let files1 = write_file path (if w = Written then Some j else None) files
                   in case prune (ce_list ce) (ce_removable ce) keep files1 of
                        None \<Rightarrow> ([], files1, d1)
                      | Some files2 \<Rightarrow> (path, files2, d1)))"

section \<open>Pruning\<close>

definition evidence_names :: "dir \<Rightarrow> string list" where
  "evidence_names d = filter is_evidence (map fst d)"

lemma evidence_filter: "evidence_names (filter (\<lambda>e. P (fst e)) d) = filter P (evidence_names d)"
  unfolding evidence_names_def by (induction d) auto

lemma set_evidence: "set (evidence_names d) = {n \<in> fst ` set d. is_evidence n}"
  by (auto simp: evidence_names_def)

lemma distinct_evidence: "distinct (map fst d) \<Longrightarrow> distinct (evidence_names d)"
  by (simp add: evidence_names_def)

text \<open>The names the pruning is after, and those it leaves alone, when the listing works.\<close>

definition doomed :: "nat \<Rightarrow> dir \<Rightarrow> string list" where
  "doomed keep d = take (length (evidence_names d) - keep) (sort (evidence_names d))"

lemma prune_listed: "prune Listed rm keep d = Some (filter (\<lambda>e. \<not> (fst e \<in> set (doomed keep d) \<and> rm (fst e))) d)"
proof (cases "length (evidence_names d) \<le> keep")
  case True
  then show ?thesis by (simp add: prune_def doomed_def evidence_names_def)
next
  case False
  then show ?thesis by (simp add: prune_def doomed_def evidence_names_def Let_def)
qed

lemma prune_unlisted: "prune List_failed rm keep d = Some d" "prune List_threw rm keep d = None"
  by (simp_all add: prune_def)

lemma prune_names:
  assumes "prune Listed rm keep d = Some d'"
  shows "set (evidence_names d') = {n \<in> set (evidence_names d). \<not> (n \<in> set (doomed keep d) \<and> rm n)}"
  using assms evidence_filter [of "\<lambda>n. \<not> (n \<in> set (doomed keep d) \<and> rm n)" d] by (auto simp: prune_listed)

lemma doomed_rest:
  assumes "distinct (map fst d)"
  shows "length (filter (\<lambda>n. n \<notin> set (doomed keep d)) (evidence_names d)) \<le> keep"
    and "n \<in> set (doomed keep d) \<Longrightarrow> m \<in> set (evidence_names d) \<Longrightarrow> m \<notin> set (doomed keep d) \<Longrightarrow> n < m"
proof -
  let ?f = "evidence_names d" and ?k = "length (evidence_names d) - keep"
  have dis: "distinct ?f" using assms by (simp add: evidence_names_def)
  have un: "set ?f = set (doomed keep d) \<union> set (drop ?k (sort ?f))"
    unfolding doomed_def by (metis append_take_drop_id set_append set_sort)
  have "set (filter (\<lambda>n. n \<notin> set (doomed keep d)) ?f) \<subseteq> set (drop ?k (sort ?f))" using un by auto
  then have "length (filter (\<lambda>n. n \<notin> set (doomed keep d)) ?f) \<le> length (drop ?k (sort ?f))"
    using dis by (metis card_length card_mono distinct_card distinct_filter le_trans List.finite_set)
  then show "length (filter (\<lambda>n. n \<notin> set (doomed keep d)) ?f) \<le> keep" by simp
  assume n: "n \<in> set (doomed keep d)" and m: "m \<in> set ?f" "m \<notin> set (doomed keep d)"
  have "sorted (doomed keep d @ drop ?k (sort ?f))" by (simp add: doomed_def)
  then have "n \<le> m" using n m un unfolding sorted_append by blast
  then show "n < m" using n m by (metis order.not_eq_order_implies_strict)
qed

lemma distinct_filter_fst: "distinct (map fst d) \<Longrightarrow> distinct (map fst (filter P d))"
  by (simp add: distinct_map_filter)

lemma prune_bound:
  assumes "distinct (map fst d)" "prune Listed rm keep d = Some d'"
  shows "length (filter rm (evidence_names d')) \<le> keep"
proof -
  let ?D = "set (doomed keep d)"
  have "evidence_names d' = filter (\<lambda>n. \<not> (n \<in> ?D \<and> rm n)) (evidence_names d)"
    using assms(2) evidence_filter [of "\<lambda>n. \<not> (n \<in> ?D \<and> rm n)" d] by (simp add: prune_listed)
  then have "filter rm (evidence_names d') = filter rm (filter (\<lambda>n. n \<notin> ?D) (evidence_names d))"
    by (simp add: filter_filter) (rule filter_cong, auto)
  then show ?thesis
    using length_filter_le [of rm "filter (\<lambda>n. n \<notin> ?D) (evidence_names d)"] doomed_rest(1) [OF assms(1), of keep]
    by (metis order_trans)
qed

text \<open>What is removed is older, by name, than everything kept that could have been removed.\<close>

lemma prune_newest:
  assumes "distinct (map fst d)" "prune Listed rm keep d = Some d'" "n \<in> set (evidence_names d)"
    "n \<notin> set (evidence_names d')" "m \<in> set (evidence_names d')" "rm m"
  shows "n < m"
  using assms doomed_rest(2) [OF assms(1), of n keep m] by (auto simp: prune_names [OF assms(2)])

lemma prune_other:
  "prune lr rm keep d = Some d' \<Longrightarrow> \<not> is_evidence (fst e) \<Longrightarrow> e \<in> set d' \<longleftrightarrow> e \<in> set d"
  by (auto simp: prune_def Let_def split: if_splits dest!: in_set_takeD)

lemma write_distinct: "distinct (map fst d) \<Longrightarrow> distinct (map fst (write_file n j d))"
  by (auto simp: write_file_def distinct_filter_fst)

lemma doomed_newest:
  assumes "distinct (map fst d)" "n \<in> set (evidence_names d)" "\<forall>m \<in> set (evidence_names d). m \<le> n" "1 \<le> keep"
  shows "n \<notin> set (doomed keep d)"
proof
  assume n: "n \<in> set (doomed keep d)"
  let ?f = "evidence_names d" and ?k = "length (evidence_names d) - keep"
  have len: "?k < length (sort ?f)" using assms(2,4) by (cases ?f) auto
  have "distinct (sort ?f)" using assms(1) by (simp add: evidence_names_def)
  then have "sort ?f ! ?k \<notin> set (doomed keep d)"
    using len by (metis doomed_def id_take_nth_drop distinct_append Int_iff empty_iff list.set_intros(1))
  moreover have "sort ?f ! ?k \<in> set ?f" using len nth_mem [of ?k "sort ?f"] by simp
  ultimately show False using doomed_rest(2) [OF assms(1) n] assms(3) by (metis leD)
qed

lemma prune_subset: "prune lr rm keep d = Some d' \<Longrightarrow> set d' \<subseteq> set d"
  by (auto simp: prune_def Let_def split: if_splits)

lemma evidence_path_name: "is_evidence (evidence_path ce)" "evidence_path ce \<noteq> []"
  by (simp_all add: is_evidence_def evidence_path_def)

lemma write_file_mem: "e \<in> set (write_file n j d) \<longleftrightarrow> e = (n, j) \<or> e \<in> set d \<and> fst e \<noteq> n"
  by (auto simp: write_file_def)

lemma write_file_names: "fst ` set (write_file n j d) = insert n (fst ` set d)"
  by (force simp: write_file_def)

lemma write_file_evidence:
  "is_evidence n \<Longrightarrow> set (evidence_names (write_file n j d)) = insert n (set (evidence_names d))"
  by (auto simp: set_evidence write_file_names)

section \<open>Properties\<close>

lemma capture_cases:
  assumes "capture_fault_evidence os what ce state_dir keep reason service files d = (r, files', d')" "state_dir \<noteq> []"
  obtains "ce_write ce = Open_failed" "r = []" "files' = files"
  | "ce_write ce = Write_failed" "r = []" "files' = write_file (evidence_path ce) None files"
  | j where "ce_write ce = Written \<or> ce_write ce = Close_failed" "ce_list ce = List_threw" "r = []"
      "files' = write_file (evidence_path ce) j files"
  | j where "ce_write ce = Written \<or> ce_write ce = Close_failed" "ce_list ce \<noteq> List_threw" "r = evidence_path ce"
      "prune (ce_list ce) (ce_removable ce) keep (write_file (evidence_path ce) j files) = Some files'"
      "ce_write ce = Written \<longrightarrow> (\<exists>m. j = Some (JObj m) \<and> (''reason'', JStr reason) \<in> set m)"
proof -
  have thr: "prune lr rm keep f = None \<longleftrightarrow> lr = List_threw" for lr rm f by (simp add: prune_def Let_def)
  obtain drv d1 where drv: "driver_snapshot os what d = (drv, d1)" by fastforce
  define m where "m = [(''captured_at'', JStr (ce_captured_at ce)), (''reason'', JStr reason),
      (''service'', service), (''driver'', drv), (''kernel'', kernel_snapshot (ce_klog ce))]"
  define j where "j = (if ce_write ce = Written then Some (JObj m) else None)"
  define pr where "pr = prune (ce_list ce) (ce_removable ce) keep (write_file (evidence_path ce) j files)"
  consider "ce_write ce = Open_failed" | "ce_write ce = Write_failed" | "ce_write ce = Written \<or> ce_write ce = Close_failed"
    by (cases "ce_write ce") simp_all
  then show thesis
  proof cases
    case 3
    then have c: "capture_fault_evidence os what ce state_dir keep reason service files d
        = (case pr of None \<Rightarrow> ([], write_file (evidence_path ce) j files, d1) | Some f \<Rightarrow> (evidence_path ce, f, d1))"
      using assms(2) drv
      by (elim disjE) (simp_all add: capture_fault_evidence_def Let_def pr_def j_def m_def split: option.split)
    have jm: "ce_write ce = Written \<longrightarrow> (\<exists>m. j = Some (JObj m) \<and> (''reason'', JStr reason) \<in> set m)"
      by (simp add: j_def m_def)
    show thesis
    proof (cases pr)
      case None
      then show thesis using that(3) [OF 3] c assms(1) thr [of "ce_list ce"] by (simp add: pr_def)
    next
      case (Some f)
      then have "ce_list ce \<noteq> List_threw"
        using thr [of "ce_list ce" "ce_removable ce" "write_file (evidence_path ce) j files"] by (simp add: pr_def)
      then show thesis using that(4) [OF 3 _ _ _ jm] c assms(1) Some by (simp add: pr_def)
    qed
  qed (use assms that(1,2) drv in \<open>simp_all add: capture_fault_evidence_def Let_def\<close>)
qed


definition demo_capture :: capture_env where
  "demo_capture = \<lparr>ce_captured_at = ''t'', ce_stamp = ''2'', ce_suffix = ''000'', ce_klog = Inl ''EPERM'', ce_write = Written,
     ce_list = Listed, ce_removable = (\<lambda>_. True)\<rparr>"

definition demo_files :: dir where
  "demo_files = [(''fault-1000.json'', Some (JBool True)), (''calibration.json'', Some (JBool True))]"


end
