(* ===== verification/Supervisor.thy ===== *)
theory Supervisor
  imports Acq_Worker Device_State Fault_Evidence
begin

text \<open>
  The supervisor of the device service (src/supervisor.cpp): the one thread that changes the machine
  state. What the other threads share with it (the device, the acquisition worker, the event queue)
  is one record; \<open>se_threads\<close> says what they do to it whenever the supervisor gives them the chance,
  which is before every operation on the device, at every poll and during every sleep. Time is the
  steady clock in milliseconds; it advances by at least the time slept. Exceptions are values, with
  the text of \<open>what()\<close>. Log output and the notification callback are not modelled.
\<close>

section \<open>State\<close>

record SupervisorConfig =
  sc_expected_device_id :: u32
  sc_max_recovery_attempts :: int
  sc_recovery_timeout :: int
  sc_recovery_backoff :: int
  sc_calibration_duration :: int
  sc_calibration_min_samples :: u64
  sc_state_dir :: string
  sc_evidence_keep :: nat

type_synonym queued = "Event \<times> string"

record history_entry =
  he_at :: string
  he_from :: State
  he_to :: State
  he_event :: Event
  he_reason :: string

record ('w, 'p) shared =
  sh_device :: "'w device"
  sh_worker :: "'p acq_worker"
  sh_queue :: "queued list"
  sh_stop_pending :: bool

text \<open>
  \<open>sv_files\<close> is the state directory. \<open>sv_controls\<close> records the writes to the control attribute, with
  whether the attribute could be opened; nothing in the code reads it.
\<close>

record ('w, 'p) supervisor =
  sv_shared :: "('w, 'p) shared"
  sv_state :: State
  sv_busy :: bool
  sv_entries :: "State \<Rightarrow> u64"
  sv_state_since :: int
  sv_history :: "history_entry list"
  sv_recoveries :: u64
  sv_recovery_attempts :: u64
  sv_faults :: u64
  sv_last_fault_reason :: string
  sv_last_evidence_path :: string
  sv_last_calibration :: "CalibrationResult option"
  sv_files :: dir
  sv_controls :: "(bool \<times> bool) list"
  sv_now :: int
  sv_tick :: nat

record ('w, 'p) sup_env =
  se_os :: "'w os_api"
  se_threads :: "nat \<Rightarrow> ('w, 'p) shared \<Rightarrow> ('w, 'p) shared"
  se_delay :: "nat \<Rightarrow> nat"
  se_what :: "device_error \<Rightarrow> string"
  se_reason_text :: "cal_reason \<Rightarrow> string"
  se_drift_text :: "double \<Rightarrow> string"
  se_utc :: "int \<Rightarrow> string"
  se_capture :: "nat \<Rightarrow> capture_env"
  se_save :: "nat \<Rightarrow> write_result \<times> bool"

abbreviation "kHistoryLen \<equiv> 32 :: nat"
abbreviation "kPollStep \<equiv> 20 :: int"

definition Supervisor :: "'w device \<Rightarrow> 'p acq_worker \<Rightarrow> int \<Rightarrow> ('w, 'p) supervisor" where
  "Supervisor d w now =
     \<lparr>sv_shared = \<lparr>sh_device = d, sh_worker = w, sh_queue = [], sh_stop_pending = False\<rparr>,
      sv_state = Init, sv_busy = False, sv_entries = (\<lambda>_. 0), sv_state_since = now, sv_history = [],
      sv_recoveries = 0, sv_recovery_attempts = 0, sv_faults = 0, sv_last_fault_reason = [],
      sv_last_evidence_path = [], sv_last_calibration = None, sv_files = [], sv_controls = [],
      sv_now = now, sv_tick = 0\<rparr>"

definition upd_shared :: "(('w, 'p) shared \<Rightarrow> ('w, 'p) shared) \<Rightarrow> ('w, 'p) supervisor \<Rightarrow> ('w, 'p) supervisor" where
  "upd_shared f s = s\<lparr>sv_shared := f (sv_shared s)\<rparr>"

definition upd_worker :: "('p acq_worker \<Rightarrow> 'p acq_worker) \<Rightarrow> ('w, 'p) supervisor \<Rightarrow> ('w, 'p) supervisor" where
  "upd_worker f = upd_shared (\<lambda>sh. sh\<lparr>sh_worker := f (sh_worker sh)\<rparr>)"

abbreviation sv_worker :: "('w, 'p) supervisor \<Rightarrow> 'p acq_worker" where
  "sv_worker s \<equiv> sh_worker (sv_shared s)"

abbreviation stopping :: "('w, 'p) supervisor \<Rightarrow> bool" where
  "stopping s \<equiv> sh_stop_pending (sv_shared s)"

section \<open>Other threads, time, and the device\<close>

definition others :: "('w, 'p) sup_env \<Rightarrow> ('w, 'p) supervisor \<Rightarrow> ('w, 'p) supervisor" where
  "others E s =
     s\<lparr>sv_shared := se_threads E (sv_tick s) (sv_shared s), sv_tick := sv_tick s + 1,
       sv_now := sv_now s + int (se_delay E (sv_tick s))\<rparr>"

definition with_device ::
  "('w, 'p) sup_env \<Rightarrow> ('w device \<Rightarrow> 'r \<times> 'w device) \<Rightarrow> ('w, 'p) supervisor \<Rightarrow> 'r \<times> ('w, 'p) supervisor" where
  "with_device E f s =
     (let s1 = others E s; (r, d) = f (sh_device (sv_shared s1))
      in (r, upd_shared (\<lambda>sh. sh\<lparr>sh_device := d\<rparr>) s1))"

definition error_of :: "('w, 'p) sup_env \<Rightarrow> device_error + 'r \<Rightarrow> string option" where
  "error_of E r = (case r of Inl e \<Rightarrow> Some (se_what E e) | Inr _ \<Rightarrow> None)"

definition control_write :: "('w, 'p) sup_env \<Rightarrow> bool \<Rightarrow> ('w, 'p) supervisor \<Rightarrow> string option \<times> ('w, 'p) supervisor" where
  "control_write E on s =
     (case with_device E (if on then start_acquisition (se_os E) else stop_acquisition (se_os E)) s of
        (r, s1) \<Rightarrow> (error_of E r, s1\<lparr>sv_controls := sv_controls s1 @ [(on, error_of E r = None)]\<rparr>))"

definition error_text :: "('w, 'p) sup_env \<Rightarrow> 'p acq_worker \<Rightarrow> string" where
  "error_text E w = (case w_last_error w of None \<Rightarrow> ''unknown error'' | Some e \<Rightarrow> se_what E e)"

definition sleep_unless_stopping :: "('w, 'p) sup_env \<Rightarrow> int \<Rightarrow> ('w, 'p) supervisor \<Rightarrow> bool \<times> ('w, 'p) supervisor" where
  "sleep_unless_stopping E d s =
     (if stopping s then (False, s)
      else let s1 = others E s
           in if stopping s1 then (False, s1) else (True, s1\<lparr>sv_now := sv_now s1 + max 0 d\<rparr>))"

section \<open>Events\<close>

definition post :: "Event \<Rightarrow> string \<Rightarrow> ('w, 'p) shared \<Rightarrow> ('w, 'p) shared" where
  "post e reason sh =
     (let sh1 = sh\<lparr>sh_queue := sh_queue sh @ [(e, reason)]\<rparr>
      in if e = Stop then sh1\<lparr>sh_stop_pending := True\<rparr> else sh1)"

record reply =
  rp_ok :: bool
  rp_message :: string

definition request :: "Event \<Rightarrow> string \<Rightarrow> ('w, 'p) supervisor \<Rightarrow> reply \<times> ('w, 'p) supervisor" where
  "request e reason s =
     (let now = sv_state s
      in case transition now e of
           None \<Rightarrow> (\<lparr>rp_ok = False, rp_message = event_to_string e @ '' not allowed in state '' @ state_to_string now\<rparr>, s)
         | Some _ \<Rightarrow> (\<lparr>rp_ok = True, rp_message = event_to_string e @ '' accepted in state '' @ state_to_string now\<rparr>,
                      upd_shared (post e reason) s))"

text \<open>The predicate \<open>wait_for_state\<close> waits for, given the entry count seen at the call.\<close>

definition state_seen :: "State \<Rightarrow> u64 \<Rightarrow> ('w, 'p) supervisor \<Rightarrow> bool" where
  "state_seen st seen s \<longleftrightarrow> \<not> sv_busy s \<and> (sv_state s = st \<or> sv_entries s st > seen)"

section \<open>Status\<close>

text \<open>An infinite number is serialised as null.\<close>

definition double_json :: "double \<Rightarrow> json" where
  "double_json d = (case d of Finite v \<Rightarrow> JNum v | Infinity \<Rightarrow> JNull)"

definition calibration_json :: "('w, 'p) sup_env \<Rightarrow> CalibrationResult \<Rightarrow> (string \<times> json) list" where
  "calibration_json E r =
     [(''ok'', JBool (cr_ok r)), (''samples'', JNum (of_nat (unat (cr_samples r)))),
      (''nominal_hz'', JNum (of_nat (unat (cr_nominal_hz r)))), (''duration_s'', JNum (cr_duration_s r)),
      (''gaps'', JNum (of_nat (unat (cr_gaps r)))),
      (''repeated_timestamps'', JNum (of_nat (unat (cr_repeated_timestamps r))))]
     @ (if cr_ok r then [(''measured_hz'', double_json (cr_measured_hz r)), (''drift_ppm'', double_json (cr_drift_ppm r))]
        else [(''reason'', JStr (se_reason_text E (cr_reason r)))])"

definition history_json :: "history_entry list \<Rightarrow> json" where
  "history_json h = JArr (map (\<lambda>e. JObj
     [(''at'', JStr (he_at e)), (''from'', JStr (state_to_string (he_from e))),
      (''to'', JStr (state_to_string (he_to e))), (''event'', JStr (event_to_string (he_event e))),
      (''reason'', JStr (he_reason e))]) h)"

definition status :: "('w, 'p) sup_env \<Rightarrow> ('w, 'p) supervisor \<Rightarrow> (string \<times> json) list" where
  "status E s =
     [(''state'', JStr (state_to_string (sv_state s))),
      (''in_state_s'', JNum (of_int ((sv_now s - sv_state_since s) sdiv 1000))),
      (''samples_read'', JNum (of_nat (unat (samples_read (sv_worker s))))),
      (''gaps'', JNum (of_nat (unat (st_gap_count (w_tracker (sv_worker s)))))),
      (''sample_age_ewma_us'', JNum (of_int (age_ewma_ns (sv_worker s) sdiv 1000))),
      (''recoveries'', JNum (of_nat (unat (sv_recoveries s)))),
      (''recovery_attempts'', JNum (of_nat (unat (sv_recovery_attempts s)))),
      (''faults'', JNum (of_nat (unat (sv_faults s))))]
     @ (if sv_last_fault_reason s \<noteq> []
        then [(''last_fault'', JObj [(''reason'', JStr (sv_last_fault_reason s)), (''evidence'', JStr (sv_last_evidence_path s))])]
        else [])
     @ (case sv_last_calibration s of Some r \<Rightarrow> [(''last_calibration'', JObj (calibration_json E r))] | None \<Rightarrow> [])
     @ [(''history'', history_json (sv_history s))]"

section \<open>Recovery\<close>

lemma sleep_advances: "sleep_unless_stopping E d s = (True, s') \<Longrightarrow> sv_now s + max 0 d \<le> sv_now s'"
  by (auto simp: sleep_unless_stopping_def others_def Let_def split: if_splits)

lemma others_now: "sv_now s \<le> sv_now (others E s)"
  by (simp add: others_def)

datatype wait_end = Flowing | Over | Stopping

function recovery_wait :: "('w, 'p) sup_env \<Rightarrow> u64 \<Rightarrow> int \<Rightarrow> ('w, 'p) supervisor \<Rightarrow> wait_end \<times> ('w, 'p) supervisor" where
  "recovery_wait E before deadline s =
     (if sv_now s < deadline
      then let s1 = others E s
           in if samples_read (sv_worker s1) > before then (Flowing, s1)
              else if w_failed (sv_worker s1) then (Over, s1)
              else case sleep_unless_stopping E kPollStep s1 of
                     (False, s2) \<Rightarrow> (Stopping, s2)
                   | (True, s2) \<Rightarrow> recovery_wait E before deadline s2
      else (Over, s))"
  by pat_completeness auto

termination
proof (relation "measure (\<lambda>(E, before, deadline, s). nat (deadline - sv_now s))")
  fix E :: "('w, 'p) sup_env" and before deadline s s1 r s2
  assume "sv_now s < deadline" "s1 = others E s" "(r, s2) = sleep_unless_stopping E kPollStep s1" "r = True"
  then show "((E, before, deadline, s2), E, before, deadline, s) \<in> measure (\<lambda>(E, before, deadline, s). nat (deadline - sv_now s))"
    using sleep_advances [of E kPollStep s1 s2] others_now [of s E] by auto
qed simp

declare recovery_wait.simps [simp del]

datatype attempt_end = Return "queued option" | Problem string

definition id_mismatch :: "u32 \<Rightarrow> u32 \<Rightarrow> string" where
  "id_mismatch actual expected =
     ''probe read DEVICE_ID=0x'' @ hex_text 8 (unat actual) @ '', expected 0x'' @ hex_text 8 (unat expected)
       @ '' - MCU not responding''"

text \<open>The worker and the file descriptor again, when the read loop has died.\<close>

definition restart_worker :: "('w, 'p) sup_env \<Rightarrow> ('w, 'p) supervisor \<Rightarrow> string option \<times> ('w, 'p) supervisor" where
  "restart_worker E s =
     (if w_failed (sv_worker s)
      then case with_device E (device_reopen (se_os E)) (upd_worker worker_stop s) of
             (Inl e, s1) \<Rightarrow> (Some (se_what E e), s1)
           | (Inr _, s1) \<Rightarrow> (None, upd_worker (worker_start (sv_now s1)) s1)
      else (None, s))"

definition soft_reset :: "('w, 'p) sup_env \<Rightarrow> ('w, 'p) supervisor \<Rightarrow> string option \<times> ('w, 'p) supervisor" where
  "soft_reset E s =
     (case control_write E False s of
        (Some p, s1) \<Rightarrow> (Some p, s1)
      | (None, s1) \<Rightarrow> control_write E True (upd_worker (worker_rearm (sv_now s1)) s1))"

definition recovery_attempt ::
  "('w, 'p) sup_env \<Rightarrow> SupervisorConfig \<Rightarrow> int \<Rightarrow> ('w, 'p) supervisor \<Rightarrow> attempt_end \<times> ('w, 'p) supervisor" where
  "recovery_attempt E cfg attempt s =
     (case with_device E (read_device_id (se_os E)) s of
        (Inl e, s1) \<Rightarrow> (Problem (se_what E e), s1)
      | (Inr dev_id, s1) \<Rightarrow>
          (if sc_expected_device_id cfg \<noteq> 0 \<and> dev_id \<noteq> sc_expected_device_id cfg
           then (Problem (id_mismatch dev_id (sc_expected_device_id cfg)), s1)
           else case restart_worker E s1 of
            (Some p, s2) \<Rightarrow> (Problem p, s2)
          | (None, s2) \<Rightarrow>
              (let before = samples_read (sv_worker s2)
               in case soft_reset E s2 of
                    (Some p, s3) \<Rightarrow> (Problem p, s3)
                  | (None, s3) \<Rightarrow>
                      (case recovery_wait E before (sv_now s3 + sc_recovery_timeout cfg) s3 of
                         (Flowing, s4) \<Rightarrow>
                           (Return (Some (Recovered, ''samples flowing after attempt '' @ int_text attempt)),
                            s4\<lparr>sv_recoveries := sv_recoveries s4 + 1\<rparr>)
                       | (Stopping, s4) \<Rightarrow> (Return None, s4)
                       | (Over, s4) \<Rightarrow>
                           (Problem (if w_failed (sv_worker s4)
                                     then ''acquisition thread died again: '' @ error_text E (sv_worker s4)
                                     else ''no samples within '' @ int_text (sc_recovery_timeout cfg) @ '' ms of a soft reset''),
                            s4)))))"

text \<open>The backoff doubles; the shift of the source is defined for attempts below 32.\<close>

function recover_from ::
  "('w, 'p) sup_env \<Rightarrow> SupervisorConfig \<Rightarrow> int \<Rightarrow> string \<Rightarrow> ('w, 'p) supervisor \<Rightarrow> queued option \<times> ('w, 'p) supervisor" where
  "recover_from E cfg attempt last_problem s =
     (if attempt \<le> sc_max_recovery_attempts cfg
      then if stopping s then (None, s)
           else case recovery_attempt E cfg attempt (s\<lparr>sv_recovery_attempts := sv_recovery_attempts s + 1\<rparr>) of
                  (Return q, s1) \<Rightarrow> (q, s1)
                | (Problem p, s1) \<Rightarrow>
                    (if attempt < sc_max_recovery_attempts cfg
                     then case sleep_unless_stopping E (sc_recovery_backoff cfg * 2 ^ nat (attempt - 1)) s1 of
                            (False, s2) \<Rightarrow> (None, s2)
                          | (True, s2) \<Rightarrow> recover_from E cfg (attempt + 1) p s2
                     else recover_from E cfg (attempt + 1) p s1)
      else (Some (RecoveryFailed, last_problem), s))"
  by pat_completeness auto

termination
  by (relation "measure (\<lambda>(E, cfg, attempt, p, s). nat (sc_max_recovery_attempts cfg + 1 - attempt))") auto

declare recover_from.simps [simp del]

definition run_recovery :: "('w, 'p) sup_env \<Rightarrow> SupervisorConfig \<Rightarrow> ('w, 'p) supervisor \<Rightarrow> queued option \<times> ('w, 'p) supervisor" where
  "run_recovery E cfg = recover_from E cfg 1 ''no attempt made''"

section \<open>Calibration\<close>

function calibration_wait :: "('w, 'p) sup_env \<Rightarrow> int \<Rightarrow> ('w, 'p) supervisor \<Rightarrow> bool \<times> ('w, 'p) supervisor" where
  "calibration_wait E deadline s =
     (if sv_now s < deadline
      then let s1 = others E s
           in if w_failed (sv_worker s1) then (True, s1)
              else case sleep_unless_stopping E (kPollStep * 5) s1 of
                     (False, s2) \<Rightarrow> (True, s2)
                   | (True, s2) \<Rightarrow> calibration_wait E deadline s2
      else (False, s))"
  by pat_completeness auto

termination
proof (relation "measure (\<lambda>(E, deadline, s). nat (deadline - sv_now s))")
  fix E :: "('w, 'p) sup_env" and deadline s s1 r s2
  assume "sv_now s < deadline" "s1 = others E s" "(r, s2) = sleep_unless_stopping E (kPollStep * 5) s1" "r = True"
  then show "((E, deadline, s2), E, deadline, s) \<in> measure (\<lambda>(E, deadline, s). nat (deadline - sv_now s))"
    using sleep_advances [of E "kPollStep * 5" s1 s2] others_now [of s E] by auto
qed simp

declare calibration_wait.simps [simp del]

text \<open>
  Write, then rename. \<open>se_save\<close> says how the temporary file could be written and whether the rename
  succeeds; the code checks only the rename.
\<close>

definition rename_file :: "string \<Rightarrow> string \<Rightarrow> dir \<Rightarrow> dir" where
  "rename_file a b d = (case map_of d a of None \<Rightarrow> d | Some c \<Rightarrow> write_file b c (filter (\<lambda>e. fst e \<noteq> a) d))"

definition save_calibration :: "('w, 'p) sup_env \<Rightarrow> SupervisorConfig \<Rightarrow> CalibrationResult \<Rightarrow> ('w, 'p) supervisor \<Rightarrow> ('w, 'p) supervisor" where
  "save_calibration E cfg r s =
     (if sc_state_dir cfg \<noteq> []
      then let (w, renamed) = se_save E (sv_tick s);
               j = JObj (calibration_json E r @ [(''calibrated_at'', JStr (se_utc E (sv_now s)))]);
               files1 = (if w = Open_failed then sv_files s
                         else write_file ''calibration.json.tmp'' (if w = Written then Some j else None) (sv_files s))
           in s\<lparr>sv_files := (if renamed then rename_file ''calibration.json.tmp'' ''calibration.json'' files1 else files1)\<rparr>
      else s)"

text \<open>An exception is \<open>Inl\<close>; \<open>Inr\<close> holds the follow-up event. While it is attached, the worker holds the calibrator.\<close>

definition finish_calibration ::
  "('w, 'p) sup_env \<Rightarrow> SupervisorConfig \<Rightarrow> bool \<Rightarrow> Fit \<Rightarrow> ('w, 'p) supervisor \<Rightarrow> queued option \<times> ('w, 'p) supervisor" where
  "finish_calibration E cfg interrupted calibrator s =
     (if w_failed (sv_worker s)
      then (Some (DeviceError, ''acquisition thread died during calibration: '' @ error_text E (sv_worker s)), s)
      else if interrupted then (None, s)
      else let r = cal_result (sc_calibration_min_samples cfg) calibrator;
               s1 = s\<lparr>sv_last_calibration := Some r\<rparr>
           in if \<not> cr_ok r then (Some (CalibrationDone, ''failed: '' @ se_reason_text E (cr_reason r)), s1)
              else (Some (CalibrationDone, ''ok: drift '' @ se_drift_text E (cr_drift_ppm r) @ '' ppm''),
                    save_calibration E cfg r s1))"

definition run_calibration ::
  "('w, 'p) sup_env \<Rightarrow> SupervisorConfig \<Rightarrow> ('w, 'p) supervisor \<Rightarrow> (string + queued option) \<times> ('w, 'p) supervisor" where
  "run_calibration E cfg s =
     (case with_device E (read_sample_rate (se_os E)) s of
        (Inl e, s1) \<Rightarrow> (Inl (se_what E e), s1)
      | (Inr nominal, s1) \<Rightarrow>
          (case control_write E True (upd_worker (\<lambda>w. w\<lparr>w_calibrator := Some (cal_reset nominal)\<rparr>) s1) of
             (Some p, s2) \<Rightarrow> (Inl p, s2)
           | (None, s2) \<Rightarrow>
               (case calibration_wait E (sv_now s2 + sc_calibration_duration cfg) s2 of
                  (interrupted, s3) \<Rightarrow>
                    (let calibrator = (case w_calibrator (sv_worker s3) of Some f \<Rightarrow> f | None \<Rightarrow> cal_reset nominal);
                         s4 = upd_worker (\<lambda>w. w\<lparr>w_calibrator := None\<rparr>) s3
                     in case control_write E False s4 of
                          (Some p, s5) \<Rightarrow> (Inl p, s5)
                        | (None, s5) \<Rightarrow>
                            (case finish_calibration E cfg interrupted calibrator s5 of (q, s6) \<Rightarrow> (Inr q, s6))))))"

section \<open>Applying an event\<close>

definition enter_fault :: "('w, 'p) sup_env \<Rightarrow> SupervisorConfig \<Rightarrow> string \<Rightarrow> ('w, 'p) supervisor \<Rightarrow> ('w, 'p) supervisor" where
  "enter_fault E cfg reason s =
     (let s1 = snd (control_write E False s);
          (path, files, d) = capture_fault_evidence (se_os E) (se_what E) (se_capture E (sv_tick s1)) (sc_state_dir cfg)
             (sc_evidence_keep cfg) reason (JObj (status E s1)) (sv_files s1) (sh_device (sv_shared s1))
      in (upd_shared (\<lambda>sh. sh\<lparr>sh_device := d\<rparr>) s1)
           \<lparr>sv_files := files, sv_faults := sv_faults s1 + 1, sv_last_fault_reason := reason, sv_last_evidence_path := path\<rparr>)"

definition prepare :: "('w, 'p) sup_env \<Rightarrow> State \<Rightarrow> State \<Rightarrow> ('w, 'p) supervisor \<Rightarrow> string option \<times> ('w, 'p) supervisor" where
  "prepare E to from s =
     (case to of
        Running \<Rightarrow> (if from = Ready \<or> from = Paused
                    then control_write E True (upd_worker (worker_rearm (sv_now s)) s) else (None, s))
      | Paused \<Rightarrow> control_write E False s
      | Stopped \<Rightarrow> (None, snd (control_write E False s))
      | _ \<Rightarrow> (None, s))"

definition enter :: "('w, 'p) sup_env \<Rightarrow> SupervisorConfig \<Rightarrow> State \<Rightarrow> ('w, 'p) supervisor \<Rightarrow> (string + queued option) \<times> ('w, 'p) supervisor" where
  "enter E cfg to s =
     (case to of
        Calibrating \<Rightarrow> run_calibration E cfg s
      | Recovering \<Rightarrow> (case run_recovery E cfg s of (q, s1) \<Rightarrow> (Inr q, s1))
      | Fault \<Rightarrow> (Inr None, enter_fault E cfg (if sv_history s = [] then [] else he_reason (last (sv_history s))) s)
      | _ \<Rightarrow> (Inr None, s))"

text \<open>The locked section that makes a transition visible.\<close>

definition publish_state :: "('w, 'p) sup_env \<Rightarrow> State \<Rightarrow> State \<Rightarrow> Event \<Rightarrow> string \<Rightarrow> ('w, 'p) supervisor \<Rightarrow> ('w, 'p) supervisor" where
  "publish_state E from to e reason s =
     (let h = sv_history s @ [\<lparr>he_at = se_utc E (sv_now s), he_from = from, he_to = to, he_event = e, he_reason = reason\<rparr>]
      in s\<lparr>sv_history := (if length h > kHistoryLen then tl h else h), sv_state := to, sv_state_since := sv_now s,
           sv_entries := (sv_entries s)(to := sv_entries s to + 1),
           sv_busy := (if transient to then False else sv_busy s)\<rparr>)"

definition next_event :: "string + queued option \<Rightarrow> queued option" where
  "next_event r = (case r of Inl ex \<Rightarrow> Some (DeviceError, ex) | Inr q \<Rightarrow> q)"

partial_function (option) apply_loop ::
  "('w, 'p) sup_env \<Rightarrow> SupervisorConfig \<Rightarrow> queued option \<Rightarrow> ('w, 'p) supervisor \<Rightarrow> ('w, 'p) supervisor option" where
  "apply_loop E cfg nxt s =
     (case nxt of
        None \<Rightarrow> Some s
      | Some (e, reason) \<Rightarrow>
          (case transition (sv_state s) e of
             None \<Rightarrow> Some s
           | Some to \<Rightarrow>
               (case prepare E to (sv_state s) s of
                  (Some ex, s1) \<Rightarrow> apply_loop E cfg (Some (DeviceError, ex)) s1
                | (None, s1) \<Rightarrow>
                    (case enter E cfg to (publish_state E (sv_state s) to e reason s1) of
                       (r, s2) \<Rightarrow> apply_loop E cfg (next_event r) (if transient to then s2\<lparr>sv_busy := True\<rparr> else s2)))))"

declare apply_loop.simps [code]

definition apply_event :: "('w, 'p) sup_env \<Rightarrow> SupervisorConfig \<Rightarrow> Event \<Rightarrow> string \<Rightarrow> ('w, 'p) supervisor \<Rightarrow> ('w, 'p) supervisor option" where
  "apply_event E cfg e reason s =
     map_option (\<lambda>s. s\<lparr>sv_busy := False\<rparr>) (apply_loop E cfg (Some (e, reason)) (s\<lparr>sv_busy := True\<rparr>))"

text \<open>One turn of the loop of \<open>run\<close>: wait for an event, or notice on an empty queue that the worker died.\<close>

definition run_turn :: "('w, 'p) sup_env \<Rightarrow> SupervisorConfig \<Rightarrow> ('w, 'p) supervisor \<Rightarrow> ('w, 'p) supervisor option" where
  "run_turn E cfg s =
     (if sv_state s = Stopped then Some s
      else let s1 = others E s
           in case sh_queue (sv_shared s1) of
                [] \<Rightarrow> (if w_failed (sv_worker s1) \<and> sv_state s1 \<in> {Ready, Running, Paused}
                       then apply_event E cfg DeviceError (''acquisition thread: '' @ error_text E (sv_worker s1)) s1
                       else Some s1)
              | (e, reason) # q \<Rightarrow> apply_event E cfg e reason (upd_shared (\<lambda>sh. sh\<lparr>sh_queue := q\<rparr>) s1))"

section \<open>What the other threads may do\<close>

text \<open>
  Events from outside: commands, the watchdog, the signal thread, start-up. The others are raised by
  the supervisor's own procedures only.
\<close>

definition external :: "Event \<Rightarrow> bool" where
  "external e \<longleftrightarrow> e \<in> {InitOk, Start, Pause, Resume, Calibrate, Stall, Reset, Stop}"

definition later :: "('w, 'p) shared \<Rightarrow> ('w, 'p) shared \<Rightarrow> bool" where
  "later sh sh' \<longleftrightarrow>
     (\<exists>evs. (\<forall>q \<in> set evs. external (fst q)) \<and> sh_queue sh' = sh_queue sh @ evs
        \<and> (sh_stop_pending sh' \<longleftrightarrow> sh_stop_pending sh \<or> Stop \<in> fst ` set evs))"

lemma later_refl: "later sh sh"
  unfolding later_def by (rule exI [of _ "[]"]) simp

lemma later_trans: "later a b \<Longrightarrow> later b c \<Longrightarrow> later a c"
proof -
  assume "later a b" "later b c"
  then obtain xs ys where xs: "\<forall>q \<in> set xs. external (fst q)" "sh_queue b = sh_queue a @ xs"
    "sh_stop_pending b \<longleftrightarrow> sh_stop_pending a \<or> Stop \<in> fst ` set xs"
    and ys: "\<forall>q \<in> set ys. external (fst q)" "sh_queue c = sh_queue b @ ys"
    "sh_stop_pending c \<longleftrightarrow> sh_stop_pending b \<or> Stop \<in> fst ` set ys"
    unfolding later_def by (elim exE conjE)
  show ?thesis unfolding later_def
    by (rule exI [of _ "xs @ ys"]) (use xs ys in \<open>auto simp: image_Un\<close>)
qed

lemma later_stop: "later a b \<Longrightarrow> sh_stop_pending a \<Longrightarrow> sh_stop_pending b"
  by (auto simp: later_def)

lemma later_same: "sh_queue b = sh_queue a \<Longrightarrow> sh_stop_pending b = sh_stop_pending a \<Longrightarrow> later a b"
  unfolding later_def by (rule exI [of _ "[]"]) simp

text \<open>Nothing of the supervisor's own changes, and its controls as given.\<close>

definition frame :: "('w, 'p) supervisor \<Rightarrow> ('w, 'p) supervisor \<Rightarrow> bool" where
  "frame s s' \<longleftrightarrow> sv_state s' = sv_state s \<and> sv_history s' = sv_history s \<and> later (sv_shared s) (sv_shared s')"

lemma frame_refl: "frame s s"
  by (simp add: frame_def later_refl)

lemma frame_trans: "frame a b \<Longrightarrow> frame b c \<Longrightarrow> frame a c"
  by (auto simp: frame_def intro: later_trans)

lemma frame_upd_worker: "frame s (upd_worker f s)" "sv_controls (upd_worker f s) = sv_controls s"
  by (simp_all add: frame_def upd_worker_def upd_shared_def later_same)

lemma frame_stop: "frame a b \<Longrightarrow> stopping a \<Longrightarrow> stopping b"
  by (auto simp: frame_def intro: later_stop)

definition last_control :: "('w, 'p) supervisor \<Rightarrow> bool \<Rightarrow> bool" where
  "last_control s on \<longleftrightarrow> sv_controls s \<noteq> [] \<and> last (sv_controls s) = (on, True)"

text \<open>What has been published: a chain of legal transitions that ends in the present state.\<close>

definition hist_ok :: "('w, 'p) supervisor \<Rightarrow> bool" where
  "hist_ok s \<longleftrightarrow>
     length (sv_history s) \<le> kHistoryLen
     \<and> (\<forall>h \<in> set (sv_history s). transition (he_from h) (he_event h) = Some (he_to h))
     \<and> successively (\<lambda>a b. he_to a = he_from b) (sv_history s)
     \<and> (if sv_history s = [] then sv_state s = Init else he_to (last (sv_history s)) = sv_state s)"

text \<open>What the last write to the control attribute was, in each state that lasts.\<close>

definition ctrl_ok :: "('w, 'p) supervisor \<Rightarrow> bool" where
  "ctrl_ok s \<longleftrightarrow>
     (case sv_state s of
        Running \<Rightarrow> last_control s True
      | Paused \<Rightarrow> last_control s False
      | Calibrating \<Rightarrow> True
      | Recovering \<Rightarrow> True
      | _ \<Rightarrow> sv_controls s = [] \<or> \<not> fst (last (sv_controls s)))"

definition settled :: "('w, 'p) supervisor \<Rightarrow> ('w, 'p) supervisor \<Rightarrow> bool" where
  "settled s s' \<longleftrightarrow> hist_ok s' \<and> ctrl_ok s' \<and> (transient (sv_state s') \<longrightarrow> stopping s') \<and> later (sv_shared s) (sv_shared s')"

definition sup_inv :: "('w, 'p) supervisor \<Rightarrow> bool" where
  "sup_inv s \<longleftrightarrow>
     hist_ok s \<and> ctrl_ok s \<and> \<not> sv_busy s \<and> (transient (sv_state s) \<longrightarrow> stopping s)
     \<and> (\<forall>q \<in> set (sh_queue (sv_shared s)). external (fst q))
     \<and> (stopping s \<longrightarrow> sv_state s = Stopped \<or> Stop \<in> fst ` set (sh_queue (sv_shared s)))"

primrec run_turns :: "('w, 'p) sup_env \<Rightarrow> SupervisorConfig \<Rightarrow> nat \<Rightarrow> ('w, 'p) supervisor \<Rightarrow> ('w, 'p) supervisor option" where
  "run_turns E cfg 0 s = Some s"
| "run_turns E cfg (Suc n) s = Option.bind (run_turn E cfg s) (run_turns E cfg n)"

locale other_threads =
  fixes E :: "('w, 'p) sup_env"
  assumes threads_later: "later sh (se_threads E t sh)"
    and threads_failed: "w_failed (sh_worker sh) \<Longrightarrow> w_failed (sh_worker (se_threads E t sh))"
begin

lemma frame_others: "frame s (others E s)" "sv_controls (others E s) = sv_controls s"
  "w_failed (sv_worker s) \<Longrightarrow> w_failed (sv_worker (others E s))"
  using threads_later threads_failed by (simp_all add: others_def frame_def)

lemma frame_with_device:
  assumes "with_device E f s = (r, s')"
  shows "frame s s'" "sv_controls s' = sv_controls s" "w_failed (sv_worker s) \<Longrightarrow> w_failed (sv_worker s')"
proof -
  obtain d where s': "s' = upd_shared (\<lambda>sh. sh\<lparr>sh_device := d\<rparr>) (others E s)"
    using assms by (auto simp: with_device_def Let_def split: prod.splits)
  have "frame (others E s) s'" by (simp add: s' frame_def upd_shared_def later_same)
  then show "frame s s'" using frame_others(1) by (blast intro: frame_trans)
  show "sv_controls s' = sv_controls s" "w_failed (sv_worker s) \<Longrightarrow> w_failed (sv_worker s')"
    using frame_others by (simp_all add: s' upd_shared_def)
qed

lemma frame_control_write:
  assumes "control_write E on s = (r, s')"
  shows "frame s s'" "sv_controls s' = sv_controls s @ [(on, r = None)]"
    "w_failed (sv_worker s) \<Longrightarrow> w_failed (sv_worker s')"
proof -
  obtain x s1 where w: "with_device E (if on then start_acquisition (se_os E) else stop_acquisition (se_os E)) s = (x, s1)"
    by fastforce
  then have s': "s' = s1\<lparr>sv_controls := sv_controls s1 @ [(on, error_of E x = None)]\<rparr>" "r = error_of E x"
    using assms by (auto simp: control_write_def)
  show "frame s s'" "sv_controls s' = sv_controls s @ [(on, r = None)]"
    "w_failed (sv_worker s) \<Longrightarrow> w_failed (sv_worker s')"
    using frame_with_device [OF w] by (simp_all add: s' frame_def)
qed

lemma frame_sleep:
  assumes "sleep_unless_stopping E d s = (r, s')"
  shows "frame s s'" "sv_controls s' = sv_controls s" "\<not> r \<Longrightarrow> stopping s'"
    "w_failed (sv_worker s) \<Longrightarrow> w_failed (sv_worker s')"
proof -
  have fr: "frame s (x\<lparr>sv_now := n\<rparr>) = frame s x" for x n by (simp add: frame_def)
  show "frame s s'" "sv_controls s' = sv_controls s" "\<not> r \<Longrightarrow> stopping s'"
    "w_failed (sv_worker s) \<Longrightarrow> w_failed (sv_worker s')"
    using assms frame_others [of s]
    by (auto simp: sleep_unless_stopping_def Let_def fr frame_refl split: if_splits)
qed

lemma frame_recovery_wait:
  assumes "recovery_wait E before deadline s = (r, s')"
  shows "frame s s' \<and> sv_controls s' = sv_controls s \<and> (r = Stopping \<longrightarrow> stopping s')
    \<and> (r = Flowing \<longrightarrow> samples_read (sv_worker s') > before)"
  using assms
proof (induction "nat (deadline - sv_now s)" arbitrary: s rule: less_induct)
  case less
  note o = frame_others [of s]
  consider (fin) "\<not> sv_now s < deadline"
    | (flow) "sv_now s < deadline" "samples_read (sv_worker (others E s)) > before"
    | (fail) "sv_now s < deadline" "\<not> samples_read (sv_worker (others E s)) > before" "w_failed (sv_worker (others E s))"
    | (slp) "sv_now s < deadline" "\<not> samples_read (sv_worker (others E s)) > before" "\<not> w_failed (sv_worker (others E s))"
    by blast
  then show ?case
  proof cases
    case fin
    then show ?thesis using less.prems by (simp add: recovery_wait.simps [of E before deadline s] frame_refl)
  next
    case flow
    then show ?thesis using less.prems o by (auto simp: recovery_wait.simps [of E before deadline s] Let_def)
  next
    case fail
    then show ?thesis using less.prems o by (auto simp: recovery_wait.simps [of E before deadline s] Let_def)
  next
    case slp
    obtain b s2 where sl: "sleep_unless_stopping E kPollStep (others E s) = (b, s2)" by fastforce
    note f = frame_sleep [OF sl]
    have s2: "frame s s2" "sv_controls s2 = sv_controls s" using o f frame_trans by (blast, simp)
    show ?thesis
    proof (cases b)
      case True
      then have "nat (deadline - sv_now s2) < nat (deadline - sv_now s)"
        using sleep_advances [of E kPollStep "others E s" s2] sl others_now [of s E] slp(1) by simp
      moreover have "recovery_wait E before deadline s2 = (r, s')"
        using less.prems slp sl True by (simp add: recovery_wait.simps [of E before deadline s] Let_def)
      ultimately have "frame s2 s' \<and> sv_controls s' = sv_controls s2 \<and> (r = Stopping \<longrightarrow> stopping s')
          \<and> (r = Flowing \<longrightarrow> samples_read (sv_worker s') > before)" by (rule less.hyps)
      then show ?thesis using s2 frame_trans by auto
    next
      case False
      then show ?thesis using less.prems slp sl s2 f(3) by (auto simp: recovery_wait.simps [of E before deadline s] Let_def)
    qed
  qed
qed

lemma frame_calibration_wait:
  assumes "calibration_wait E deadline s = (r, s')"
  shows "frame s s' \<and> sv_controls s' = sv_controls s \<and> (r \<longrightarrow> stopping s' \<or> w_failed (sv_worker s'))"
  using assms
proof (induction "nat (deadline - sv_now s)" arbitrary: s rule: less_induct)
  case less
  note o = frame_others [of s]
  consider (fin) "\<not> sv_now s < deadline"
    | (fail) "sv_now s < deadline" "w_failed (sv_worker (others E s))"
    | (slp) "sv_now s < deadline" "\<not> w_failed (sv_worker (others E s))" by blast
  then show ?case
  proof cases
    case fin
    then show ?thesis using less.prems by (simp add: calibration_wait.simps [of E deadline s] frame_refl)
  next
    case fail
    then show ?thesis using less.prems o by (auto simp: calibration_wait.simps [of E deadline s] Let_def)
  next
    case slp
    obtain b s2 where sl: "sleep_unless_stopping E (kPollStep * 5) (others E s) = (b, s2)" by fastforce
    note f = frame_sleep [OF sl]
    have s2: "frame s s2" "sv_controls s2 = sv_controls s" using o f frame_trans by (blast, simp)
    show ?thesis
    proof (cases b)
      case True
      then have "nat (deadline - sv_now s2) < nat (deadline - sv_now s)"
        using sleep_advances [of E "kPollStep * 5" "others E s" s2] sl others_now [of s E] slp(1) by simp
      moreover have "calibration_wait E deadline s2 = (r, s')"
        using less.prems slp sl True by (simp add: calibration_wait.simps [of E deadline s] Let_def)
      ultimately have "frame s2 s' \<and> sv_controls s' = sv_controls s2 \<and> (r \<longrightarrow> stopping s' \<or> w_failed (sv_worker s'))"
        by (rule less.hyps)
      then show ?thesis using s2 frame_trans by auto
    next
      case False
      then show ?thesis using less.prems slp sl s2 f(3) by (auto simp: calibration_wait.simps [of E deadline s] Let_def)
    qed
  qed
qed

lemma frame_restart_worker:
  assumes "restart_worker E s = (r, s')"
  shows "frame s s'" "sv_controls s' = sv_controls s"
proof -
  obtain x s1 where w: "with_device E (device_reopen (se_os E)) (upd_worker worker_stop s) = (x, s1)" by fastforce
  note f = frame_with_device [OF w]
  have s1: "frame s s1" "sv_controls s1 = sv_controls s"
    using frame_trans [OF frame_upd_worker(1) f(1)] f(2) frame_upd_worker(2) by auto
  have "s' = s \<or> s' = s1 \<or> s' = upd_worker (worker_start (sv_now s1)) s1"
    using assms w by (auto simp: restart_worker_def split: if_splits sum.splits)
  then show "frame s s'" "sv_controls s' = sv_controls s"
    using s1 frame_trans [OF s1(1) frame_upd_worker(1)] frame_refl by (auto simp: frame_upd_worker(2))
qed

lemma frame_soft_reset:
  assumes "soft_reset E s = (r, s')"
  shows "frame s s'" "r = None \<Longrightarrow> last_control s' True"
proof -
  obtain x s1 where c: "control_write E False s = (x, s1)" by fastforce
  note f1 = frame_control_write [OF c]
  have "frame s s' \<and> (r = None \<longrightarrow> last_control s' True)"
  proof (cases x)
    case (Some p)
    then show ?thesis using assms c f1 by (auto simp: soft_reset_def)
  next
    case None
    then have w: "control_write E True (upd_worker (worker_rearm (sv_now s1)) s1) = (r, s')"
      using assms c by (simp add: soft_reset_def)
    note f2 = frame_control_write [OF w]
    have "frame s s'" by (rule frame_trans [OF frame_trans [OF f1(1) frame_upd_worker(1)] f2(1)])
    then show ?thesis using f2(2) by (simp add: last_control_def)
  qed
  then show "frame s s'" "r = None \<Longrightarrow> last_control s' True" by blast+
qed

lemma frame_field: "frame s (x\<lparr>sv_recoveries := n\<rparr>) = frame s x" "frame s (x\<lparr>sv_recovery_attempts := n\<rparr>) = frame s x"
  "frame (x\<lparr>sv_recovery_attempts := n\<rparr>) s = frame x s" "frame s (x\<lparr>sv_last_calibration := c\<rparr>) = frame s x"
  "frame s (x\<lparr>sv_files := d\<rparr>) = frame s x"
  by (simp_all add: frame_def)

lemma recovery_attempt_end:
  assumes "recovery_attempt E cfg n s = (r, s')"
  shows "frame s s' \<and> (\<forall>q. r = Return (Some q) \<longrightarrow> fst q = Recovered \<and> last_control s' True)
    \<and> (r = Return None \<longrightarrow> stopping s')"
proof -
  obtain x s1 where p: "with_device E (read_device_id (se_os E)) s = (x, s1)" by fastforce
  note f1 = frame_with_device [OF p]
  obtain y s2 where w: "restart_worker E s1 = (y, s2)" by fastforce
  have f2: "frame s s2" using f1(1) frame_restart_worker(1) [OF w] by (rule frame_trans)
  obtain z s3 where sr: "soft_reset E s2 = (z, s3)" by fastforce
  have f3: "frame s s3" using f2 frame_soft_reset(1) [OF sr] by (rule frame_trans)
  obtain e s4 where rw: "recovery_wait E (samples_read (sv_worker s2)) (sv_now s3 + sc_recovery_timeout cfg) s3 = (e, s4)"
    by fastforce
  note f4 = frame_recovery_wait [OF rw]
  have f4': "frame s s4" using f3 f4 frame_trans by blast
  have lc: "last_control s4 True" if "z = None" using frame_soft_reset(2) [OF sr that] f4 by (simp add: last_control_def)
  have "last_control (s4\<lparr>sv_recoveries := n\<rparr>) True = last_control s4 True" for n by (simp add: last_control_def)
  then show ?thesis
    using assms p w sr rw f1(1) f2 f3 f4 f4' lc
    by (auto simp: recovery_attempt_def Let_def frame_field split: sum.splits if_splits option.splits wait_end.splits)
qed

lemma recover_from_end:
  assumes "recover_from E cfg n p s = (r, s')"
  shows "frame s s' \<and> (\<forall>q. r = Some q \<longrightarrow> fst q = Recovered \<and> last_control s' True \<or> fst q = RecoveryFailed)
    \<and> (r = None \<longrightarrow> stopping s')"
  using assms
proof (induction "nat (sc_max_recovery_attempts cfg + 1 - n)" arbitrary: n p s rule: less_induct)
  case less
  let ?m = "sc_max_recovery_attempts cfg"
  let ?s = "s\<lparr>sv_recovery_attempts := sv_recovery_attempts s + 1\<rparr>"
  obtain x s1 where a: "recovery_attempt E cfg n ?s = (x, s1)" by fastforce
  note ae = recovery_attempt_end [OF a, unfolded frame_field]
  obtain b s2 where sl: "sleep_unless_stopping E (sc_recovery_backoff cfg * 2 ^ nat (n - 1)) s1 = (b, s2)" by fastforce
  note fs = frame_sleep [OF sl]
  have f2: "frame s s2" using ae fs(1) frame_trans by blast
  have IH: "frame t s' \<and> (\<forall>q. r = Some q \<longrightarrow> fst q = Recovered \<and> last_control s' True \<or> fst q = RecoveryFailed)
    \<and> (r = None \<longrightarrow> stopping s')" if "recover_from E cfg (n + 1) q t = (r, s')" "n \<le> ?m" for q t
    using less.hyps [OF _ that(1)] that(2) by simp
  note unf = recover_from.simps [of E cfg n p s]
  consider (over) "\<not> n \<le> ?m" | (stop) "n \<le> ?m" "stopping s" | (go) "n \<le> ?m" "\<not> stopping s" by blast
  then show ?case
  proof cases
    case over
    then show ?thesis using less.prems by (auto simp: unf frame_refl)
  next
    case stop
    then show ?thesis using less.prems by (auto simp: unf frame_refl)
  next
    case go
    show ?thesis
    proof (cases x)
      case (Return q)
      then show ?thesis using less.prems go a ae by (auto simp: unf)
    next
      case (Problem q)
      show ?thesis
      proof (cases "n < ?m")
        case True
        then have "if b then recover_from E cfg (n + 1) q s2 = (r, s') else r = None \<and> s' = s2"
          using less.prems go a Problem sl by (auto simp: unf split: if_splits bool.splits)
        then show ?thesis using IH [of q s2] go f2 fs(3) frame_trans by (auto split: if_splits)
      next
        case False
        then have "recover_from E cfg (n + 1) q s1 = (r, s')" using less.prems [unfolded unf] go a Problem by simp
        then show ?thesis using IH [of q s1] go ae frame_trans by blast
      qed
    qed
  qed
qed

lemma finish_calibration_end:
  assumes "finish_calibration E cfg b f s = (q, s')"
  shows "frame s s'" "sv_controls s' = sv_controls s" "stopping s' = stopping s"
    "\<forall>x. q = Some x \<longrightarrow> fst x = CalibrationDone \<or> fst x = DeviceError" "q = None \<Longrightarrow> b \<and> \<not> w_failed (sv_worker s)"
proof -
  have sv: "frame t (save_calibration E cfg r t)" "sv_controls (save_calibration E cfg r t) = sv_controls t"
    "sv_shared (save_calibration E cfg r t) = sv_shared t" for t r
    by (simp_all add: save_calibration_def Let_def frame_field frame_refl split: prod.split)
  have lc: "frame t (t\<lparr>sv_last_calibration := c\<rparr>)" for t c by (simp add: frame_field frame_refl)
  let ?r = "cal_result (sc_calibration_min_samples cfg) f"
  let ?t = "s\<lparr>sv_last_calibration := Some ?r\<rparr>"
  consider "w_failed (sv_worker s)" | "\<not> w_failed (sv_worker s)" "b" | "\<not> w_failed (sv_worker s)" "\<not> b" "\<not> cr_ok ?r"
    | "\<not> w_failed (sv_worker s)" "\<not> b" "cr_ok ?r" by blast
  then have "(frame s s' \<and> sv_controls s' = sv_controls s \<and> stopping s' = stopping s)
      \<and> (\<forall>x. q = Some x \<longrightarrow> fst x = CalibrationDone \<or> fst x = DeviceError) \<and> (q = None \<longrightarrow> b \<and> \<not> w_failed (sv_worker s))"
  proof cases
    case 4
    then have "s' = save_calibration E cfg ?r ?t" "\<exists>m. q = Some (CalibrationDone, m)"
      using assms by (auto simp: finish_calibration_def Let_def)
    then show ?thesis using frame_trans [OF lc sv(1)] sv(2,3) [of ?r ?t] by auto
  qed (use assms in \<open>auto simp: finish_calibration_def Let_def frame_refl lc\<close>)
  then show "frame s s'" "sv_controls s' = sv_controls s" "stopping s' = stopping s"
    "\<forall>x. q = Some x \<longrightarrow> fst x = CalibrationDone \<or> fst x = DeviceError" "q = None \<Longrightarrow> b \<and> \<not> w_failed (sv_worker s)" by blast+
qed

lemma run_calibration_end:
  assumes "run_calibration E cfg s = (r, s')"
  shows "frame s s'
    \<and> (\<forall>q. r = Inr (Some q) \<longrightarrow> fst q = CalibrationDone \<and> last_control s' False \<or> fst q = DeviceError)
    \<and> (r = Inr None \<longrightarrow> stopping s')"
proof -
  obtain x s1 where p: "with_device E (read_sample_rate (se_os E)) s = (x, s1)" by fastforce
  note f1 = frame_with_device [OF p]
  show ?thesis
  proof (cases x)
    case (Inl e)
    then show ?thesis using assms p f1 by (auto simp: run_calibration_def)
  next
    case (Inr nominal)
    obtain y s2 where c: "control_write E True (upd_worker (\<lambda>w. w\<lparr>w_calibrator := Some (cal_reset nominal)\<rparr>) s1) = (y, s2)"
      by fastforce
    have f2: "frame s s2"
      by (rule frame_trans [OF frame_trans [OF f1(1) frame_upd_worker(1)] frame_control_write(1) [OF c]])
    obtain b s3 where w: "calibration_wait E (sv_now s2 + sc_calibration_duration cfg) s2 = (b, s3)" by fastforce
    note f3 = frame_calibration_wait [OF w]
    let ?s4 = "upd_worker (\<lambda>w. w\<lparr>w_calibrator := None\<rparr>) s3"
    obtain z s5 where d: "control_write E False ?s4 = (z, s5)" by fastforce
    note f5 = frame_control_write [OF d]
    have fr5: "frame s s5"
      by (rule frame_trans [OF frame_trans [OF frame_trans [OF f2 conjunct1 [OF f3]] frame_upd_worker(1)] f5(1)])
    have "b \<Longrightarrow> stopping ?s4 \<or> w_failed (sv_worker ?s4)" using f3 by (auto simp: upd_worker_def upd_shared_def)
    then have b: "b \<Longrightarrow> stopping s5 \<or> w_failed (sv_worker s5)" using f5 frame_stop by blast
    let ?f = "case w_calibrator (sv_worker s3) of Some f \<Rightarrow> f | None \<Rightarrow> cal_reset nominal"
    obtain q s6 where e: "finish_calibration E cfg b ?f s5 = (q, s6)" by fastforce
    note fe = finish_calibration_end [OF e]
    have "z = None \<Longrightarrow> last_control s6 False" using f5(2) fe(2) by (simp add: last_control_def)
    moreover have "q = None \<Longrightarrow> stopping s6" using fe(3,5) b by blast
    ultimately have e': "frame s s6 \<and> (z = None \<longrightarrow> last_control s6 False) \<and> (q = None \<longrightarrow> stopping s6)"
      using frame_trans [OF fr5 fe(1)] by blast
    consider (start) ex where "y = Some ex" | (stop) ex where "y = None" "z = Some ex" | (fin) "y = None" "z = None" by fastforce
    then show ?thesis
    proof cases
      case start
      then show ?thesis using assms p Inr c f2 by (auto simp: run_calibration_def)
    next
      case stop
      then have "r = Inl ex \<and> s' = s5" using assms p Inr c w d by (simp add: run_calibration_def Let_def)
      then show ?thesis using fr5 by simp
    next
      case fin
      then have "r = Inr q \<and> s' = s6" using assms p Inr c w d e by (simp add: run_calibration_def Let_def)
      then show ?thesis using e' fin fe(4) by blast
    qed
  qed
qed

lemma hist_ok_cong: "sv_state s' = sv_state s \<Longrightarrow> sv_history s' = sv_history s \<Longrightarrow> hist_ok s' = hist_ok s"
  by (simp only: hist_ok_def)

lemma ctrl_ok_cong: "sv_state s' = sv_state s \<Longrightarrow> sv_controls s' = sv_controls s \<Longrightarrow> ctrl_ok s' = ctrl_ok s"
  by (simp only: ctrl_ok_def last_control_def)

lemma hist_ok_frame: "frame s s' \<Longrightarrow> hist_ok s' = hist_ok s"
  by (simp add: hist_ok_def frame_def)

lemma busy_irrelevant [simp]: "hist_ok (s\<lparr>sv_busy := b\<rparr>) = hist_ok s" "ctrl_ok (s\<lparr>sv_busy := b\<rparr>) = ctrl_ok s"
  "last_control (s\<lparr>sv_busy := b\<rparr>) on = last_control s on" "frame (s\<lparr>sv_busy := b\<rparr>) t = frame s t" "frame t (s\<lparr>sv_busy := b\<rparr>) = frame t s"
  by (simp_all add: hist_ok_def ctrl_ok_def last_control_def frame_def split: State.split)

lemma publish_simps [simp]:
  "sv_state (publish_state E from to e r s) = to" "sv_shared (publish_state E from to e r s) = sv_shared s"
  "sv_controls (publish_state E from to e r s) = sv_controls s"
  "last_control (publish_state E from to e r s) on = last_control s on"
  by (simp_all add: publish_state_def Let_def last_control_def)

lemma publish_ok:
  assumes "hist_ok s" "transition (sv_state s) e = Some to" "frame s s1"
  shows "hist_ok (publish_state E (sv_state s) to e r s1)"
proof -
  let ?x = "\<lparr>he_at = se_utc E (sv_now s1), he_from = sv_state s, he_to = to, he_event = e, he_reason = r\<rparr>"
  let ?h = "sv_history s @ [?x]"
  let ?p = "publish_state E (sv_state s) to e r s1"
  have h: "sv_history ?p = (if length ?h > kHistoryLen then tl ?h else ?h)"
    using assms(3) by (simp add: publish_state_def Let_def frame_def)
  have all: "\<forall>a \<in> set ?h. transition (he_from a) (he_event a) = Some (he_to a)" using assms(1,2) by (simp add: hist_ok_def)
  have ch: "successively (\<lambda>a b. he_to a = he_from b) ?h"
    using assms(1) by (auto simp: hist_ok_def successively_append_iff split: if_splits)
  have tl: "successively P (tl xs)" if "successively P xs" for P and xs :: "history_entry list"
    using that by (cases xs rule: remdups_adj.cases) simp_all
  have len: "length ?h \<le> Suc kHistoryLen" using assms(1) by (simp add: hist_ok_def)
  show ?thesis
  proof (cases "length ?h > kHistoryLen")
    case True
    then have ne: "sv_history s \<noteq> []" "sv_history ?p = tl ?h" using h by auto
    then have "last (tl ?h) = ?x" "tl ?h \<noteq> []" by simp_all
    moreover have "set (tl ?h) \<subseteq> set ?h" using ne(1) by (cases "sv_history s") auto
    ultimately show ?thesis
      unfolding hist_ok_def ne(2) using all tl [OF ch] len by auto
  next
    case False
    then show ?thesis unfolding hist_ok_def h using all ch by simp
  qed
qed

lemma apply_none: "apply_loop E cfg None s = Some s"
  by (subst apply_loop.simps) simp

lemma apply_quiet:
  assumes "transition (sv_state s) e = Some to" "to \<notin> {Calibrating, Recovering, Fault}" "prepare E to (sv_state s) s = (None, s1)"
  shows "apply_loop E cfg (Some (e, r)) s = Some (publish_state E (sv_state s) to e r s1)"
proof -
  have "enter E cfg to t = (Inr None, t)" for t using assms(2) by (cases to) (simp_all add: enter_def)
  then show ?thesis
    using assms by (subst apply_loop.simps) (simp add: next_event_def apply_none transient_def)
qed

lemma enter_fault_end:
  "sv_state (enter_fault E cfg r s) = sv_state s" "sv_history (enter_fault E cfg r s) = sv_history s"
  "sv_controls (enter_fault E cfg r s) \<noteq> [] \<and> \<not> fst (last (sv_controls (enter_fault E cfg r s)))"
  "later (sv_shared s) (sv_shared (enter_fault E cfg r s))"
proof -
  obtain x s1 where c: "control_write E False s = (x, s1)" by fastforce
  note f = frame_control_write [OF c]
  obtain path files d where cap: "capture_fault_evidence (se_os E) (se_what E) (se_capture E (sv_tick s1)) (sc_state_dir cfg)
             (sc_evidence_keep cfg) r (JObj (status E s1)) (sv_files s1) (sh_device (sv_shared s1)) = (path, files, d)"
    by (rule prod_cases3)
  have e: "enter_fault E cfg r s = (upd_shared (\<lambda>sh. sh\<lparr>sh_device := d\<rparr>) s1)
      \<lparr>sv_files := files, sv_faults := sv_faults s1 + 1, sv_last_fault_reason := r, sv_last_evidence_path := path\<rparr>"
    by (simp add: enter_fault_def c cap)
  have "later (sv_shared s1) (sv_shared (enter_fault E cfg r s))" unfolding e by (simp add: upd_shared_def later_same)
  then show "later (sv_shared s) (sv_shared (enter_fault E cfg r s))" using f(1) later_trans by (auto simp: frame_def)
  show "sv_state (enter_fault E cfg r s) = sv_state s" "sv_history (enter_fault E cfg r s) = sv_history s"
    "sv_controls (enter_fault E cfg r s) \<noteq> [] \<and> \<not> fst (last (sv_controls (enter_fault E cfg r s)))"
    using f by (simp_all add: e upd_shared_def frame_def)
qed

lemma apply_to_fault:
  assumes "hist_ok s" "transition (sv_state s) e = Some Fault"
  obtains s' where "apply_loop E cfg (Some (e, r)) s = Some s'" "sv_state s' = Fault" "settled s s'"
proof -
  let ?p = "publish_state E (sv_state s) Fault e r s"
  define why where "why = (if sv_history ?p = [] then [] else he_reason (last (sv_history ?p)))"
  let ?s = "enter_fault E cfg why ?p"
  note f = enter_fault_end [where cfg = cfg and r = why and s = ?p]
  have "enter E cfg Fault ?p = (Inr None, ?s)" by (simp add: enter_def why_def)
  then have "apply_loop E cfg (Some (e, r)) s = Some ?s"
    using assms(2) by (subst apply_loop.simps) (simp add: prepare_def next_event_def apply_none transient_def)
  moreover have "hist_ok ?p" by (rule publish_ok [OF assms frame_refl])
  then have "hist_ok ?s" using hist_ok_cong [OF f(1,2)] by simp
  then have "settled s ?s" using f by (simp add: settled_def ctrl_ok_def transient_def)
  ultimately show thesis using f(1) that by simp
qed

lemma settled_trans: "later (sv_shared s) (sv_shared t) \<Longrightarrow> settled t s' \<Longrightarrow> settled s s'"
  by (auto simp: settled_def intro: later_trans)

text \<open>A state reached without a procedure behind it.\<close>

lemma apply_lasting:
  assumes "hist_ok s" "transition (sv_state s) e = Some to" "to \<in> {Ready, Running, Paused, Stopped}"
    "prepare E to (sv_state s) s = (None, s1)" "frame s s1"
    "ctrl_ok (publish_state E (sv_state s) to e r s1)"
  shows "\<exists>s'. apply_loop E cfg (Some (e, r)) s = Some s' \<and> sv_state s' = to \<and> settled s s'"
proof (intro exI conjI)
  let ?p = "publish_state E (sv_state s) to e r s1"
  show "apply_loop E cfg (Some (e, r)) s = Some ?p" using assms by (intro apply_quiet) auto
  show "settled s ?p"
    using assms publish_ok [OF assms(1,2,5), of r] by (auto simp: settled_def transient_def frame_def)
qed simp

text \<open>A control write that decides between the state asked for and Fault.\<close>

lemma apply_control:
  assumes "hist_ok s" "transition (sv_state s) e = Some to" "to \<in> {Running, Paused}" "sv_state s \<in> {Ready, Running, Paused}"
    "prepare E to (sv_state s) s = control_write E (to = Running) t" "frame s t"
  obtains s' where "apply_loop E cfg (Some (e, r)) s = Some s'" "settled s s'"
proof -
  obtain x s1 where c: "control_write E (to = Running) t = (x, s1)" by fastforce
  note f = frame_control_write [OF c]
  have fr: "frame s s1" by (rule frame_trans [OF assms(6) f(1)])
  show thesis
  proof (cases x)
    case None
    have "ctrl_ok (publish_state E (sv_state s) to e r s1)"
      using assms(3) f(2) None by (auto simp: ctrl_ok_def last_control_def publish_state_def Let_def)
    moreover have "prepare E to (sv_state s) s = (None, s1)" using assms(5) c None by simp
    ultimately show thesis using apply_lasting [OF assms(1,2) _ _ fr, of r cfg] assms(3) that by blast
  next
    case (Some ex)
    have st: "transition (sv_state s1) DeviceError = Some Fault"
      using fr assms(4) by (auto simp: frame_def device_error_accepted)
    have "hist_ok s1" using assms(1) hist_ok_frame [OF fr] by simp
    then obtain s' where s': "apply_loop E cfg (Some (DeviceError, ex)) s1 = Some s'" "settled s1 s'"
      using st by (elim apply_to_fault [of s1 DeviceError cfg ex])
    have "apply_loop E cfg (Some (e, r)) s = Some s'"
      using assms(2,5) c Some s'(1) by (subst apply_loop.simps) simp
    moreover have "settled s s'" using fr s'(2) by (auto simp: frame_def intro: settled_trans)
    ultimately show thesis using that by blast
  qed
qed

text \<open>A procedure runs: what it returns is applied to the state it ran in.\<close>

lemma apply_procedure:
  assumes "transition (sv_state s) e = Some to" "transient to"
    "enter E cfg to (publish_state E (sv_state s) to e r s) = (x, t)"
  shows "apply_loop E cfg (Some (e, r)) s = apply_loop E cfg (next_event x) (t\<lparr>sv_busy := True\<rparr>)"
proof -
  have "prepare E to (sv_state s) s = (None, s)" using assms(2) by (cases to) (simp_all add: prepare_def transient_def)
  then show ?thesis using assms by (subst apply_loop.simps) simp
qed

lemma apply_ready:
  assumes "hist_ok s" "transition (sv_state s) e = Some Ready" "sv_controls s = [] \<or> \<not> fst (last (sv_controls s))"
  obtains s' where "apply_loop E cfg (Some (e, r)) s = Some s'" "settled s s'"
proof -
  have "ctrl_ok (publish_state E (sv_state s) Ready e r s)" using assms(3) by (simp add: ctrl_ok_def)
  moreover have "prepare E Ready (sv_state s) s = (None, s)" by (simp add: prepare_def)
  ultimately show thesis using apply_lasting [OF assms(1,2) _ _ frame_refl, of r cfg] that by blast
qed

lemma apply_calibrate:
  assumes "hist_ok s" "transition (sv_state s) e = Some Calibrating"
  obtains s' where "apply_loop E cfg (Some (e, r)) s = Some s'" "settled s s'"
proof -
  let ?p = "publish_state E (sv_state s) Calibrating e r s"
  obtain x t where c: "run_calibration E cfg ?p = (x, t)" by fastforce
  note f = run_calibration_end [OF c]
  let ?t = "t\<lparr>sv_busy := True\<rparr>"
  have step: "apply_loop E cfg (Some (e, r)) s = apply_loop E cfg (next_event x) ?t"
    using apply_procedure [OF assms(2), of cfg r x t] c by (simp add: transient_def enter_def)
  have h: "hist_ok ?t" using hist_ok_frame [OF conjunct1 [OF f]] publish_ok [OF assms frame_refl] by simp
  have st: "sv_state ?t = Calibrating" and lt: "later (sv_shared s) (sv_shared ?t)" using f by (simp_all add: frame_def)
  have err: "\<exists>s'. apply_loop E cfg (Some (DeviceError, why)) ?t = Some s' \<and> settled s s'" for why
  proof -
    obtain s' where "apply_loop E cfg (Some (DeviceError, why)) ?t = Some s'" "settled ?t s'"
      by (rule apply_to_fault [OF h, of DeviceError cfg why]) (simp add: st device_error_accepted)
    then show ?thesis using settled_trans [OF lt] by blast
  qed
  consider (ex) why where "x = Inl why" | (non) "x = Inr None" | (ev) q why where "x = Inr (Some (q, why))"
    by (cases x) (auto, metis not_None_eq surj_pair)
  then show thesis
  proof cases
    case ex
    then show thesis using err step that by (auto simp: next_event_def)
  next
    case non
    then have "stopping t" using f by blast
    then have "settled s ?t" using h lt st by (simp add: settled_def ctrl_ok_def)
    then show thesis using non step that by (simp add: next_event_def apply_none)
  next
    case ev
    then have q: "q = CalibrationDone \<and> last_control ?t False \<or> q = DeviceError" using f by auto
    show thesis
    proof (cases "q = DeviceError")
      case True
      then show thesis using ev err [of why] step that by (auto simp: next_event_def)
    next
      case False
      then have d: "q = CalibrationDone" "last_control ?t False" using q by auto
      have "transition (sv_state ?t) CalibrationDone = Some Ready" by (simp add: st into_ready)
      moreover have "sv_controls ?t = [] \<or> \<not> fst (last (sv_controls ?t))" using d(2) by (simp add: last_control_def)
      ultimately obtain s' where "apply_loop E cfg (Some (CalibrationDone, why)) ?t = Some s'" "settled ?t s'"
        using apply_ready [OF h, of CalibrationDone cfg why] by blast
      then show thesis using step that settled_trans [OF lt] ev d(1) by (auto simp: next_event_def)
    qed
  qed
qed

lemma apply_recover:
  assumes "hist_ok s" "transition (sv_state s) e = Some Recovering"
  obtains s' where "apply_loop E cfg (Some (e, r)) s = Some s'" "settled s s'"
proof -
  let ?p = "publish_state E (sv_state s) Recovering e r s"
  obtain x t where c: "run_recovery E cfg ?p = (x, t)" by fastforce
  note f = recover_from_end [OF c [unfolded run_recovery_def]]
  let ?t = "t\<lparr>sv_busy := True\<rparr>"
  have step: "apply_loop E cfg (Some (e, r)) s = apply_loop E cfg x ?t"
    using apply_procedure [OF assms(2), of cfg r "Inr x" t] c by (simp add: transient_def enter_def next_event_def)
  have h: "hist_ok ?t" using hist_ok_frame [OF conjunct1 [OF f]] publish_ok [OF assms frame_refl] by simp
  have st: "sv_state ?t = Recovering" and lt: "later (sv_shared s) (sv_shared ?t)" using f by (simp_all add: frame_def)
  consider (non) "x = None" | (rec) why where "x = Some (Recovered, why)" "last_control ?t True"
    | (bad) why where "x = Some (RecoveryFailed, why)" 
  proof (cases x)
    case (Some q)
    then have "fst q = Recovered \<and> last_control t True \<or> fst q = RecoveryFailed" using f by blast
    then show thesis using Some that(2,3) [of "snd q"] by (cases q) auto
  qed (rule that(1))
  then show thesis
  proof cases
    case non
    then have "stopping t" using f by blast
    then have "settled s ?t" using h lt st by (simp add: settled_def ctrl_ok_def)
    then show thesis using non step that by (simp add: apply_none)
  next
    case rec
    have tr: "transition (sv_state ?t) Recovered = Some Running" by (simp add: st into_running)
    have "ctrl_ok (publish_state E (sv_state ?t) Running Recovered why ?t)" using rec(2) by (simp add: ctrl_ok_def)
    moreover have "prepare E Running (sv_state ?t) ?t = (None, ?t)" by (simp add: prepare_def st)
    ultimately obtain s' where "apply_loop E cfg (Some (Recovered, why)) ?t = Some s'" "settled ?t s'"
      using apply_lasting [OF h tr _ _ frame_refl, of why cfg] by blast
    then show thesis using step that settled_trans [OF lt] rec(1) by auto
  next
    case bad
    obtain s' where "apply_loop E cfg (Some (RecoveryFailed, why)) ?t = Some s'" "settled ?t s'"
      by (rule apply_to_fault [OF h, of RecoveryFailed cfg why]) (simp add: st into_fault)
    then show thesis using step that settled_trans [OF lt] bad by auto
  qed
qed

text \<open>Every event from outside, and every failure of the worker, is applied completely.\<close>

lemma apply_settles:
  assumes h: "hist_ok s" and c: "ctrl_ok s" and tr: "transient (sv_state s) \<Longrightarrow> stopping s"
    and e: "external e \<or> e = DeviceError"
  shows "\<exists>s'. apply_loop E cfg (Some (e, r)) s = Some s' \<and> settled s s' \<and> (e = Stop \<longrightarrow> sv_state s' = Stopped)"
proof (cases "transition (sv_state s) e")
  case None
  then have "apply_loop E cfg (Some (e, r)) s = Some s" by (subst apply_loop.simps) simp
  moreover have "e = Stop \<Longrightarrow> sv_state s = Stopped" using None by (simp add: stop_accepted split: if_splits)
  ultimately show ?thesis using h c tr by (simp add: settled_def later_refl)
next
  case (Some to)
  have fin: ?thesis if "apply_loop E cfg (Some (e, r)) s = Some s'" "settled s s'" "e \<noteq> Stop" for s' using that by blast
  show ?thesis
  proof (cases to)
    case Init
    then show ?thesis using Some never_init by simp
  next
    case Ready
    then have i: "sv_state s = Init" "e = InitOk" using Some e by (auto simp: into_ready external_def)
    then have "sv_controls s = [] \<or> \<not> fst (last (sv_controls s))" using c by (simp add: ctrl_ok_def)
    then show ?thesis using apply_ready [OF h Some [unfolded Ready], of cfg r] fin i(2) by blast
  next
    case Running
    then have i: "sv_state s \<in> {Ready, Paused}" "e \<noteq> Stop" using Some e by (auto simp: into_running external_def)
    then have "prepare E to (sv_state s) s = control_write E (to = Running) (upd_worker (worker_rearm (sv_now s)) s)"
      by (auto simp: prepare_def Running)
    then show ?thesis
      using apply_control [OF h Some _ _ _ frame_upd_worker(1), of _ cfg r] fin i Running by blast
  next
    case Paused
    then have i: "sv_state s = Running" "e \<noteq> Stop" using Some by (auto simp: into_paused)
    have "prepare E to (sv_state s) s = control_write E (to = Running) s" by (simp add: prepare_def Paused)
    then show ?thesis using apply_control [OF h Some _ _ _ frame_refl, of cfg r] fin i Paused by blast
  next
    case Calibrating
    then show ?thesis using apply_calibrate [OF h Some [unfolded Calibrating], of cfg r] fin Some by (auto simp: into_transient)
  next
    case Recovering
    then show ?thesis using apply_recover [OF h Some [unfolded Recovering], of cfg r] fin Some by (auto simp: into_transient)
  next
    case Fault
    then show ?thesis using apply_to_fault [OF h Some [unfolded Fault], of cfg r] fin Some by (auto simp: into_fault)
  next
    case Stopped
    obtain x s1 where w: "control_write E False s = (x, s1)" by fastforce
    note f = frame_control_write [OF w]
    have "prepare E to (sv_state s) s = (None, s1)" by (simp add: prepare_def Stopped w)
    moreover have "ctrl_ok (publish_state E (sv_state s) to e r s1)" using f(2) by (simp add: ctrl_ok_def Stopped)
    ultimately show ?thesis using apply_lasting [OF h Some _ _ f(1), of r cfg] Stopped by blast
  qed
qed

lemma apply_event_inv:
  assumes "hist_ok s" "ctrl_ok s" "transient (sv_state s) \<Longrightarrow> stopping s" "external e \<or> e = DeviceError"
    "\<forall>q \<in> set (sh_queue (sv_shared s)). external (fst q)"
    "stopping s \<Longrightarrow> sv_state s = Stopped \<or> e = Stop \<or> Stop \<in> fst ` set (sh_queue (sv_shared s))"
    "sv_state s = Stopped \<Longrightarrow> e = Stop"
  shows "\<exists>s'. apply_event E cfg e r s = Some s' \<and> sup_inv s' \<and> later (sv_shared s) (sv_shared s')
    \<and> (e = Stop \<longrightarrow> sv_state s' = Stopped)"
proof -
  obtain t where t: "apply_loop E cfg (Some (e, r)) (s\<lparr>sv_busy := True\<rparr>) = Some t"
    "settled (s\<lparr>sv_busy := True\<rparr>) t" "e = Stop \<longrightarrow> sv_state t = Stopped"
    using apply_settles [of "s\<lparr>sv_busy := True\<rparr>" e cfg r] assms(1-4) by auto
  let ?s = "t\<lparr>sv_busy := False\<rparr>"
  have lt: "later (sv_shared s) (sv_shared t)" using t(2) by (simp add: settled_def)
  then obtain evs where evs: "\<forall>q \<in> set evs. external (fst q)" "sh_queue (sv_shared t) = sh_queue (sv_shared s) @ evs"
    "stopping t \<longleftrightarrow> stopping s \<or> Stop \<in> fst ` set evs" unfolding later_def by (elim exE conjE)
  have "stopping t \<Longrightarrow> sv_state t = Stopped \<or> Stop \<in> fst ` set (sh_queue (sv_shared t))"
    using evs(2,3) assms(6,7) t(3) by (auto simp: image_Un)
  then have "sup_inv ?s" using t(2) assms(5) evs(1,2) by (auto simp: sup_inv_def settled_def)
  then show ?thesis using t lt by (auto simp: apply_event_def)
qed

lemma shared_irrelevant: "hist_ok (s\<lparr>sv_shared := x\<rparr>) = hist_ok s" "ctrl_ok (s\<lparr>sv_shared := x\<rparr>) = ctrl_ok s"
  by (simp_all add: hist_ok_def ctrl_ok_def last_control_def split: State.split)

lemma others_inv:
  assumes "sup_inv s"
  shows "sup_inv (others E s)" "sv_state (others E s) = sv_state s" "later (sv_shared s) (sv_shared (others E s))"
proof -
  note f = frame_others [of s]
  show st: "sv_state (others E s) = sv_state s" and lt: "later (sv_shared s) (sv_shared (others E s))"
    using f(1) by (simp_all add: frame_def)
  obtain evs where evs: "\<forall>q \<in> set evs. external (fst q)" "sh_queue (sv_shared (others E s)) = sh_queue (sv_shared s) @ evs"
    "stopping (others E s) \<longleftrightarrow> stopping s \<or> Stop \<in> fst ` set evs" using lt unfolding later_def by (elim exE conjE)
  have "hist_ok (others E s)" using assms hist_ok_frame [OF f(1)] by (simp add: sup_inv_def)
  moreover have "ctrl_ok (others E s)" using assms ctrl_ok_cong [OF st f(2)] by (simp add: sup_inv_def)
  moreover have "sv_busy (others E s) = sv_busy s" by (simp add: others_def)
  ultimately show "sup_inv (others E s)" using assms evs st by (auto simp: sup_inv_def image_Un)
qed

lemma run_turn_event:
  assumes "sup_inv s" "sv_state s \<noteq> Stopped" "sh_queue (sv_shared (others E s)) = (e, r) # q"
  shows "\<exists>s' evs. run_turn E cfg s = Some s' \<and> sup_inv s' \<and> sh_queue (sv_shared s') = q @ evs
    \<and> (e = Stop \<longrightarrow> sv_state s' = Stopped)"
proof -
  let ?s = "upd_shared (\<lambda>sh. sh\<lparr>sh_queue := q\<rparr>) (others E s)"
  note o = others_inv [OF assms(1)]
  have run: "run_turn E cfg s = apply_event E cfg e r ?s" using assms(2,3) by (simp add: run_turn_def Let_def)
  have "\<exists>s'. apply_event E cfg e r ?s = Some s' \<and> sup_inv s' \<and> later (sv_shared ?s) (sv_shared s')
    \<and> (e = Stop \<longrightarrow> sv_state s' = Stopped)"
  proof (rule apply_event_inv)
    show "hist_ok ?s" "ctrl_ok ?s" "transient (sv_state ?s) \<Longrightarrow> stopping ?s" "external e \<or> e = DeviceError"
      "\<forall>q \<in> set (sh_queue (sv_shared ?s)). external (fst q)"
      "stopping ?s \<Longrightarrow> sv_state ?s = Stopped \<or> e = Stop \<or> Stop \<in> fst ` set (sh_queue (sv_shared ?s))"
      "sv_state ?s = Stopped \<Longrightarrow> e = Stop"
      using o assms(2,3) by (auto simp: sup_inv_def upd_shared_def shared_irrelevant)
  qed
  then obtain s' where s': "apply_event E cfg e r ?s = Some s'" "sup_inv s'" "later (sv_shared ?s) (sv_shared s')"
    "e = Stop \<longrightarrow> sv_state s' = Stopped" by (elim exE conjE)
  moreover obtain evs where "sh_queue (sv_shared s') = q @ evs" using s'(3) by (auto simp: later_def upd_shared_def)
  ultimately show ?thesis unfolding run by blast
qed

lemma run_turn_inv:
  assumes "sup_inv s"
  shows "\<exists>s'. run_turn E cfg s = Some s' \<and> sup_inv s'"
proof (cases "sv_state s = Stopped")
  case True
  then show ?thesis using assms by (simp add: run_turn_def)
next
  case False
  note o = others_inv [OF assms]
  show ?thesis
  proof (cases "sh_queue (sv_shared (others E s))")
    case Nil
    show ?thesis
    proof (cases "w_failed (sv_worker (others E s)) \<and> sv_state (others E s) \<in> {Ready, Running, Paused}")
      case True
      let ?why = "''acquisition thread: '' @ error_text E (sv_worker (others E s))"
      have "\<exists>s'. apply_event E cfg DeviceError ?why (others E s) = Some s' \<and> sup_inv s'
          \<and> later (sv_shared (others E s)) (sv_shared s') \<and> (DeviceError = Stop \<longrightarrow> sv_state s' = Stopped)"
        by (rule apply_event_inv) (use o(1) True in \<open>auto simp: sup_inv_def\<close>)
      then show ?thesis using False Nil True by (auto simp: run_turn_def Let_def)
    next
      case no: False
      then show ?thesis using False Nil o(1) by (auto simp: run_turn_def Let_def)
    qed
  next
    case (Cons a q)
    then show ?thesis using run_turn_event [OF assms False, of "fst a" "snd a" q cfg] by (simp, blast)
  qed
qed

lemma run_turns_inv: "sup_inv s \<Longrightarrow> \<exists>s'. run_turns E cfg n s = Some s' \<and> sup_inv s'"
proof (induction n arbitrary: s)
  case (Suc n)
  obtain t where t: "run_turn E cfg s = Some t" "sup_inv t" using run_turn_inv [OF Suc.prems, of cfg] by (elim exE conjE)
  then show ?case using Suc.IH [OF t(2)] by simp
qed simp

lemma stopped_stays: "sv_state s = Stopped \<Longrightarrow> run_turns E cfg n s = Some s"
  by (induction n) (simp_all add: run_turn_def)

lemma run_turns_stop:
  assumes "sup_inv s" "sh_queue (sv_shared s) = xs @ (Stop, r) # ys" "length xs < n"
  shows "\<exists>s'. run_turns E cfg n s = Some s' \<and> sv_state s' = Stopped"
  using assms
proof (induction n arbitrary: s xs ys)
  case (Suc n)
  show ?case
  proof (cases "sv_state s = Stopped")
    case True
    then show ?thesis using stopped_stays by blast
  next
    case False
    obtain evs where evs: "sh_queue (sv_shared (others E s)) = xs @ (Stop, r) # ys @ evs"
      using others_inv(3) [OF Suc.prems(1)] Suc.prems(2) by (auto simp: later_def)
    show ?thesis
    proof (cases xs)
      case Nil
      then obtain s' where "run_turn E cfg s = Some s'" "sv_state s' = Stopped"
        using run_turn_event [OF Suc.prems(1) False, of Stop r "ys @ evs" cfg] evs by auto
      then show ?thesis using stopped_stays by simp
    next
      case (Cons a zs)
      then have "sh_queue (sv_shared (others E s)) = (fst a, snd a) # zs @ (Stop, r) # ys @ evs" using evs by simp
      from run_turn_event [OF Suc.prems(1) False this, of cfg]
      obtain s' ws where s': "run_turn E cfg s = Some s'" "sup_inv s'"
        "sh_queue (sv_shared s') = (zs @ (Stop, r) # ys @ evs) @ ws" by (elim exE conjE)
      then show ?thesis using Suc.IH [OF s'(2), of zs "ys @ evs @ ws"] Suc.prems(3) Cons by simp
    qed
  qed
qed simp

end

section \<open>The threads of the service\<close>

text \<open>
  What runs beside the supervisor: turns of the acquisition thread's loop, events posted by the
  watchdog, the control socket, the signal thread and start-up, and anything the hardware does to
  the world behind the device. A schedule says which of them acts when.
\<close>

datatype 'w thread_action = Idle | Worker_turn int int | Post_event Event string | World_step "'w \<Rightarrow> 'w"

definition service_threads ::
  "'w os_api \<Rightarrow> ('c, 'p) bus_api \<Rightarrow> (nat \<Rightarrow> 'w thread_action) \<Rightarrow> nat \<Rightarrow> ('w, 'p) shared \<Rightarrow> ('w, 'p) shared" where
  "service_threads os B sched t sh =
     (case sched t of
        Idle \<Rightarrow> sh
      | Worker_turn ns ms \<Rightarrow>
          (if w_failed (sh_worker sh) \<or> w_stop_requested (sh_worker sh) then sh
           else case run_iteration os B ns ms (sh_worker sh) (sh_device sh) of
                  None \<Rightarrow> sh
                | Some (_, w, d) \<Rightarrow> sh\<lparr>sh_worker := w, sh_device := d\<rparr>)
      | Post_event e reason \<Rightarrow> (if external e then post e reason sh else sh)
      | World_step f \<Rightarrow> sh\<lparr>sh_device := (sh_device sh)\<lparr>dev_world := f (dev_world (sh_device sh))\<rparr>\<rparr>)"

definition service_env ::
  "('c, 'p) bus_api \<Rightarrow> (nat \<Rightarrow> 'w thread_action) \<Rightarrow> ('w, 'p) sup_env \<Rightarrow> ('w, 'p) sup_env" where
  "service_env B sched E = E\<lparr>se_threads := service_threads (se_os E) B sched\<rparr>"

lemma post_later: "external e \<Longrightarrow> later sh (post e r sh)"
  unfolding later_def by (rule exI [of _ "[(e, r)]"]) (auto simp: post_def Let_def)

lemma service_later: "later sh (se_threads (service_env B sched E) t sh)"
  by (auto simp: service_env_def service_threads_def later_refl later_same post_later
      split: thread_action.split option.split)

lemma service_failed: "w_failed (sh_worker sh) \<Longrightarrow> w_failed (sh_worker (se_threads (service_env B sched E) t sh))"
  by (auto simp: service_env_def service_threads_def post_def Let_def split: thread_action.split)

interpretation svc: other_threads "service_env B sched E" for B sched E
  by unfold_locales (fact service_later, fact service_failed)

lemma Supervisor_inv: "sup_inv (Supervisor d w now)"
  by (simp add: sup_inv_def Supervisor_def hist_ok_def ctrl_ok_def transient_def)

section \<open>Properties\<close>

text \<open>C29. The supervisor always makes progress. Whatever the acquisition thread, the watchdog, the operator and
  the hardware do, every turn of its loop comes to an end: recovery runs out of attempts, calibration
  out of time, and the chain of follow-up events is finite. After it the supervisor is not busy, and
  it is in Recovering or Calibrating only if a shutdown is pending.\<close>

theorem supervisor_settles:
  "\<exists>s. run_turns (service_env B sched E) cfg n (Supervisor d w now) = Some s
     \<and> \<not> sv_busy s \<and> (sv_state s \<in> {Recovering, Calibrating} \<longrightarrow> stopping s)"
  using svc.run_turns_inv [OF Supervisor_inv, of B sched E cfg n d w now]
  by (auto simp: sup_inv_def transient_def)

text \<open>C30. The state means what it says about the device. Whenever the supervisor is between two events: in
  Running the last thing written to the control attribute was a 1, in Paused a 0, both with success;
  in Init, Ready, Fault and Stopped nothing was written yet or the last write was a 0.\<close>

theorem supervisor_controls:
  "\<exists>s. run_turns (service_env B sched E) cfg n (Supervisor d w now) = Some s
     \<and> (sv_state s = Running \<longrightarrow> sv_controls s \<noteq> [] \<and> last (sv_controls s) = (True, True))
     \<and> (sv_state s = Paused \<longrightarrow> sv_controls s \<noteq> [] \<and> last (sv_controls s) = (False, True))
     \<and> (sv_state s \<in> {Init, Ready, Fault, Stopped} \<longrightarrow> sv_controls s = [] \<or> fst (last (sv_controls s)) = False)"
proof -
  obtain s where "run_turns (service_env B sched E) cfg n (Supervisor d w now) = Some s" "sup_inv s"
    using svc.run_turns_inv [OF Supervisor_inv, of B sched E cfg n d w now] by (elim exE conjE)
  then show ?thesis by (cases "sv_state s") (auto simp: sup_inv_def ctrl_ok_def last_control_def)
qed

text \<open>C31. The history is an honest, bounded record: at most 32 entries, each a transition of the table, each
  starting where the one before it ended, and the last one ending in the present state.\<close>

theorem supervisor_history:
  "\<exists>s. run_turns (service_env B sched E) cfg n (Supervisor d w now) = Some s
     \<and> length (sv_history s) \<le> 32
     \<and> (\<forall>h \<in> set (sv_history s). transition (he_from h) (he_event h) = Some (he_to h))
     \<and> (\<forall>i. Suc i < length (sv_history s) \<longrightarrow> he_to (sv_history s ! i) = he_from (sv_history s ! Suc i))
     \<and> (if sv_history s = [] then sv_state s = Init else he_to (last (sv_history s)) = sv_state s)"
proof -
  obtain s where "run_turns (service_env B sched E) cfg n (Supervisor d w now) = Some s" "hist_ok s"
    using svc.run_turns_inv [OF Supervisor_inv, of B sched E cfg n d w now] by (auto simp: sup_inv_def)
  then show ?thesis by (auto simp: hist_ok_def successively_conv_nth)
qed

text \<open>C32. Shutdown cannot be starved. From any state the supervisor can be in, once a stop is in the queue
  behind \<open>k\<close> other events, it is in Stopped after at most \<open>k + 1\<close> turns, however the threads are
  scheduled and whether or not the device still answers.\<close>

theorem supervisor_shutdown:
  assumes "run_turns (service_env B sched E) cfg m (Supervisor d w now) = Some s"
    "sh_queue (sv_shared s) = xs @ (Stop, r) # ys" "length xs < n"
  shows "\<exists>s'. run_turns (service_env B sched E) cfg n s = Some s' \<and> sv_state s' = Stopped"
proof -
  have "sup_inv s" using svc.run_turns_inv [OF Supervisor_inv, of B sched E cfg m d w now] assms(1) by simp
  then show ?thesis using svc.run_turns_stop [OF _ assms(2,3), of B sched E cfg] by blast
qed

definition demo_os :: "unit os_api" where
  "demo_os = \<lparr>os_open = (\<lambda>w. (True, w)), os_close = (\<lambda>w. w), os_read = (\<lambda>n w. (Read_errno EIO, w)),
     os_poll = (\<lambda>w. (Poll_timeout, w)), os_open_attr = (\<lambda>_ _. True), os_store = (\<lambda>_ v w. (Inr (length v), w)),
     os_show = (\<lambda>_ w. (Inr ''0'', w))\<rparr>"

definition demo_bus :: "(unit, unit) bus_api" where
  "demo_bus = \<lparr>pb_loan = (\<lambda>p. (None, p)), pb_write = (\<lambda>_ _ p. p), pb_send = (\<lambda>_ p. p)\<rparr>"

definition demo_sched :: "nat \<Rightarrow> unit thread_action" where
  "demo_sched t = (if t = 0 then Post_event InitOk [] else if t = 1 then Post_event Start []
     else if t = 2 then Post_event Stop [] else Idle)"

definition demo_env :: "(unit, unit) sup_env" where
  "demo_env = service_env demo_bus demo_sched
     \<lparr>se_os = demo_os, se_threads = (\<lambda>_ sh. sh), se_delay = (\<lambda>_. 1), se_what = (\<lambda>_. []), se_reason_text = (\<lambda>_. []),
      se_drift_text = (\<lambda>_. []), se_utc = (\<lambda>_. []),
      se_capture = (\<lambda>_. demo_capture), se_save = (\<lambda>_. (Written, True))\<rparr>"

definition demo_config :: SupervisorConfig where
  "demo_config = \<lparr>sc_expected_device_id = 0, sc_max_recovery_attempts = 3, sc_recovery_timeout = 2000,
     sc_recovery_backoff = 500, sc_calibration_duration = 10000, sc_calibration_min_samples = 1000,
     sc_state_dir = [], sc_evidence_keep = 20\<rparr>"

definition demo_supervisor :: "(unit, unit) supervisor" where
  "demo_supervisor = Supervisor \<lparr>dev_fd = True, dev_world = ()\<rparr> (AcquisitionWorker None None) 0"

lemma demo_run: "map_option (\<lambda>s. (sv_state s, sh_queue (sv_shared s))) (run_turns demo_env demo_config 2 demo_supervisor) = Some (Running, [(Stop, [])])"
  by code_simp

lemma demo_run_state: "\<exists>s. run_turns demo_env demo_config 2 demo_supervisor = Some s \<and> sv_state s = Running
    \<and> sh_queue (sv_shared s) = [(Stop, [])]"
  using demo_run by (cases "run_turns demo_env demo_config 2 demo_supervisor") simp_all

theorem supervisor_settles_witness:
  "\<exists>s. run_turns demo_env demo_config 2 demo_supervisor = Some s \<and> sv_state s = Running \<and> \<not> sv_busy s"
proof -
  obtain s where s: "run_turns demo_env demo_config 2 demo_supervisor = Some s" "sv_state s = Running"
    using demo_run_state by blast
  then show ?thesis
    using supervisor_settles [of demo_bus demo_sched _ demo_config 2 "\<lparr>dev_fd = True, dev_world = ()\<rparr>" "AcquisitionWorker None None" 0]
    unfolding demo_env_def demo_supervisor_def by (metis option.inject)
qed

theorem supervisor_controls_witness:
  "\<exists>s. run_turns demo_env demo_config 2 demo_supervisor = Some s \<and> last (sv_controls s) = (True, True)"
proof -
  obtain s where s: "run_turns demo_env demo_config 2 demo_supervisor = Some s" "sv_state s = Running"
    using demo_run_state by blast
  then show ?thesis
    using supervisor_controls [of demo_bus demo_sched _ demo_config 2 "\<lparr>dev_fd = True, dev_world = ()\<rparr>" "AcquisitionWorker None None" 0]
    unfolding demo_env_def demo_supervisor_def by (metis option.inject)
qed

theorem supervisor_history_witness:
  "\<exists>s. run_turns demo_env demo_config 2 demo_supervisor = Some s \<and> sv_history s \<noteq> [] \<and> he_to (last (sv_history s)) = Running"
proof -
  obtain s where s: "run_turns demo_env demo_config 2 demo_supervisor = Some s" "sv_state s = Running"
    using demo_run_state by blast
  obtain t where t: "run_turns demo_env demo_config 2 demo_supervisor = Some t"
    "if sv_history t = [] then sv_state t = Init else he_to (last (sv_history t)) = sv_state t"
    using supervisor_history [of demo_bus demo_sched _ demo_config 2 "\<lparr>dev_fd = True, dev_world = ()\<rparr>" "AcquisitionWorker None None" 0]
    unfolding demo_env_def demo_supervisor_def by metis
  have "t = s" using s(1) t(1) by simp
  then show ?thesis using s t(2) by (cases "sv_history s = []") auto
qed

theorem supervisor_shutdown_witness:
  "\<exists>s s'. run_turns demo_env demo_config 2 demo_supervisor = Some s \<and> sv_state s = Running
     \<and> run_turns demo_env demo_config 1 s = Some s' \<and> sv_state s' = Stopped"
proof -
  obtain s where s: "run_turns demo_env demo_config 2 demo_supervisor = Some s" "sv_state s = Running"
    "sh_queue (sv_shared s) = [] @ (Stop, []) # []" using demo_run_state by auto
  have "length ([] :: queued list) < 1" by simp
  from supervisor_shutdown [OF s(1) [unfolded demo_env_def demo_supervisor_def] s(3) this]
  show ?thesis using s unfolding demo_env_def by blast
qed

end
