(* ===== verification/Service_Control.thy ===== *)
theory Service_Control
  imports Supervisor
begin

text \<open>
  The rest of the device service: the stall watchdog (src/watchdog.cpp), the operator commands
  (src/commands.cpp), the control socket's protocol (src/control\_server.cpp), and the start-up probe
  and early-warning callback of src/main.cpp. Socket calls are arguments: the pieces \<open>read\<close> returns
  and the counts \<open>write\<close> returns.
\<close>

section \<open>Watchdog\<close>

text \<open>Times in nanoseconds of the steady clock; the worker keeps its last sample time in milliseconds.\<close>

record watchdog =
  wd_timeout :: int
  wd_last_report :: int

abbreviation "ms \<equiv> 1000000 :: int"

definition check_interval :: "int \<Rightarrow> int" where
  "check_interval timeout = (let half = timeout sdiv 2 in if half < 200 * ms then 200 * ms else half)"

text \<open>\<open>armed\<close> is what the predicate answers, \<open>None\<close> if there is none. The report is the silence in ms.\<close>

definition wd_check_once :: "int \<Rightarrow> bool option \<Rightarrow> 'p acq_worker \<Rightarrow> watchdog \<Rightarrow> int option \<times> watchdog" where
  "wd_check_once now armed w d =
     (if armed = Some False then (None, d)
      else let since_last_sample = now - last_sample_ms w * ms
           in if since_last_sample < wd_timeout d then (None, d)
              else if now - wd_last_report d < wd_timeout d then (None, d)
              else (Some (since_last_sample sdiv ms), d\<lparr>wd_last_report := now\<rparr>))"

text \<open>A sequence of checks, and the times at which one of them reported.\<close>

primrec wd_run :: "(int \<times> bool option \<times> 'p acq_worker) list \<Rightarrow> watchdog \<Rightarrow> int list" where
  "wd_run [] d = []"
| "wd_run (c # cs) d =
     (case c of (now, armed, w) \<Rightarrow>
        (case wd_check_once now armed w d of
           (None, d1) \<Rightarrow> wd_run cs d1
         | (Some _, d1) \<Rightarrow> now # wd_run cs d1))"

definition stalled :: "int \<Rightarrow> int \<times> bool option \<times> 'p acq_worker \<Rightarrow> bool" where
  "stalled timeout c \<longleftrightarrow>
     (case c of (now, armed, w) \<Rightarrow> armed \<noteq> Some False \<and> timeout \<le> now - last_sample_ms w * ms)"

section \<open>Commands\<close>

definition parse_command :: "string \<Rightarrow> Event option" where
  "parse_command cmd =
     (if cmd = ''start'' then Some Start else if cmd = ''pause'' then Some Pause
      else if cmd = ''resume'' then Some Resume else if cmd = ''calibrate'' then Some Calibrate
      else if cmd = ''reset'' then Some Reset else None)"

definition handle_command ::
  "('w, 'p) sup_env \<Rightarrow> u32 \<Rightarrow> string \<Rightarrow> u32 \<Rightarrow> ('w, 'p) supervisor \<Rightarrow> json \<times> ('w, 'p) supervisor" where
  "handle_command E euid cmd peer_uid s =
     (if cmd = ''status'' then (JObj (status E s @ [(''ok'', JBool True)]), s)
      else case parse_command cmd of
        None \<Rightarrow> (JObj [(''ok'', JBool False), (''error'', JStr (''unknown command '' @ [CHR 0x27] @ cmd @ [CHR 0x27]))], s)
      | Some event \<Rightarrow>
          (if peer_uid \<noteq> 0 \<and> peer_uid \<noteq> euid
           then (JObj [(''ok'', JBool False),
                       (''error'', JStr (''permission denied: '' @ [CHR 0x27] @ cmd @ [CHR 0x27] @ '' changes state''))], s)
           else case request event (''operator: '' @ cmd) s of
                  (reply, s1) \<Rightarrow> (JObj [(''ok'', JBool (rp_ok reply)), (''message'', JStr (rp_message reply))], s1)))"

section \<open>Control socket\<close>

abbreviation "kMaxCommand \<equiv> 256 :: nat"

text \<open>\<open>pieces\<close>: what the successive reads return, at most 64 bytes each; an empty one is a timeout or the end.\<close>

fun read_command :: "string list \<Rightarrow> string \<Rightarrow> string" where
  "read_command [] command = command"
| "read_command (p # ps) command =
     (if length command < kMaxCommand \<and> CHR 0x0A \<notin> set command
      then if p = [] then command else read_command ps (command @ p)
      else command)"

definition cut_line :: "string \<Rightarrow> string" where
  "cut_line command = takeWhile (\<lambda>c. c \<noteq> CHR 0x0D \<and> c \<noteq> CHR 0x0A) command"

text \<open>What reaches the client of the reply; \<open>counts\<close> are the results of the successive writes.\<close>

fun write_reply :: "int list \<Rightarrow> string \<Rightarrow> string" where
  "write_reply [] reply = []"
| "write_reply (n # ns) reply =
     (if reply = [] \<or> n \<le> 0 then [] else take (nat n) reply @ write_reply ns (drop (nat n) reply))"

definition serve :: "(string \<Rightarrow> 's \<Rightarrow> string \<times> 's) \<Rightarrow> bool \<Rightarrow> string list \<Rightarrow> int list \<Rightarrow> 's \<Rightarrow> string \<times> 's" where
  "serve handler peercred_ok pieces counts s =
     (if \<not> peercred_ok then ([], s)
      else case handler (cut_line (read_command pieces [])) s of
             (reply, s1) \<Rightarrow> (write_reply counts (reply @ [CHR 0x0A]), s1))"

section \<open>Start-up and early warning\<close>

datatype startup_error = Startup_device device_error | Not_responding u32

definition startup_probe :: "'w os_api \<Rightarrow> 'w device \<Rightarrow> (startup_error + u32 \<times> u32) \<times> 'w device" where
  "startup_probe os d =
     (case device_open os d of
        (Inl e, d1) \<Rightarrow> (Inl (Startup_device e), d1)
      | (Inr _, d1) \<Rightarrow>
          (case read_device_id os d1 of
             (Inl e, d2) \<Rightarrow> (Inl (Startup_device e), d2)
           | (Inr device_id, d2) \<Rightarrow>
               (if device_id = 0x00000000 \<or> device_id = 0xFFFFFFFF then (Inl (Not_responding device_id), d2)
                else case read_fw_version os d2 of
                       (Inl e, d3) \<Rightarrow> (Inl (Startup_device e), d3)
                     | (Inr fw, d3) \<Rightarrow> (Inr (device_id, fw), d3))))"

definition early_warning :: "int \<Rightarrow> rat \<Rightarrow> rat option \<Rightarrow> 'p acq_worker \<Rightarrow> bool option" where
  "early_warning max_age_us max_pressure pressure w =
     (if \<not> (max_age_us > 0 \<or> max_pressure > 0) then None
      else Some (max_age_us > 0 \<and> age_ewma_ns w > max_age_us * 1000
             \<or> (case pressure of None \<Rightarrow> False | Some p \<Rightarrow> max_pressure > 0 \<and> p > max_pressure)))"

section \<open>Lemmas\<close>

lemma wd_check_cases:
  "wd_check_once now armed w d =
     (if stalled (wd_timeout d) (now, armed, w) \<and> wd_timeout d \<le> now - wd_last_report d
      then (Some ((now - last_sample_ms w * ms) sdiv ms), d\<lparr>wd_last_report := now\<rparr>) else (None, d))"
  by (auto simp: wd_check_once_def stalled_def Let_def)

lemma wd_run_Cons:
  "wd_run (c # cs) d =
     (if stalled (wd_timeout d) c \<and> wd_timeout d \<le> fst c - wd_last_report d
      then fst c # wd_run cs (d\<lparr>wd_last_report := fst c\<rparr>) else wd_run cs d)"
  by (cases c) (auto simp: wd_check_cases)

declare wd_run.simps(2) [simp del]

lemma wd_run_sound: "r \<in> set (wd_run cs d) \<Longrightarrow> \<exists>c \<in> set cs. fst c = r \<and> stalled (wd_timeout d) c"
proof (induction cs arbitrary: d)
  case (Cons c cs)
  then show ?case using Cons.IH [of d] Cons.IH [of "d\<lparr>wd_last_report := fst c\<rparr>"] by (auto simp: wd_run_Cons split: if_splits)
qed simp

lemma wd_run_spacing: "successively (\<lambda>a b. a + wd_timeout d \<le> b) (wd_last_report d # wd_run cs d)"
proof (induction cs arbitrary: d)
  case (Cons c cs)
  then show ?case using Cons.IH [of d] Cons.IH [of "d\<lparr>wd_last_report := fst c\<rparr>"] by (auto simp: wd_run_Cons)
qed simp

lemma wd_run_complete:
  assumes "c \<in> set cs" "stalled (wd_timeout d) c" "sorted (wd_last_report d # map fst cs)"
  shows "\<exists>r \<in> set (wd_last_report d # wd_run cs d). r = fst c \<or> r \<le> fst c \<and> fst c < r + wd_timeout d"
  using assms
proof (induction cs arbitrary: d)
  case (Cons b cs)
  let ?d = "d\<lparr>wd_last_report := fst b\<rparr>"
  let ?hit = "stalled (wd_timeout d) b \<and> wd_timeout d \<le> fst b - wd_last_report d"
  show ?case
  proof (cases "c = b")
    case True
    show ?thesis
    proof (cases ?hit)
      case hit: True
      then have "fst c \<in> set (wd_run (b # cs) d)" by (simp add: True wd_run_Cons)
      then show ?thesis by (intro bexI [of _ "fst c"]) simp_all
    next
      case False
      then have "fst c < wd_last_report d + wd_timeout d" using True Cons.prems(2) by auto
      then show ?thesis using Cons.prems(1,3) by (intro bexI [of _ "wd_last_report d"]) auto
    qed
  next
    case False
    then have c: "c \<in> set cs" "sorted (wd_last_report d # map fst cs)" "sorted (wd_last_report ?d # map fst cs)"
      using Cons.prems by auto
    show ?thesis
    proof (cases ?hit)
      case True
      then have run: "wd_run (b # cs) d = wd_last_report ?d # wd_run cs ?d" by (simp add: wd_run_Cons)
      obtain r where "r \<in> set (wd_last_report ?d # wd_run cs ?d)" "r = fst c \<or> r \<le> fst c \<and> fst c < r + wd_timeout ?d"
        using Cons.IH [OF c(1) _ c(3)] Cons.prems(2) by auto
      then show ?thesis unfolding run by (intro bexI [of _ r]) auto
    next
      case no: False
      then have run: "wd_run (b # cs) d = wd_run cs d" by (auto simp: wd_run_Cons)
      show ?thesis unfolding run by (rule Cons.IH [OF c(1) Cons.prems(2) c(2)])
    qed
  qed
qed simp

lemma read_command_prefix:
  "\<exists>n. read_command ps command = command @ take n (concat ps)"
proof (induction ps arbitrary: command)
  case (Cons p ps)
  show ?case
  proof (cases "length command < kMaxCommand \<and> CHR 0x0A \<notin> set command \<and> p \<noteq> []")
    case True
    obtain n where "read_command ps (command @ p) = (command @ p) @ take n (concat ps)" using Cons.IH by blast
    then show ?thesis using True by (intro exI [of _ "length p + n"]) simp
  next
    case False
    then show ?thesis by (intro exI [of _ 0]) auto
  qed
qed simp

lemma read_command_bound:
  assumes "\<forall>p \<in> set ps. length p \<le> 64" "length command < kMaxCommand + 64"
  shows "length (read_command ps command) < kMaxCommand + 64"
  using assms by (induction ps arbitrary: command) auto

text \<open>A command that ends with the connection instead of a newline is taken as it is.\<close>

lemma read_command_eof:
  assumes "\<forall>p \<in> set ps. p \<noteq> []" "CHR 0x0A \<notin> set command \<union> set (concat ps)" "length command + length (concat ps) < kMaxCommand"
  shows "read_command (ps @ [] # zs) command = command @ concat ps"
  using assms by (induction ps arbitrary: command) auto

text \<open>Reading goes on until the whole first line is there.\<close>

lemma read_command_line:
  assumes "\<forall>p \<in> set ps. p \<noteq> []" "command @ concat ps = line @ CHR 0x0A # rest" "CHR 0x0A \<notin> set line" "length line < kMaxCommand"
  shows "\<exists>more. read_command ps command = line @ CHR 0x0A # more"
  using assms
proof (induction ps arbitrary: command)
  case Nil
  then show ?case by simp
next
  case (Cons p ps)
  show ?case
  proof (cases "length line < length command")
    case True
    then obtain more where m: "command = line @ CHR 0x0A # more"
      using Cons.prems(2) by (auto simp: append_eq_append_conv2 append_eq_Cons_conv)
    then have "read_command (p # ps) command = command" by simp
    then show ?thesis using m by blast
  next
    case False
    then obtain us where us: "line = command @ us"
      using Cons.prems(2) by (auto simp: append_eq_append_conv2 append_eq_Cons_conv)
    then have "read_command (p # ps) command = read_command ps (command @ p)" using Cons.prems(1,3,4) by simp
    then show ?thesis using Cons.IH [of "command @ p"] Cons.prems by simp
  qed
qed

lemma cut_line_prefix:
  assumes "CHR 0x0A \<notin> set line" "CHR 0x0D \<notin> set line"
  shows "cut_line (line @ CHR 0x0A # rest) = line"
proof -
  have "\<forall>c \<in> set line. c \<noteq> CHR 0x0D \<and> c \<noteq> CHR 0x0A" using assms by auto
  then show ?thesis by (simp add: cut_line_def takeWhile_append2)
qed

lemma parse_command_external: "parse_command cmd = Some e \<Longrightarrow> external e"
  by (auto simp: parse_command_def external_def split: if_splits)

lemma write_reply_all: "(\<forall>n \<in> set ns. 0 < n) \<Longrightarrow> int (length reply) \<le> sum_list ns \<Longrightarrow> write_reply ns reply = reply"
proof (induction ns arbitrary: reply)
  case (Cons n ns)
  then have pos: "0 < n" "int (length reply) \<le> n + sum_list ns" by simp_all
  have "0 \<le> sum_list ns" by (rule sum_list_nonneg) (use Cons.prems in \<open>auto intro: less_imp_le\<close>)
  then have "int (length (drop (nat n) reply)) \<le> sum_list ns" using pos by (simp add: of_nat_diff_if)
  then show ?case using Cons by simp
qed simp

section \<open>Properties\<close>

text \<open>C33. The watchdog reports every stall and reports it once per timeout. Over any sequence of checks at
  non-decreasing times: each report is made at a check that found the worker armed and silent for the
  timeout; two reports are at least the timeout apart; and a check that finds such a silence without
  reporting it has a report less than the timeout before it.\<close>

theorem watchdog_reports:
  fixes cs :: "(int \<times> bool option \<times> 'p acq_worker) list"
  assumes "sorted (wd_last_report d # map fst cs)"
  shows "(\<forall>r \<in> set (wd_run cs d). \<exists>c \<in> set cs. fst c = r \<and> stalled (wd_timeout d) c)
    \<and> successively (\<lambda>a b. a + wd_timeout d \<le> b) (wd_last_report d # wd_run cs d)
    \<and> (\<forall>c \<in> set cs. stalled (wd_timeout d) c \<longrightarrow>
         (\<exists>r \<in> set (wd_last_report d # wd_run cs d). r = fst c \<or> r \<le> fst c \<and> fst c < r + wd_timeout d))"
  using wd_run_sound [of _ cs d] wd_run_spacing [of d cs] wd_run_complete [OF _ _ assms] by blast

definition demo_silent :: "unit acq_worker" where
  "demo_silent = AcquisitionWorker None None"

theorem watchdog_reports_witness:
  "sorted (wd_last_report \<lparr>wd_timeout = 500 * ms, wd_last_report = 0\<rparr>
     # map fst [(600 * ms, Some True, demo_silent), (800 * ms, Some True, demo_silent), (1200 * ms, None, demo_silent)])
   \<and> wd_run [(600 * ms, Some True, demo_silent), (800 * ms, Some True, demo_silent), (1200 * ms, None, demo_silent)]
       \<lparr>wd_timeout = 500 * ms, wd_last_report = 0\<rparr> = [600 * ms, 1200 * ms]
   \<and> successively (\<lambda>a b. a + 500 * ms \<le> b) [0, 600 * ms, 1200 * ms]"
proof -
  let ?d = "\<lparr>wd_timeout = 500 * ms, wd_last_report = 0\<rparr>"
  let ?cs = "[(600 * ms, Some True, demo_silent), (800 * ms, Some True, demo_silent), (1200 * ms, None, demo_silent)]"
  have s: "sorted (wd_last_report ?d # map fst ?cs)" by simp
  have r: "wd_run ?cs ?d = [600 * ms, 1200 * ms]"
    by (simp add: wd_run_Cons stalled_def demo_silent_def AcquisitionWorker_def)
  have "successively (\<lambda>a b. a + wd_timeout ?d \<le> b) (wd_last_report ?d # wd_run ?cs ?d)"
    using watchdog_reports [OF s] by blast
  then show ?thesis using s r by simp
qed

text \<open>C34. Who may change the machine's state. A command over the control socket changes the supervisor only
  if it comes from root or from the service's own user and names an event the present state accepts;
  then exactly that event is queued, and it is one an operator may raise. Every other request, status
  included, changes nothing.\<close>

theorem command_authority:
  "(snd (handle_command E euid cmd uid s) = s)
   \<or> (\<exists>e. (uid = 0 \<or> uid = euid) \<and> parse_command cmd = Some e \<and> e \<in> {Start, Pause, Resume, Calibrate, Reset}
        \<and> transition (sv_state s) e \<noteq> None
        \<and> sh_queue (sv_shared (snd (handle_command E euid cmd uid s))) = sh_queue (sv_shared s) @ [(e, ''operator: '' @ cmd)]
        \<and> sv_state (snd (handle_command E euid cmd uid s)) = sv_state s
        \<and> later (sv_shared s) (sv_shared (snd (handle_command E euid cmd uid s))))"
proof (cases "\<exists>e. cmd \<noteq> ''status'' \<and> parse_command cmd = Some e \<and> (uid = 0 \<or> uid = euid) \<and> transition (sv_state s) e \<noteq> None")
  case True
  then obtain e where e: "cmd \<noteq> ''status''" "parse_command cmd = Some e" "uid = 0 \<or> uid = euid" "transition (sv_state s) e \<noteq> None"
    by blast
  have ev: "e \<in> {Start, Pause, Resume, Calibrate, Reset}" using e(2) by (auto simp: parse_command_def split: if_splits)
  have "snd (handle_command E euid cmd uid s) = upd_shared (post e (''operator: '' @ cmd)) s"
    using e by (auto simp: handle_command_def request_def Let_def)
  then show ?thesis
    using e ev post_later [OF parse_command_external [OF e(2)], of "sv_shared s" "''operator: '' @ cmd"]
    by (intro disjI2 exI [of _ e]) (auto simp: upd_shared_def post_def Let_def)
next
  case False
  then show ?thesis by (intro disjI1) (auto simp: handle_command_def request_def Let_def split: option.split)
qed

text \<open>C35. The control protocol is insensitive to how the bytes arrive. A line of fewer than 256 characters
  followed by a newline is handed to the handler as it was sent, however the reads cut it up and
  whatever follows it, and the reply reaches the client complete if the writes accept it all. The
  same holds of a command that ends with the connection. And whatever a client sends, with or without
  a newline and however much of it, the buffer stays below 320 characters.\<close>

theorem control_line:
  assumes "\<forall>p \<in> set ps. p \<noteq> [] \<and> length p \<le> 64" "CHR 0x0A \<notin> set line" "CHR 0x0D \<notin> set line" "length line < 256"
    "handler line s = (reply, s')" "\<forall>n \<in> set ns. 0 < n" "int (length reply) < sum_list ns"
  shows "(concat ps = line @ CHR 0x0A # rest \<longrightarrow> serve handler True ps ns s = (reply @ [CHR 0x0A], s'))
    \<and> (concat ps = line \<longrightarrow> serve handler True (ps @ [[]]) ns s = (reply @ [CHR 0x0A], s'))
    \<and> (\<forall>qs. (\<forall>p \<in> set qs. length p \<le> 64) \<longrightarrow> length (read_command qs []) < 320)"
proof -
  have w: "write_reply ns (reply @ [CHR 0x0A]) = reply @ [CHR 0x0A]"
    using assms(6,7) by (intro write_reply_all) auto
  have "serve handler True ps ns s = (reply @ [CHR 0x0A], s')" if nl: "concat ps = line @ CHR 0x0A # rest"
  proof -
    obtain more where "read_command ps [] = line @ CHR 0x0A # more"
      using read_command_line [of ps "[]" line rest] assms(1,2,4) nl by auto
    then have "cut_line (read_command ps []) = line" using cut_line_prefix [OF assms(2,3)] by simp
    then show ?thesis using assms(5) w by (simp add: serve_def)
  qed
  moreover have "serve handler True (ps @ [[]]) ns s = (reply @ [CHR 0x0A], s')" if eof: "concat ps = line"
  proof -
    have "read_command (ps @ [[]]) [] = line" using read_command_eof [of ps "[]" "[]"] assms(1,2,4) eof by auto
    moreover have "cut_line line = line" using assms(2,3) by (auto simp: cut_line_def takeWhile_eq_all_conv)
    ultimately show ?thesis using assms(5) w by (simp add: serve_def)
  qed
  moreover have "length (read_command qs []) < 320" if "\<forall>p \<in> set qs. length p \<le> 64" for qs
    using read_command_bound [OF that, of "[]"] by simp
  ultimately show ?thesis by blast
qed

theorem control_line_witness:
  "serve (\<lambda>cmd s. (''ok '' @ cmd, s + (1 :: nat))) True [''pa'', ''use'' @ [CHR 0x0A], ''x''] [4, 20] 0 = (''ok pause'' @ [CHR 0x0A], 1)
   \<and> serve (\<lambda>cmd s. (''ok '' @ cmd, s + (1 :: nat))) True ([''pa'', ''use''] @ [[]]) [4, 20] 0 = (''ok pause'' @ [CHR 0x0A], 1)
   \<and> length (read_command (replicate 1000 (replicate 64 (CHR ''a''))) []) < 320"
proof -
  let ?h = "\<lambda>cmd s. (''ok '' @ cmd, s + (1 :: nat))"
  have "serve ?h True [''pa'', ''use'' @ [CHR 0x0A], ''x''] [4, 20] 0 = (''ok pause'' @ [CHR 0x0A], 1)"
    by (rule control_line [where line = "''pause''" and rest = "''x''", THEN conjunct1, THEN mp]) simp_all
  moreover note c = control_line [of "[''pa'', ''use'']" "''pause''" ?h 0 "''ok pause''" 1 "[4, 20]" "[]"]
  ultimately show ?thesis by simp
qed

end
