(* ===== verification/Devbus_Layout.thy ===== *)
theory Devbus_Layout
  imports Prelude
begin

text \<open>
  The shared-memory layout of a devbus service (userspace/devbus/include/devbus/detail/layout.hpp):
  the rounding helpers, \<open>compute_layout\<close> with the chunk budget, and the address computations of
  slots and payload chunks. Sizes are 64-bit and capacities 32-bit words, so the arithmetic wraps
  where the source's does. The loop of \<open>next_pow2\<close> need not end: it is a partial function whose
  value \<open>None\<close> means that it never returns.
\<close>

section \<open>Rounding\<close>

definition kCacheLine :: u64 where "kCacheLine = 64"

definition round_up :: "u64 \<Rightarrow> u64 \<Rightarrow> u64" where
  "round_up v al = (v + al - 1) div al * al"

partial_function (option) next_pow2_loop :: "u32 \<Rightarrow> u32 \<Rightarrow> u32 option" where
  "next_pow2_loop v p = (if p < v then next_pow2_loop v (push_bit 1 p) else Some p)"

definition next_pow2 :: "u32 \<Rightarrow> u32 option" where
  "next_pow2 v = next_pow2_loop v 1"

section \<open>Layout\<close>

text \<open>Sizes of the shared structures: the fields with their cache-line alignment.\<close>

definition sizeof_SegmentHeader :: u64 where "sizeof_SegmentHeader = 192"
definition sizeof_SubscriberSlot :: u64 where "sizeof_SubscriberSlot = 512"
definition sizeof_ChunkHeader :: u64 where "sizeof_ChunkHeader = 16"

record layout =
  queue_capacity :: u32
  completion_capacity :: u32
  chunk_count :: u32
  chunk_stride :: u64
  slot_stride :: u64
  slots_offset :: u64
  chunk_headers_offset :: u64
  payloads_offset :: u64
  total_size :: u64
  data_size :: u64

definition payload_align :: "u64 \<Rightarrow> u64" where
  "payload_align type_align = (if type_align > kCacheLine then type_align else kCacheLine)"

definition compute_layout :: "u32 \<Rightarrow> u32 \<Rightarrow> u32 \<Rightarrow> u32 \<Rightarrow> u64 \<Rightarrow> u64 \<Rightarrow> layout option" where
  "compute_layout max_subscribers capacity max_borrowed max_loans type_size type_align =
     (case next_pow2 (if capacity < 1 then 1 else capacity) of
        None \<Rightarrow> None
      | Some qc \<Rightarrow>
          (let cc = max_subscribers * (qc + max_borrowed) + max_loans in
           case next_pow2 cc of
             None \<Rightarrow> None
           | Some done_cap \<Rightarrow>
               (let c_stride = round_up type_size (payload_align type_align);
                    s_stride = round_up (sizeof_SubscriberSlot + 4 * ucast (qc + done_cap)) kCacheLine;
                    s_off = round_up sizeof_SegmentHeader kCacheLine;
                    p_off = round_up (sizeof_ChunkHeader * ucast cc) (payload_align type_align)
                in Some
                   \<lparr> queue_capacity = qc, completion_capacity = done_cap, chunk_count = cc,
                     chunk_stride = c_stride, slot_stride = s_stride, slots_offset = s_off,
                     chunk_headers_offset = 0, payloads_offset = p_off,
                     total_size = round_up (s_off + s_stride * ucast max_subscribers) 4096,
                     data_size = round_up (p_off + c_stride * ucast cc) 4096 \<rparr>)))"

definition slot_at :: "layout \<Rightarrow> u32 \<Rightarrow> u64" where
  "slot_at l i = slots_offset l + ucast i * slot_stride l"

definition payload_at :: "layout \<Rightarrow> u32 \<Rightarrow> u64" where
  "payload_at l c = payloads_offset l + ucast c * chunk_stride l"

definition chunk_header_at :: "layout \<Rightarrow> u32 \<Rightarrow> u64" where
  "chunk_header_at l c = chunk_headers_offset l + ucast c * sizeof_ChunkHeader"

text \<open>The two rings of a slot, as offsets into the control segment; an entry is a 32-bit chunk number.\<close>

definition data_ring :: "layout \<Rightarrow> u32 \<Rightarrow> u64" where
  "data_ring l i = slot_at l i + sizeof_SubscriberSlot"

definition done_ring :: "layout \<Rightarrow> u32 \<Rightarrow> u64" where
  "done_ring l i = data_ring l i + 4 * ucast (queue_capacity l)"

section \<open>The rounding helpers\<close>

lemma unat_no_wrap:
  fixes a b :: "'a :: len word"
  shows "unat a + unat b < 2 ^ LENGTH('a) \<Longrightarrow> unat (a + b) = unat a + unat b"
    and "unat a * unat b < 2 ^ LENGTH('a) \<Longrightarrow> unat (a * b) = unat a * unat b"
  by (simp_all add: unat_word_ariths)

lemma unat_ucast_64 [simp]: "unat (ucast (w :: u32) :: u64) = unat w"
proof -
  have "unat w < 2 ^ LENGTH(32)" by (rule unsigned_less)
  then have "unat w < 2 ^ 64" by simp
  then show ?thesis by (simp add: unsigned_ucast_eq take_bit_nat_eq_self)
qed

lemma unat_round_up:
  assumes "0 < unat al" "unat v + unat al < 2 ^ 64"
  shows "unat (round_up v al) = (unat v + unat al - 1) div unat al * unat al"
proof -
  have "unat (v + al) = unat v + unat al" using assms(2) by (simp add: unat_no_wrap)
  then have s: "unat (v + al - 1) = unat v + unat al - 1"
    using assms(1) by (simp add: unat_sub word_le_nat_alt)
  have "(unat v + unat al - 1) div unat al * unat al \<le> unat v + unat al - 1" by simp
  also have "\<dots> < 2 ^ 64" using assms by linarith
  finally show ?thesis unfolding round_up_def
    by (subst unat_no_wrap) (simp_all add: s unat_div)
qed

lemma round_up_props:
  assumes "0 < unat al" "unat v + unat al < 2 ^ 64"
  shows "unat v \<le> unat (round_up v al)" "unat (round_up v al) < unat v + unat al"
    "unat al dvd unat (round_up v al)"
proof -
  let ?n = "unat v + unat al - 1"
  have eq: "?n div unat al * unat al + ?n mod unat al = ?n" by (rule div_mult_mod_eq)
  have less: "?n mod unat al < unat al" using assms(1) by simp
  show "unat v \<le> unat (round_up v al)"
    using eq less assms(1) unfolding unat_round_up [OF assms] by linarith
  show "unat (round_up v al) < unat v + unat al"
    using eq assms(1) unfolding unat_round_up [OF assms] by linarith
  show "unat al dvd unat (round_up v al)" using assms by (simp add: unat_round_up)
qed

lemma push_bit_1_pow2:
  "k < 31 \<Longrightarrow> push_bit 1 (2 ^ k :: u32) = 2 ^ Suc k" "push_bit 1 (2 ^ 31 :: u32) = 0"
  by (simp_all add: push_bit_eq_mult mult.commute)

lemma unat_pow2_32 [simp]: "k < 32 \<Longrightarrow> unat (2 ^ k :: u32) = 2 ^ k"
proof -
  assume k: "k < 32"
  have "unat (of_nat (2 ^ k) :: u32) = 2 ^ k"
    using k power_strict_increasing [OF k, of "2 :: nat"] by (simp add: unsigned_of_nat take_bit_nat_eq_self del: of_nat_power)
  then show ?thesis by simp
qed

text \<open>
  A capacity of at most half the 32-bit range has a power of two above it, and the loop finds the
  least one; above that the shifted bit is lost and the loop runs for ever.
\<close>

lemma next_pow2_loop_returns:
  assumes "unat v \<le> 2 ^ (k + n)" "k + n < 32" "k = 0 \<or> 2 ^ (k - 1) < unat v"
  shows "\<exists>j \<le> k + n. next_pow2_loop v (2 ^ k) = Some (2 ^ j) \<and> unat v \<le> 2 ^ j \<and>
           (j = 0 \<or> 2 ^ (j - 1) < unat v)"
  using assms
proof (induction n arbitrary: k)
  case 0
  then have "\<not> 2 ^ k < v" by (simp add: word_less_nat_alt)
  then show ?case using 0 by (subst next_pow2_loop.simps) auto
next
  case (Suc n)
  show ?case
  proof (cases "2 ^ k < v")
    case True
    have "next_pow2_loop v (2 ^ k) = next_pow2_loop v (2 ^ Suc k)"
      using True Suc.prems by (subst next_pow2_loop.simps) (simp add: mult.commute)
    moreover have "2 ^ k < unat v" using True Suc.prems by (simp add: word_less_nat_alt)
    ultimately show ?thesis using Suc.IH [of "Suc k"] Suc.prems by (auto simp del: power_Suc)
  next
    case False
    then have "next_pow2_loop v (2 ^ k) = Some (2 ^ k)" by (subst next_pow2_loop.simps) simp
    moreover have "unat v \<le> 2 ^ k" using False Suc.prems by (simp add: word_less_nat_alt)
    ultimately show ?thesis using Suc.prems by (intro exI [of _ k]) auto
  qed
qed

lemma next_pow2_least:
  assumes "unat v \<le> 2 ^ 31"
  obtains j where "next_pow2 v = Some (2 ^ j)" "j < 32" "unat v \<le> 2 ^ j" "j = 0 \<or> 2 ^ (j - 1) < unat v"
  using next_pow2_loop_returns [of v 0 31] assms that by (force simp: next_pow2_def)

lemma next_pow2_loop_stuck:
  assumes "next_pow2_loop v p = Some r" "2 ^ 31 < unat v" "p = 0 \<or> (\<exists>k < 32. p = 2 ^ k)"
  shows False
proof -
  have "2 ^ 31 < unat v \<longrightarrow> (p = 0 \<or> (\<exists>k < 32. p = 2 ^ k)) \<longrightarrow> False"
  proof (rule next_pow2_loop.raw_induct
      [where P = "\<lambda>v p r. 2 ^ 31 < unat v \<longrightarrow> (p = 0 \<or> (\<exists>k < 32. p = 2 ^ k)) \<longrightarrow> False", OF _ assms(1)])
    fix f :: "u32 \<Rightarrow> u32 \<Rightarrow> u32 option" and v p r :: u32
    assume IH: "\<And>v p r. f v p = Some r \<Longrightarrow>
        2 ^ 31 < unat v \<longrightarrow> (p = 0 \<or> (\<exists>k < 32. p = 2 ^ k)) \<longrightarrow> False"
      and eq: "(if p < v then f v (push_bit 1 p) else Some p) = Some r"
    show "2 ^ 31 < unat v \<longrightarrow> (p = 0 \<or> (\<exists>k < 32. p = 2 ^ k)) \<longrightarrow> False"
    proof (intro impI)
      assume v: "2 ^ 31 < unat v" and p: "p = 0 \<or> (\<exists>k < 32. p = 2 ^ k)"
      have small: "(2 :: nat) ^ k \<le> 2 ^ 31" if "k < 32" for k :: nat
        using that by (intro power_increasing) auto
      have "unat p \<le> 2 ^ 31" using p small by auto
      then have "p < v" using v by (simp add: word_less_nat_alt)
      moreover have "push_bit 1 p = 0 \<or> (\<exists>k < 32. push_bit 1 p = 2 ^ k)"
        using p
      proof
        assume "\<exists>k < 32. p = 2 ^ k"
        then obtain k where k: "k < 32" "p = 2 ^ k" by auto
        show ?thesis
        proof (cases "k < 31")
          case True
          then show ?thesis using k push_bit_1_pow2(1) [of k] by (intro disjI2 exI [of _ "Suc k"]) auto
        next
          case False
          then have "k = 31" using k by simp
          then show ?thesis using k push_bit_1_pow2(2) by simp
        qed
      qed simp
      ultimately show False using IH eq v by auto
    qed
  qed
  then show False using assms by simp
qed

lemma next_pow2_stuck: "2 ^ 31 < unat v \<Longrightarrow> next_pow2 v = None"
proof -
  assume v: "2 ^ 31 < unat v"
  have "(1 :: u32) = 0 \<or> (\<exists>k < 32. (1 :: u32) = 2 ^ k)" by (intro disjI2 exI [of _ 0]) simp
  then show ?thesis using next_pow2_loop_stuck [OF _ v, of 1]
    by (cases "next_pow2 v") (auto simp only: next_pow2_def)
qed

lemma next_pow2_returns_iff: "next_pow2 v \<noteq> None \<longleftrightarrow> unat v \<le> 2 ^ 31"
  using next_pow2_stuck [of v] next_pow2_least [of v] by (metis not_None_eq not_le)

lemma next_pow2_SomeD:
  assumes "next_pow2 v = Some p"
  obtains j where "p = 2 ^ j" "j < 32" "unat v \<le> 2 ^ j" "j = 0 \<or> 2 ^ (j - 1) < unat v"
proof -
  have "unat v \<le> 2 ^ 31" using assms next_pow2_returns_iff [of v] by simp
  then show ?thesis by (rule next_pow2_least) (use assms that in auto)
qed

section \<open>The layout\<close>

text \<open>What the C++ type system promises of a payload type, within the sizes a segment can have.\<close>

definition type_ok :: "u64 \<Rightarrow> u64 \<Rightarrow> bool" where
  "type_ok ts ta \<longleftrightarrow> unat ts \<le> 2 ^ 40 \<and> 0 < unat ta \<and> unat ta \<le> 2 ^ 30 \<and>
     (unat ta dvd 64 \<or> 64 dvd unat ta)"

text \<open>The chunk budget fits the 32-bit field it is computed in.\<close>

definition budget_fits :: "u32 \<Rightarrow> u32 \<Rightarrow> u32 \<Rightarrow> layout \<Rightarrow> bool" where
  "budget_fits ms mb ml l \<longleftrightarrow>
     unat ms * (unat (queue_capacity l) + unat mb) + unat ml < 2 ^ 32"

lemma payload_align_props:
  assumes "type_ok ts ta"
  shows "64 \<le> unat (payload_align ta)" "unat (payload_align ta) \<le> 2 ^ 30"
    "unat ta dvd unat (payload_align ta)" "64 dvd unat (payload_align ta)"
  using assms by (auto simp: type_ok_def payload_align_def kCacheLine_def word_less_nat_alt dest: dvd_imp_le)

lemma compute_layout_capacities:
  assumes "compute_layout ms qc mb ml ts ta = Some l"
  shows "\<exists>j k. queue_capacity l = 2 ^ j \<and> j < 32 \<and> max 1 (unat qc) \<le> 2 ^ j \<and>
      chunk_count l = ms * (queue_capacity l + mb) + ml \<and>
      completion_capacity l = 2 ^ k \<and> k < 32 \<and> unat (chunk_count l) \<le> 2 ^ k \<and>
      (k = 0 \<or> 2 ^ (k - 1) < unat (chunk_count l))"
proof -
  from assms obtain q d where q: "next_pow2 (if qc < 1 then 1 else qc) = Some q"
    and d: "next_pow2 (ms * (q + mb) + ml) = Some d"
    and l: "queue_capacity l = q" "completion_capacity l = d" "chunk_count l = ms * (q + mb) + ml"
    by (auto simp: compute_layout_def Let_def split: option.splits)
  from q obtain j where "q = 2 ^ j" "j < 32" "unat (if qc < 1 then 1 else qc) \<le> 2 ^ j"
    by (rule next_pow2_SomeD)
  moreover from d obtain k where "d = 2 ^ k" "k < 32" "unat (ms * (q + mb) + ml) \<le> 2 ^ k"
      "k = 0 \<or> 2 ^ (k - 1) < unat (ms * (q + mb) + ml)"
    by (rule next_pow2_SomeD)
  ultimately show ?thesis using l
    by (intro exI [of _ j] exI [of _ k]) (auto simp: max_def split: if_splits)
qed

lemma chunk_count_budget:
  assumes "compute_layout ms qc mb ml ts ta = Some l" "budget_fits ms mb ml l"
  shows "unat (chunk_count l) = unat ms * (unat (queue_capacity l) + unat mb) + unat ml"
proof (cases "unat ms = 0")
  case True
  then show ?thesis using compute_layout_capacities [OF assms(1)] by (auto simp: unat_eq_0)
next
  case False
  let ?s = "unat (queue_capacity l) + unat mb"
  have b: "unat ms * ?s + unat ml < 2 ^ 32" using assms(2) by (simp add: budget_fits_def)
  have "?s \<le> unat ms * ?s" using False by simp
  then have "?s < 2 ^ 32" using b by linarith
  then have "unat (queue_capacity l + mb) = ?s" by (intro unat_no_wrap) simp
  moreover then have "unat (ms * (queue_capacity l + mb)) = unat ms * ?s"
    using b by (subst unat_no_wrap) simp_all
  ultimately show ?thesis
    using compute_layout_capacities [OF assms(1)] b by (auto simp: unat_no_wrap)
qed

text \<open>
  A published configuration: the layout exists, its budget did not wrap, and the checks of the
  publisher's constructor passed.
\<close>

definition layout_ok :: "u32 \<Rightarrow> u32 \<Rightarrow> u32 \<Rightarrow> u32 \<Rightarrow> u64 \<Rightarrow> u64 \<Rightarrow> layout \<Rightarrow> bool" where
  "layout_ok ms qc mb ml ts ta l \<longleftrightarrow>
     compute_layout ms qc mb ml ts ta = Some l \<and> type_ok ts ta \<and> budget_fits ms mb ml l \<and>
     0 < ms \<and> chunk_count l \<le> 0xFFFF"

lemma layout_ok_bounds:
  assumes "layout_ok ms qc mb ml ts ta l"
  shows "unat ms < 2 ^ 16" "unat (queue_capacity l) < 2 ^ 16" "0 < unat (queue_capacity l)"
    "unat (chunk_count l) < 2 ^ 16" "unat (completion_capacity l) < 2 ^ 17"
    "unat (chunk_count l) \<le> unat (completion_capacity l)"
proof -
  have ok: "compute_layout ms qc mb ml ts ta = Some l" "budget_fits ms mb ml l" "0 < unat ms"
      "unat (chunk_count l) \<le> 0xFFFF"
    using assms by (auto simp: layout_ok_def word_less_nat_alt word_le_nat_alt)
  from compute_layout_capacities [OF ok(1)] obtain j k where
    j: "queue_capacity l = 2 ^ j" "j < 32" and
    k: "completion_capacity l = 2 ^ k" "k < 32" "unat (chunk_count l) \<le> 2 ^ k"
      "k = 0 \<or> 2 ^ (k - 1) < unat (chunk_count l)"
    by auto
  show q: "0 < unat (queue_capacity l)" using j by simp
  have "unat ms * unat (queue_capacity l) \<le> unat (chunk_count l)"
    by (simp add: chunk_count_budget [OF ok(1,2)] algebra_simps)
  moreover have "unat ms \<le> unat ms * unat (queue_capacity l)" using q by simp
  moreover have "unat (queue_capacity l) \<le> unat ms * unat (queue_capacity l)" using ok(3) by simp
  ultimately have "unat ms < 65536" "unat (queue_capacity l) < 65536" using ok(4) by linarith+
  then show "unat ms < 2 ^ 16" "unat (queue_capacity l) < 2 ^ 16" by simp_all
  show "unat (chunk_count l) < 2 ^ 16" using ok(4) by simp
  show "unat (chunk_count l) \<le> unat (completion_capacity l)" using k by simp
  show "unat (completion_capacity l) < 2 ^ 17"
  proof (cases k)
    case (Suc k')
    then have "(2 :: nat) ^ k' < 2 ^ 16" using k ok(4) by simp
    then have "k' < 16" by (rule power_less_imp_less_exp [rotated]) simp
    then have "(2 :: nat) ^ k < 2 ^ 17" using Suc by (intro power_strict_increasing) auto
    then show ?thesis using k by simp
  qed (use k in simp)
qed

lemma compute_layout_fields:
  assumes "compute_layout ms qc mb ml ts ta = Some l"
  shows "chunk_stride l = round_up ts (payload_align ta)"
    "slot_stride l = round_up (512 + 4 * ucast (queue_capacity l + completion_capacity l)) 64"
    "slots_offset l = 192" "chunk_headers_offset l = 0"
    "payloads_offset l = round_up (16 * ucast (chunk_count l)) (payload_align ta)"
    "total_size l = round_up (slots_offset l + slot_stride l * ucast ms) 4096"
    "data_size l = round_up (payloads_offset l + chunk_stride l * ucast (chunk_count l)) 4096"
  using assms
  by (auto simp: compute_layout_def Let_def sizeof_SegmentHeader_def sizeof_SubscriberSlot_def
      sizeof_ChunkHeader_def kCacheLine_def round_up_def split: option.splits)

text \<open>Slots: each one starts on a cache line and holds both rings; they do not overlap.\<close>

definition slot_bytes :: "layout \<Rightarrow> nat" where
  "slot_bytes l = 512 + 4 * (unat (queue_capacity l) + unat (completion_capacity l))"

lemma slot_stride_props:
  assumes "layout_ok ms qc mb ml ts ta l"
  shows "slot_bytes l \<le> unat (slot_stride l)" "64 dvd unat (slot_stride l)" "unat (slot_stride l) < 2 ^ 20"
proof -
  note b = layout_ok_bounds [OF assms]
  have l: "compute_layout ms qc mb ml ts ta = Some l" using assms by (simp add: layout_ok_def)
  let ?v = "512 + 4 * ucast (queue_capacity l + completion_capacity l) :: u64"
  have s: "unat (queue_capacity l + completion_capacity l) =
      unat (queue_capacity l) + unat (completion_capacity l)"
    using b by (intro unat_no_wrap) simp
  have "unat (4 * ucast (queue_capacity l + completion_capacity l) :: u64) =
      4 * (unat (queue_capacity l) + unat (completion_capacity l))"
    using b by (subst unat_no_wrap) (simp_all add: s)
  then have v: "unat ?v = slot_bytes l"
    using b unfolding slot_bytes_def by (subst unat_no_wrap) simp_all
  have "slot_bytes l < 2 ^ 20 - 64" using b by (simp add: slot_bytes_def)
  then show "slot_bytes l \<le> unat (slot_stride l)" "64 dvd unat (slot_stride l)"
      "unat (slot_stride l) < 2 ^ 20"
    using round_up_props [of "64 :: u64" ?v] v by (simp_all add: compute_layout_fields [OF l])
qed

lemma unat_slot_at:
  assumes "layout_ok ms qc mb ml ts ta l" "i \<le> ms"
  shows "unat (slot_at l i) = 192 + unat i * unat (slot_stride l)"
proof -
  have l: "compute_layout ms qc mb ml ts ta = Some l" using assms by (simp add: layout_ok_def)
  have "unat i \<le> unat ms" using assms(2) by (simp add: word_le_nat_alt)
  then have i: "unat i < 2 ^ 16" using layout_ok_bounds(1) [OF assms(1)] by linarith
  have "unat i * unat (slot_stride l) < 2 ^ 16 * 2 ^ 20"
    using i slot_stride_props(3) [OF assms(1)] by (intro mult_strict_mono) simp_all
  moreover from this have "unat (ucast i * slot_stride l) = unat i * unat (slot_stride l)"
    by (subst unat_no_wrap) simp_all
  ultimately show ?thesis
    unfolding slot_at_def by (subst unat_no_wrap) (simp_all add: compute_layout_fields [OF l])
qed

lemma unat_rings:
  assumes "layout_ok ms qc mb ml ts ta l" "i \<le> ms"
  shows "unat (data_ring l i) = unat (slot_at l i) + 512"
    "unat (done_ring l i) = unat (slot_at l i) + 512 + 4 * unat (queue_capacity l)"
proof -
  have "unat i \<le> unat ms" using assms(2) by (simp add: word_le_nat_alt)
  then have i: "unat i < 2 ^ 16" using layout_ok_bounds(1) [OF assms(1)] by linarith
  have q: "unat (queue_capacity l) < 2 ^ 16" by (rule layout_ok_bounds(2) [OF assms(1)])
  have "unat i * unat (slot_stride l) < 2 ^ 16 * 2 ^ 20"
    using i slot_stride_props(3) [OF assms(1)] by (intro mult_strict_mono) simp_all
  then have s: "unat (slot_at l i) < 2 ^ 40" by (simp add: unat_slot_at [OF assms])
  then show d: "unat (data_ring l i) = unat (slot_at l i) + 512"
    unfolding data_ring_def by (subst unat_no_wrap) (simp_all add: sizeof_SubscriberSlot_def)
  have "unat (4 * ucast (queue_capacity l) :: u64) = 4 * unat (queue_capacity l)"
    using q by (subst unat_no_wrap) simp_all
  then show "unat (done_ring l i) = unat (slot_at l i) + 512 + 4 * unat (queue_capacity l)"
    unfolding done_ring_def using s q d by (subst unat_no_wrap) simp_all
qed

lemma total_size_covers:
  assumes "layout_ok ms qc mb ml ts ta l"
  shows "192 + unat ms * unat (slot_stride l) \<le> unat (total_size l)"
proof -
  have l: "compute_layout ms qc mb ml ts ta = Some l" using assms by (simp add: layout_ok_def)
  let ?v = "slots_offset l + slot_stride l * ucast ms"
  have v: "unat ?v = 192 + unat ms * unat (slot_stride l)"
    using unat_slot_at [OF assms, of ms] by (simp add: slot_at_def mult.commute)
  have "unat ms * unat (slot_stride l) < 2 ^ 16 * 2 ^ 20"
    using layout_ok_bounds(1) [OF assms] slot_stride_props(3) [OF assms] by (intro mult_strict_mono) simp_all
  then have "unat ?v + unat (4096 :: u64) < 2 ^ 64" by (simp add: v)
  then have "unat ?v \<le> unat (round_up ?v 4096)" by (intro round_up_props(1)) simp_all
  then show ?thesis using v by (simp only: compute_layout_fields(6) [OF l])
qed

text \<open>Payload chunks: aligned for the payload type, after all chunk headers, without overlap.\<close>

lemma payload_props:
  assumes "layout_ok ms qc mb ml ts ta l"
  shows "unat ts \<le> unat (chunk_stride l)" "unat (chunk_stride l) < 2 ^ 41" "unat ta dvd unat (chunk_stride l)"
    "16 * unat (chunk_count l) \<le> unat (payloads_offset l)" "unat (payloads_offset l) < 2 ^ 31"
    "unat ta dvd unat (payloads_offset l)"
proof -
  have l: "compute_layout ms qc mb ml ts ta = Some l" and t: "type_ok ts ta" "unat ts \<le> 2 ^ 40"
    using assms by (simp_all add: layout_ok_def type_ok_def)
  note a = payload_align_props [OF t(1)]
  have "unat ts + unat (payload_align ta) < 2 ^ 64" using a t(2) by simp
  note r = round_up_props [OF _ this]
  show "unat ts \<le> unat (chunk_stride l)" "unat (chunk_stride l) < 2 ^ 41"
    using r(1,2) a(1,2) t(2) by (simp_all add: compute_layout_fields(1) [OF l])
  show "unat ta dvd unat (chunk_stride l)"
    using dvd_trans [OF a(3) r(3)] a(1) by (simp add: compute_layout_fields(1) [OF l])
  let ?v = "16 * ucast (chunk_count l) :: u64"
  have v: "unat ?v = 16 * unat (chunk_count l)"
    using layout_ok_bounds(4) [OF assms] by (subst unat_no_wrap) simp_all
  have "unat ?v + unat (payload_align ta) < 2 ^ 64"
    using a(2) layout_ok_bounds(4) [OF assms] by (simp add: v)
  note r = round_up_props [OF _ this]
  show "16 * unat (chunk_count l) \<le> unat (payloads_offset l)" "unat (payloads_offset l) < 2 ^ 31"
    using r(1,2) a(1,2) v layout_ok_bounds(4) [OF assms] by (simp_all add: compute_layout_fields(5) [OF l])
  show "unat ta dvd unat (payloads_offset l)"
    using dvd_trans [OF a(3) r(3)] a(1) by (simp add: compute_layout_fields(5) [OF l])
qed

lemma payload_extent:
  assumes "layout_ok ms qc mb ml ts ta l"
  shows "unat (chunk_count l) * unat (chunk_stride l) < 2 ^ 57"
proof -
  have "unat (chunk_count l) * unat (chunk_stride l) < 2 ^ 16 * 2 ^ 41"
    using layout_ok_bounds(4) [OF assms] payload_props(2) [OF assms] by (intro mult_strict_mono) simp_all
  then show ?thesis by simp
qed

lemma unat_payload_at:
  assumes "layout_ok ms qc mb ml ts ta l" "c \<le> chunk_count l"
  shows "unat (payload_at l c) = unat (payloads_offset l) + unat c * unat (chunk_stride l)"
proof -
  have "unat c * unat (chunk_stride l) \<le> unat (chunk_count l) * unat (chunk_stride l)"
    using assms(2) by (simp add: word_le_nat_alt)
  then have c: "unat c * unat (chunk_stride l) < 2 ^ 57"
    using payload_extent [OF assms(1)] by linarith
  then have "unat (ucast c * chunk_stride l) = unat c * unat (chunk_stride l)"
    by (subst unat_no_wrap) simp_all
  then show ?thesis
    unfolding payload_at_def using c payload_props(5) [OF assms(1)] by (subst unat_no_wrap) simp_all
qed

lemma unat_chunk_header_at:
  assumes "layout_ok ms qc mb ml ts ta l" "c \<le> chunk_count l"
  shows "unat (chunk_header_at l c) = unat c * 16"
proof -
  have l: "compute_layout ms qc mb ml ts ta = Some l" using assms by (simp add: layout_ok_def)
  have "unat c < 2 ^ 16" using layout_ok_bounds(4) [OF assms(1)] assms(2) by (simp add: word_le_nat_alt)
  then show ?thesis
    by (simp add: chunk_header_at_def sizeof_ChunkHeader_def compute_layout_fields(4) [OF l] unat_no_wrap(2))
qed

lemma data_size_covers:
  assumes "layout_ok ms qc mb ml ts ta l"
  shows "unat (payload_at l (chunk_count l)) \<le> unat (data_size l)"
proof -
  have l: "compute_layout ms qc mb ml ts ta = Some l" using assms by (simp add: layout_ok_def)
  let ?v = "payloads_offset l + chunk_stride l * ucast (chunk_count l)"
  have v: "?v = payload_at l (chunk_count l)" by (simp add: payload_at_def mult.commute)
  have "unat ?v + unat (4096 :: u64) < 2 ^ 64"
    using payload_extent [OF assms] payload_props(5) [OF assms]
    by (simp only: v unat_payload_at [OF assms order_refl]) simp
  then have "unat ?v \<le> unat (round_up ?v 4096)" by (intro round_up_props(1)) simp_all
  then show ?thesis using v by (simp only: compute_layout_fields(7) [OF l])
qed

lemma stride_step:
  fixes i j :: u32
  assumes "j < i"
  shows "unat j * s + s \<le> unat i * s"
proof -
  have "Suc (unat j) * s \<le> unat i * s" using assms by (intro mult_le_mono1) (simp add: word_less_nat_alt)
  then show ?thesis by simp
qed

text \<open>C36. The layout is well formed. Every subscriber slot starts on a cache line after the segment
  header; its descriptor, its data ring and its done ring follow one another without overlap, the
  rings on word boundaries, and the done ring ends before the next slot and before the end of the
  control segment. Every chunk header is on an eight-byte boundary and ends before the next header
  and before every payload; every payload chunk is aligned for the payload type and ends before the
  next chunk and the end of the data segment. Both rings have a power-of-two capacity, the data ring
  at least the requested one and the done ring room for every chunk; and the number of chunks is the
  budget of queues, borrowed samples and loans.\<close>

theorem layout_wellformed:
  assumes "layout_ok ms qc mb ml ts ta l"
  shows "(\<forall>i. i < ms \<longrightarrow> 64 dvd unat (slot_at l i) \<and> unat sizeof_SegmentHeader \<le> unat (slot_at l i) \<and>
            unat (slot_at l i) + unat sizeof_SubscriberSlot \<le> unat (data_ring l i) \<and> 4 dvd unat (data_ring l i) \<and>
            unat (data_ring l i) + 4 * unat (queue_capacity l) \<le> unat (done_ring l i) \<and> 4 dvd unat (done_ring l i) \<and>
            unat (done_ring l i) + 4 * unat (completion_capacity l) \<le> unat (total_size l) \<and>
            (\<forall>j. j < i \<longrightarrow> unat (done_ring l j) + 4 * unat (completion_capacity l) \<le> unat (slot_at l i))) \<and>
         (\<forall>c. c < chunk_count l \<longrightarrow> unat ta dvd unat (payload_at l c) \<and>
            unat (payload_at l c) + unat ts \<le> unat (data_size l) \<and>
            (\<forall>d. d < c \<longrightarrow> unat (payload_at l d) + unat ts \<le> unat (payload_at l c)) \<and>
            8 dvd unat (chunk_header_at l c) \<and>
            (\<forall>d. d < c \<longrightarrow> unat (chunk_header_at l d) + unat sizeof_ChunkHeader \<le> unat (chunk_header_at l c)) \<and>
            (\<forall>d. d < chunk_count l \<longrightarrow>
               unat (chunk_header_at l d) + unat sizeof_ChunkHeader \<le> unat (payload_at l c))) \<and>
         (\<exists>j k. queue_capacity l = 2 ^ j \<and> completion_capacity l = 2 ^ k) \<and>
         unat qc \<le> unat (queue_capacity l) \<and> chunk_count l \<le> completion_capacity l \<and>
         unat (chunk_count l) = unat ms * (unat (queue_capacity l) + unat mb) + unat ml"
proof (intro conjI allI impI)
  have l: "compute_layout ms qc mb ml ts ta = Some l" and b: "budget_fits ms mb ml l"
    using assms by (simp_all add: layout_ok_def)
  note caps = compute_layout_capacities [OF l]
  note s = slot_stride_props [OF assms] and p = payload_props [OF assms]
  note at = unat_slot_at [OF assms] unat_payload_at [OF assms] unat_chunk_header_at [OF assms] unat_rings [OF assms]
  show "\<exists>j k. queue_capacity l = 2 ^ j \<and> completion_capacity l = 2 ^ k" using caps by blast
  show "unat qc \<le> unat (queue_capacity l)" using caps by auto
  show "chunk_count l \<le> completion_capacity l"
    using layout_ok_bounds(6) [OF assms] by (simp add: word_le_nat_alt)
  show "unat (chunk_count l) = unat ms * (unat (queue_capacity l) + unat mb) + unat ml"
    by (rule chunk_count_budget [OF l b])
  { fix i assume i: "i < ms"
    show "64 dvd unat (slot_at l i)" using i s(2) by (simp add: at)
    show "unat sizeof_SegmentHeader \<le> unat (slot_at l i)" using i by (simp add: at sizeof_SegmentHeader_def)
    have e: "unat (done_ring l k) + 4 * unat (completion_capacity l) = unat (slot_at l k) + slot_bytes l" if "k < ms" for k
      using that by (simp add: at slot_bytes_def)
    show "unat (slot_at l i) + unat sizeof_SubscriberSlot \<le> unat (data_ring l i)"
      using i by (simp add: at sizeof_SubscriberSlot_def)
    show "unat (data_ring l i) + 4 * unat (queue_capacity l) \<le> unat (done_ring l i)" using i by (simp add: at)
    have "4 dvd unat (slot_stride l)" using s(2) by (rule dvd_trans [rotated]) simp
    then show "4 dvd unat (data_ring l i)" "4 dvd unat (done_ring l i)" using i by (simp_all add: at)
    show "unat (done_ring l i) + 4 * unat (completion_capacity l) \<le> unat (total_size l)"
      unfolding e [OF i] using stride_step [OF i, of "unat (slot_stride l)"] total_size_covers [OF assms] i s(1)
      by (simp add: at)
    fix j assume j: "j < i"
    then have "j < ms" using i by simp
    then show "unat (done_ring l j) + 4 * unat (completion_capacity l) \<le> unat (slot_at l i)"
      unfolding e [OF \<open>j < ms\<close>] using stride_step [OF j, of "unat (slot_stride l)"] i s(1) by (simp add: at) }
  { fix c assume c: "c < chunk_count l"
    show "unat ta dvd unat (payload_at l c)" using c p(3,6) by (simp add: at)
    show "unat (payload_at l c) + unat ts \<le> unat (data_size l)"
      using stride_step [OF c, of "unat (chunk_stride l)"] data_size_covers [OF assms] c p(1)
      by (simp add: at)
    { fix d assume "d < c"
      then show "unat (payload_at l d) + unat ts \<le> unat (payload_at l c)"
        using stride_step [of d c "unat (chunk_stride l)"] c p(1) by (simp add: at) }
    show "8 dvd unat (chunk_header_at l c)" using c by (simp add: at)
    { fix d assume "d < c"
      then show "unat (chunk_header_at l d) + unat sizeof_ChunkHeader \<le> unat (chunk_header_at l c)"
        using stride_step [of d c 16] c by (simp add: at sizeof_ChunkHeader_def) }
    fix d assume "d < chunk_count l"
    then show "unat (chunk_header_at l d) + unat sizeof_ChunkHeader \<le> unat (payload_at l c)"
      using stride_step [of d "chunk_count l" 16] c p(4) by (simp add: at sizeof_ChunkHeader_def) }
qed

text \<open>The default configuration with an 88-byte payload, evaluated.\<close>

lemma next_pow2_step:
  "next_pow2_loop v p = (if p < v then next_pow2_loop v (2 * p) else Some p)"
  by (subst next_pow2_loop.simps) (simp add: mult.commute)

lemma default_layout:
  "compute_layout 4 16 2 2 88 8 = Some
     \<lparr> queue_capacity = 16, completion_capacity = 128, chunk_count = 74, chunk_stride = 128,
       slot_stride = 1088, slots_offset = 192, chunk_headers_offset = 0, payloads_offset = 1216,
       total_size = 8192, data_size = 12288 \<rparr>"
  unfolding compute_layout_def next_pow2_def Let_def
  by (simp add: next_pow2_step [of 16] next_pow2_step [of 74] round_up_def payload_align_def
      sizeof_SegmentHeader_def sizeof_SubscriberSlot_def sizeof_ChunkHeader_def kCacheLine_def)

theorem layout_wellformed_witness:
  "\<exists>l. layout_ok 4 16 2 2 88 8 l \<and> unat (chunk_count l) = 4 * (16 + 2) + 2 \<and>
     unat (payload_at l 73) + 88 \<le> unat (data_size l) \<and> unat (done_ring l 3) + 4 * 128 \<le> unat (total_size l)"
proof -
  obtain l where l: "compute_layout 4 16 2 2 88 8 = Some l" "l =
     \<lparr> queue_capacity = 16, completion_capacity = 128, chunk_count = 74, chunk_stride = 128,
       slot_stride = 1088, slots_offset = 192, chunk_headers_offset = 0, payloads_offset = 1216,
       total_size = 8192, data_size = 12288 \<rparr>"
    using default_layout by blast
  have ok: "layout_ok 4 16 2 2 88 8 l" using l
    by (simp add: layout_ok_def type_ok_def budget_fits_def)
  show ?thesis using layout_wellformed [OF ok] ok l(2) by (intro exI [of _ l]) simp
qed

text \<open>
  The budget is computed modulo \<open>2\<^sup>3\<^sup>2\<close>: a very large borrow limit wraps to a small chunk count that
  the constructor's 16-bit check accepts, although one subscriber may then hold every chunk.
\<close>

lemma budget_wraps:
  "\<exists>l. compute_layout 4 16 0xFFFFFFFF 2 88 8 = Some l \<and> chunk_count l = 62 \<and>
     \<not> budget_fits 4 0xFFFFFFFF 2 l"
proof -
  have w: "4 * (16 + 0xFFFFFFFF) + 2 = (62 :: u32)" by simp
  have q: "next_pow2 (if (16 :: u32) < 1 then 1 else 16) = Some 16"
    by (simp add: next_pow2_def next_pow2_step [of 16])
  have d: "next_pow2 62 = Some 64" by (simp add: next_pow2_def next_pow2_step [of 62])
  show ?thesis unfolding compute_layout_def q option.case Let_def w d
    by (simp add: budget_fits_def)
qed

end
