(* ===== verification/Devbus_Publisher.thy ===== *)
theory Devbus_Publisher
  imports Devbus_Layout
begin

text \<open>
  The publisher of a devbus service (userspace/devbus/src/core.cpp, \<open>PublisherCore\<close>). The control
  segment is shared with the subscriber processes, which may write it at any time: the model applies
  the interference function of the environment before every access to a field another process can
  write. The environment carries a state of any type, so it can be anything from a quiet system to
  a set of subscribers that follow the protocol, or one that does not. The publisher's private
  bookkeeping is a record of its own. Of the data segment the model has the chunk headers.

  Reads and writes of a vector outside its bounds set the flag \<open>wild\<close>: undefined behaviour of the
  source, which the theorems exclude.
\<close>

section \<open>Shared memory\<close>

text \<open>Slot states and overflow policies are plain 32-bit words in shared memory.\<close>

definition SlotFree :: u32 where "SlotFree = 0"
definition SlotClaimed :: u32 where "SlotClaimed = 1"
definition SlotActive :: u32 where "SlotActive = 2"
definition SlotClosing :: u32 where "SlotClosing = 3"

definition DropOldest :: u32 where "DropOldest = 0"
definition DropNewest :: u32 where "DropNewest = 1"
definition Block :: u32 where "Block = 2"

lemmas slot_consts = SlotFree_def SlotClaimed_def SlotActive_def SlotClosing_def
lemmas overflow_consts = DropOldest_def DropNewest_def Block_def

record segment_header =
  magic :: u64
  layout_version :: u32
  type_size :: u32
  type_hash :: u64
  type_align :: u32
  max_subscribers :: u32
  max_borrowed :: u32
  max_loans :: u32
  h_layout :: layout
  publisher_pid :: int
  ready :: u32
  published :: u64
  loan_failures :: u64

text \<open>A slot ends with its two rings, the data ring first, one array of indices.\<close>

record subscriber_slot =
  slot_state :: u32
  slot_pid :: int
  overflow :: u32
  block_timeout_us :: u32
  data_head :: u64
  data_tail :: u64
  done_head :: u64
  done_tail :: u64
  futex_word :: u32
  sleeping :: u32
  space_futex :: u32
  publisher_waiting :: u32
  delivered :: u64
  dropped_oldest :: u64
  dropped_newest :: u64
  block_timeouts :: u64
  blocked_ns :: u64
  rings :: "u32 list"

record chunk_header =
  ch_seq :: u64
  publish_ns :: int

record 'e world =
  hdr :: segment_header
  slots :: "subscriber_slot list"
  chunk_headers :: "chunk_header list"
  env :: 'e

text \<open>
  The operating system and the other processes: what they do to the control segment between two
  accesses and during a futex sleep on the space word of a slot, what waking the sleepers on the data
  word of a slot does, the process descriptors, and the monotonic clock.
\<close>

record 'e os =
  interfere :: "'e world \<Rightarrow> 'e world"
  futex_sleep :: "nat \<Rightarrow> u32 \<Rightarrow> int \<Rightarrow> 'e world \<Rightarrow> 'e world"
  futex_wake :: "nat \<Rightarrow> 'e world \<Rightarrow> 'e world"
  sys_pidfd_open :: "'e \<Rightarrow> int \<Rightarrow> int"
  sys_no_process :: "'e \<Rightarrow> int \<Rightarrow> bool"
  sys_poll_quiet :: "'e \<Rightarrow> int \<Rightarrow> bool"
  monotonic_ns :: "'e \<Rightarrow> int"

definition pidfd_alive :: "'e os \<Rightarrow> 'e \<Rightarrow> int \<Rightarrow> bool" where
  "pidfd_alive os e pidfd = (if pidfd < 0 then False else sys_poll_quiet os e pidfd)"

definition process_alive :: "'e os \<Rightarrow> 'e \<Rightarrow> int \<Rightarrow> bool" where
  "process_alive os e pid =
     (if pid \<le> 0 then False
      else let fd = sys_pidfd_open os e pid in
        if fd < 0 then \<not> sys_no_process os e pid else pidfd_alive os e fd)"

section \<open>Publisher state\<close>

text \<open>The stack of free chunks is kept top first.\<close>

record bookkeeping =
  free_list :: "u32 list"
  refcount :: "u16 list"
  outstanding :: "u16 list"
  active :: "bool list"
  pidfds :: "int list"
  active_list :: "nat list"
  claimed_since :: "int list"
  loans_out :: u32
  next_seq :: u64
  liveness_every :: u32
  sends_since_liveness :: u32
  wild :: bool

record 'e publisher =
  shm :: "'e world"
  priv :: bookkeeping

record send_report =
  rep_seq :: u64
  rep_delivered :: u32
  rep_evicted :: u32
  rep_rejected :: u32
  rep_block_timeouts :: u32

datatype loan_error = LoanLimit | OutOfChunks

abbreviation lay :: "'e publisher \<Rightarrow> layout" where "lay p \<equiv> h_layout (hdr (shm p))"
abbreviation nsubs :: "'e publisher \<Rightarrow> nat" where "nsubs p \<equiv> unat (max_subscribers (hdr (shm p)))"

definition slot :: "'e publisher \<Rightarrow> nat \<Rightarrow> subscriber_slot" where
  "slot p s = slots (shm p) ! s"

definition upd_priv :: "(bookkeeping \<Rightarrow> bookkeeping) \<Rightarrow> 'e publisher \<Rightarrow> 'e publisher" where
  "upd_priv f p = p\<lparr>priv := f (priv p)\<rparr>"

definition go_wild :: "'e publisher \<Rightarrow> 'e publisher" where
  "go_wild = upd_priv (wild_update (\<lambda>_. True))"

definition upd_slot :: "nat \<Rightarrow> (subscriber_slot \<Rightarrow> subscriber_slot) \<Rightarrow> 'e publisher \<Rightarrow> 'e publisher" where
  "upd_slot s f p =
     (if s < length (slots (shm p))
      then p\<lparr>shm := (shm p)\<lparr>slots := (slots (shm p))[s := f (slot p s)]\<rparr>\<rparr> else go_wild p)"

definition upd_hdr :: "(segment_header \<Rightarrow> segment_header) \<Rightarrow> 'e publisher \<Rightarrow> 'e publisher" where
  "upd_hdr f p = p\<lparr>shm := (shm p)\<lparr>hdr := f (hdr (shm p))\<rparr>\<rparr>"

definition sync :: "'e os \<Rightarrow> 'e publisher \<Rightarrow> 'e publisher" where
  "sync os p = p\<lparr>shm := interfere os (shm p)\<rparr>"

text \<open>One entry of a ring of slot \<open>s\<close>, by its position in the array after the slot.\<close>

definition ring_at :: "nat \<Rightarrow> nat \<Rightarrow> 'e publisher \<Rightarrow> u32" where
  "ring_at s i p = (if i < length (rings (slot p s)) then rings (slot p s) ! i else 0)"

definition ring_check :: "nat \<Rightarrow> nat \<Rightarrow> 'e publisher \<Rightarrow> 'e publisher" where
  "ring_check s i p =
     (if s < length (slots (shm p)) \<and> i < length (rings (slot p s)) then p else go_wild p)"

definition slot_check :: "nat \<Rightarrow> 'e publisher \<Rightarrow> 'e publisher" where
  "slot_check s p =
     (if s < length (slots (shm p)) \<and> s < length (active (priv p)) \<and> s < length (pidfds (priv p)) \<and>
         s < length (claimed_since (priv p)) then p else go_wild p)"

section \<open>Chunk references\<close>

definition free_chunk :: "u32 \<Rightarrow> bookkeeping \<Rightarrow> bookkeeping" where
  "free_chunk c b = b\<lparr>free_list := c # free_list b\<rparr>"

definition drop_refs :: "nat \<Rightarrow> u32 \<Rightarrow> u16 \<Rightarrow> bookkeeping \<Rightarrow> bookkeeping" where
  "drop_refs i c k b =
     (if unat c < length (refcount b)
      then let b1 = b\<lparr>outstanding := (outstanding b)[i := outstanding b ! i - k],
                      refcount := (refcount b)[unat c := refcount b ! unat c - k]\<rparr> in
           if refcount b1 ! unat c = 0 then free_chunk c b1 else b1
      else b\<lparr>wild := True\<rparr>)"

definition release_ref :: "u32 \<Rightarrow> nat \<Rightarrow> u32 \<Rightarrow> bookkeeping \<Rightarrow> bookkeeping" where
  "release_ref n s chunk b =
     (if chunk \<ge> n then b
      else let i = s * unat n + unat chunk in
        if i \<ge> length (outstanding b) then b\<lparr>wild := True\<rparr>
        else if outstanding b ! i = 0 then b
        else drop_refs i chunk 1 b)"

lemma unat_step_less:
  fixes tail head :: u64
  assumes "tail \<noteq> head"
  shows "unat (head - (tail + 1)) < unat (head - tail)"
proof -
  have "head - tail \<noteq> 0" using assms by simp
  then have "1 \<le> head - tail" by (simp add: word_le_nat_alt unat_gt_0 Suc_le_eq)
  then have "unat ((head - tail) - 1) = unat (head - tail) - 1" by (simp add: unat_sub)
  moreover have "0 < unat (head - tail)" using \<open>head - tail \<noteq> 0\<close> by (simp add: unat_gt_0)
  moreover have eq: "head - (tail + 1) = (head - tail) - 1" by simp
  ultimately show ?thesis unfolding eq by simp
qed

function drain_loop :: "'e os \<Rightarrow> nat \<Rightarrow> u64 \<Rightarrow> u64 \<Rightarrow> u64 \<Rightarrow> 'e publisher \<Rightarrow> 'e publisher" where
  "drain_loop os s msk tail head p =
     (if tail = head then p
      else let p1 = sync os p;
               i = unat (queue_capacity (lay p1)) + unat (tail AND msk);
               p2 = ring_check s i p1
           in drain_loop os s msk (tail + 1) head
                (upd_priv (release_ref (chunk_count (lay p2)) s (ring_at s i p1)) p2))"
  by pat_completeness auto
termination
  by (relation "measure (\<lambda>(os, s, msk, tail, head, p). unat (head - tail))") (auto simp: unat_step_less)

declare drain_loop.simps [simp del]

definition drain_done :: "'e os \<Rightarrow> nat \<Rightarrow> 'e publisher \<Rightarrow> 'e publisher" where
  "drain_done os s p =
     (let p1 = sync os p;
          msk = ucast (completion_capacity (lay p1) - 1);
          tail = done_tail (slot p1 s);
          p2 = sync os p1;
          head = done_head (slot p2 s)
      in if tail = head then p2
         else upd_slot s (done_tail_update (\<lambda>_. head)) (drain_loop os s msk tail head p2))"

definition reclaim_chunk :: "nat \<Rightarrow> nat \<Rightarrow> nat \<Rightarrow> bookkeeping \<Rightarrow> bookkeeping" where
  "reclaim_chunk n s c b =
     (let i = s * n + c in
      if i \<ge> length (outstanding b) then b\<lparr>wild := True\<rparr>
      else if outstanding b ! i = 0 then b
      else drop_refs i (of_nat c) (outstanding b ! i) b)"

definition reset_slot :: "subscriber_slot \<Rightarrow> subscriber_slot" where
  "reset_slot sl = sl\<lparr>data_head := 0, data_tail := 0, done_head := 0, done_tail := 0, sleeping := 0,
     delivered := 0, dropped_oldest := 0, dropped_newest := 0, block_timeouts := 0, blocked_ns := 0,
     slot_pid := 0, slot_state := SlotFree\<rparr>"

definition forget_slot :: "nat \<Rightarrow> bookkeeping \<Rightarrow> bookkeeping" where
  "forget_slot s b =
     (if s < length (active b) \<and> s < length (pidfds b) \<and> s < length (claimed_since b)
      then b\<lparr>pidfds := (pidfds b)[s := (if pidfds b ! s \<ge> 0 then -1 else pidfds b ! s)],
             active := (active b)[s := False], claimed_since := (claimed_since b)[s := 0]\<rparr>
      else b\<lparr>wild := True\<rparr>)"

definition reclaim_slot :: "'e os \<Rightarrow> nat \<Rightarrow> 'e publisher \<Rightarrow> 'e publisher" where
  "reclaim_slot os s p =
     (let p1 = drain_done os s p;
          n = unat (chunk_count (lay p1));
          p2 = upd_priv (fold (reclaim_chunk n s) [0..<n]) p1
      in upd_priv (forget_slot s) (upd_slot s reset_slot (sync os p2)))"

section \<open>Slot scan\<close>

definition list_active :: "'e os \<Rightarrow> bool \<Rightarrow> nat \<Rightarrow> 'e publisher \<Rightarrow> 'e publisher" where
  "list_active os blocking s p =
     (if active (priv p) ! s
      then let p1 = slot_check s (sync os p) in
        if (overflow (slot p1 s) = Block) = blocking
        then upd_priv (\<lambda>b. b\<lparr>active_list := active_list b @ [s]\<rparr>) p1 else p1
      else p)"

definition rebuild_active_list :: "'e os \<Rightarrow> 'e publisher \<Rightarrow> 'e publisher" where
  "rebuild_active_list os p =
     (let p1 = upd_priv (active_list_update (\<lambda>_. [])) p;
          p2 = fold (list_active os False) [0..<nsubs p1] p1
      in fold (list_active os True) [0..<nsubs p2] p2)"

definition scan_slot :: "'e os \<Rightarrow> nat \<Rightarrow> bool \<times> 'e publisher \<Rightarrow> bool \<times> 'e publisher" where
  "scan_slot os s = (\<lambda>(changed, p).
     let p1 = slot_check s (sync os p); st = slot_state (slot p1 s) in
     if st = SlotActive \<and> \<not> active (priv p1) ! s
     then let p2 = sync os p1;
              fd = sys_pidfd_open os (env (shm p2)) (slot_pid (slot p2 s));
              p3 = upd_priv (\<lambda>b. b\<lparr>pidfds := (pidfds b)[s := fd]\<rparr>) p2
          in (True, if fd < 0 then reclaim_slot os s p3
                    else upd_priv (\<lambda>b. b\<lparr>active := (active b)[s := True]\<rparr>) p3)
     else if st = SlotClosing then (True, reclaim_slot os s p1)
     else (changed, p1))"

definition scan_slots :: "'e os \<Rightarrow> 'e publisher \<Rightarrow> 'e publisher" where
  "scan_slots os p =
     (case fold (scan_slot os) [0..<nsubs p] (False, p) of
        (changed, p1) \<Rightarrow> if changed then rebuild_active_list os p1 else p1)"

definition check_slot :: "'e os \<Rightarrow> nat \<Rightarrow> u32 \<times> 'e publisher \<Rightarrow> u32 \<times> 'e publisher" where
  "check_slot os s = (\<lambda>(reaped, p).
     let p1 = slot_check s (sync os p); st = slot_state (slot p1 s);
         p2 = sync os p1; pid = slot_pid (slot p2 s); e = env (shm p2);
         now = monotonic_ns os e; since = claimed_since (priv p2) ! s;
         waiting = (st = SlotClaimed \<and> pid = 0);
         start = (if since = 0 then now else since);
         dead = (if active (priv p2) ! s then \<not> pidfd_alive os e (pidfds (priv p2) ! s)
                 else if waiting then now - start > 1000000000
                 else if st = SlotClaimed \<or> st = SlotActive then \<not> process_alive os e pid
                 else False);
         since' = (if \<not> waiting then 0 else if active (priv p2) ! s then since else start);
         p3 = upd_priv (\<lambda>b. b\<lparr>claimed_since := (claimed_since b)[s := since']\<rparr>) p2
     in if dead then (reaped + 1, reclaim_slot os s p3) else (reaped, p3))"

definition check_liveness :: "'e os \<Rightarrow> 'e publisher \<Rightarrow> u32 \<times> 'e publisher" where
  "check_liveness os p =
     (let p1 = scan_slots os p in
      case fold (check_slot os) [0..<nsubs p1] (0, p1) of
        (reaped, p2) \<Rightarrow> (reaped, if reaped \<noteq> 0 then rebuild_active_list os p2 else p2))"

section \<open>Loans and delivery\<close>

definition loan :: "'e os \<Rightarrow> 'e publisher \<Rightarrow> (loan_error + u32) \<times> 'e publisher" where
  "loan os p =
     (if loans_out (priv p) \<ge> max_loans (hdr (shm p)) then (Inl LoanLimit, p)
      else let p1 = fold (drain_done os) (active_list (priv p)) p;
               p2 = (if free_list (priv p1) = [] then scan_slots os p1 else p1)
           in case free_list (priv p2) of
                [] \<Rightarrow> (Inl OutOfChunks, upd_hdr (\<lambda>h. h\<lparr>loan_failures := loan_failures h + 1\<rparr>) p2)
              | c # cs \<Rightarrow> (Inr c, upd_priv (\<lambda>b. b\<lparr>free_list := cs, loans_out := loans_out b + 1\<rparr>) p2))"

definition release_loan :: "u32 \<Rightarrow> 'e publisher \<Rightarrow> 'e publisher" where
  "release_loan chunk p = upd_priv (\<lambda>b. free_chunk chunk (b\<lparr>loans_out := loans_out b - 1\<rparr>)) p"

definition kBlockSpinNs :: int where "kBlockSpinNs = 20000"

text \<open>
  The eviction race of the drop-oldest policy: the oldest entry is read, then the tail is advanced
  only if the subscriber did not advance it first.
\<close>

definition evict ::
  "'e os \<Rightarrow> nat \<Rightarrow> u64 \<Rightarrow> u64 \<Rightarrow> send_report \<Rightarrow> 'e publisher \<Rightarrow> send_report \<times> 'e publisher" where
  "evict os s cap tail rep p =
     (let p1 = sync os p;
          i = unat (tail AND cap - 1);
          victim = ring_at s i p1;
          p2 = sync os (ring_check s i p1)
      in if data_tail (slot p2 s) = tail
         then (rep\<lparr>rep_evicted := rep_evicted rep + 1\<rparr>,
               upd_slot s (\<lambda>sl. sl\<lparr>dropped_oldest := dropped_oldest sl + 1\<rparr>)
                 (upd_priv (release_ref (chunk_count (lay p2)) s victim)
                   (upd_slot s (data_tail_update (\<lambda>_. tail + 1)) p2)))
         else (rep, p2))"

text \<open>
  One turn of the block policy: \<open>None\<close> when the publisher gives up, otherwise the state after the
  spin or the sleep. The clock is read once per turn.
\<close>

definition block_turn ::
  "'e os \<Rightarrow> nat \<Rightarrow> u64 \<Rightarrow> u64 \<Rightarrow> int \<Rightarrow> 'e publisher \<Rightarrow> bool \<times> int \<times> 'e publisher" where
  "block_turn os s cap head block_start p =
     (let now = monotonic_ns os (env (shm p));
          start = (if block_start = 0 then now else block_start);
          limit = int (unat (block_timeout_us (slot p s))) * 1000;
          p1 = (if now - start > limit then p else sync os p)
      in if now - start > limit \<or> slot_state (slot p1 s) \<noteq> SlotActive
         then (False, start,
               upd_slot s (\<lambda>sl. sl\<lparr>block_timeouts := block_timeouts sl + 1,
                                  blocked_ns := blocked_ns sl + of_int (now - start)\<rparr>) p1)
         else if now - start < kBlockSpinNs then (True, start, p1)
         else let p2 = sync os p1;
                  word = space_futex (slot p2 s);
                  p3 = sync os (upd_slot s (publisher_waiting_update (\<lambda>_. 1)) p2);
                  room = (head - data_tail (slot p3 s) < cap);
                  p4 = (if room then p3 else sync os p3)
              in if room \<or> slot_state (slot p4 s) \<noteq> SlotActive
                 then (True, start, upd_slot s (publisher_waiting_update (\<lambda>_. 0)) p4)
                 else let left = limit - (now - start);
                          p5 = p4\<lparr>shm := futex_sleep os s word (if left > 0 then left else 0) (shm p4)\<rparr>
                      in (True, start, upd_slot s (publisher_waiting_update (\<lambda>_. 0)) p5))"

partial_function (option) deliver_loop ::
  "'e os \<Rightarrow> nat \<Rightarrow> u32 \<Rightarrow> u64 \<Rightarrow> u64 \<Rightarrow> int \<Rightarrow> send_report \<Rightarrow> 'e publisher \<Rightarrow>
   (bool \<times> int \<times> send_report \<times> 'e publisher) option" where
  "deliver_loop os s policy cap head block_start rep p =
     (let p1 = sync os p; tail = data_tail (slot p1 s) in
      if head - tail < cap then Some (True, block_start, rep, p1)
      else if policy = DropNewest
      then Some (False, block_start, rep\<lparr>rep_rejected := rep_rejected rep + 1\<rparr>,
                 upd_slot s (\<lambda>sl. sl\<lparr>dropped_newest := dropped_newest sl + 1\<rparr>) p1)
      else if policy = DropOldest
      then (case evict os s cap tail rep p1 of (rep', p2) \<Rightarrow> deliver_loop os s policy cap head block_start rep' p2)
      else if policy = Block
      then (case block_turn os s cap head block_start p1 of (wait, start, p2) \<Rightarrow>
              if wait then deliver_loop os s policy cap head start rep p2
              else Some (False, start, rep\<lparr>rep_block_timeouts := rep_block_timeouts rep + 1\<rparr>, p2))
      else deliver_loop os s policy cap head block_start rep p1)"

declare deliver_loop.simps [code]

definition take_ref :: "u32 \<Rightarrow> nat \<Rightarrow> u32 \<Rightarrow> bookkeeping \<Rightarrow> bookkeeping" where
  "take_ref n s chunk b =
     (let i = s * unat n + unat chunk in
      if i < length (outstanding b) \<and> unat chunk < length (refcount b)
      then b\<lparr>refcount := (refcount b)[unat chunk := refcount b ! unat chunk + 1],
             outstanding := (outstanding b)[i := outstanding b ! i + 1]\<rparr>
      else b\<lparr>wild := True\<rparr>)"

definition wake_subscriber :: "'e os \<Rightarrow> nat \<Rightarrow> 'e publisher \<Rightarrow> 'e publisher" where
  "wake_subscriber os s p =
     (let p1 = upd_slot s (\<lambda>sl. sl\<lparr>futex_word := futex_word sl + 1\<rparr>) p
      in p1\<lparr>shm := futex_wake os s (shm p1)\<rparr>)"

definition enqueue :: "'e os \<Rightarrow> nat \<Rightarrow> u64 \<Rightarrow> u64 \<Rightarrow> u32 \<Rightarrow> 'e publisher \<Rightarrow> 'e publisher" where
  "enqueue os s cap head chunk p =
     (let i = unat (head AND cap - 1);
          p1 = upd_slot s (\<lambda>sl. sl\<lparr>rings := (rings sl)[i := chunk]\<rparr>) (ring_check s i p);
          p2 = upd_slot s (data_head_update (\<lambda>_. head + 1)) (sync os p1);
          p3 = upd_priv (take_ref (chunk_count (lay p2)) s chunk) p2;
          p4 = sync os (upd_slot s (\<lambda>sl. sl\<lparr>delivered := delivered sl + 1\<rparr>) p3)
      in if sleeping (slot p4 s) \<noteq> 0 then wake_subscriber os s p4 else p4)"

definition deliver ::
  "'e os \<Rightarrow> u32 \<Rightarrow> nat \<Rightarrow> send_report \<times> 'e publisher \<Rightarrow> (send_report \<times> 'e publisher) option" where
  "deliver os chunk s = (\<lambda>(rep, p).
     let p1 = slot_check s (sync os p); cap = ucast (queue_capacity (lay p1)); head = data_head (slot p1 s) in
     case deliver_loop os s (overflow (slot p1 s)) cap head 0 rep p1 of
       None \<Rightarrow> None
     | Some (room, start, rep', p2) \<Rightarrow>
         if \<not> room then Some (rep', p2)
         else let p3 = (if start \<noteq> 0
                        then let p' = sync os p2 in
                          upd_slot s (\<lambda>sl. sl\<lparr>blocked_ns := blocked_ns sl
                            + of_int (monotonic_ns os (env (shm p')) - start)\<rparr>) p'
                        else p2)
              in Some (rep'\<lparr>rep_delivered := rep_delivered rep' + 1\<rparr>, enqueue os s cap head chunk p3))"

fun deliver_all ::
  "'e os \<Rightarrow> u32 \<Rightarrow> nat list \<Rightarrow> send_report \<times> 'e publisher \<Rightarrow> (send_report \<times> 'e publisher) option" where
  "deliver_all os chunk [] rp = Some rp"
| "deliver_all os chunk (s # ss) rp =
     (case deliver os chunk s rp of None \<Rightarrow> None | Some rp' \<Rightarrow> deliver_all os chunk ss rp')"

definition stamp_chunk :: "'e os \<Rightarrow> u32 \<Rightarrow> 'e publisher \<Rightarrow> 'e publisher" where
  "stamp_chunk os chunk p =
     (let p1 = upd_priv (\<lambda>b. b\<lparr>loans_out := loans_out b - 1, next_seq := next_seq b + 1\<rparr>) p in
      if unat chunk < length (chunk_headers (shm p))
      then p1\<lparr>shm := (shm p)\<lparr>chunk_headers := (chunk_headers (shm p))[unat chunk :=
             \<lparr>ch_seq = next_seq (priv p), publish_ns = monotonic_ns os (env (shm p))\<rparr>]\<rparr>\<rparr>
      else go_wild p1)"

definition free_unused :: "u32 \<Rightarrow> bookkeeping \<Rightarrow> bookkeeping" where
  "free_unused chunk b =
     (if unat chunk < length (refcount b)
      then if refcount b ! unat chunk = 0 then free_chunk chunk b else b
      else b\<lparr>wild := True\<rparr>)"

definition liveness_due :: "'e os \<Rightarrow> 'e publisher \<Rightarrow> 'e publisher" where
  "liveness_due os p =
     (if liveness_every (priv p) = 0 then p
      else let n = sends_since_liveness (priv p) + 1 in
        if n \<ge> liveness_every (priv p)
        then snd (check_liveness os (upd_priv (sends_since_liveness_update (\<lambda>_. 0)) p))
        else upd_priv (sends_since_liveness_update (\<lambda>_. n)) p)"

definition send :: "'e os \<Rightarrow> u32 \<Rightarrow> 'e publisher \<Rightarrow> (send_report \<times> 'e publisher) option" where
  "send os chunk p =
     (let rep = \<lparr>rep_seq = next_seq (priv p), rep_delivered = 0, rep_evicted = 0, rep_rejected = 0,
                 rep_block_timeouts = 0\<rparr>;
          p1 = scan_slots os (stamp_chunk os chunk p)
      in case deliver_all os chunk (active_list (priv p1)) (rep, p1) of
           None \<Rightarrow> None
         | Some (rep', p2) \<Rightarrow>
             Some (rep', liveness_due os
               (upd_hdr (\<lambda>h. h\<lparr>published := published h + 1\<rparr>) (upd_priv (free_unused chunk) p2))))"

section \<open>Creation\<close>

definition shm_name :: "string \<Rightarrow> string" where
  "shm_name service = ''/devbus.'' @ map (\<lambda>c. if c = CHR ''/'' then CHR ''.'' else c) service"

definition shm_data_name :: "string \<Rightarrow> string" where
  "shm_data_name service = shm_name service @ ''.data''"

record service_config =
  cfg_max_subscribers :: u32
  cfg_queue_capacity :: u32
  cfg_max_borrowed :: u32
  cfg_max_loans :: u32
  cfg_liveness_check_every :: u32

record type_info =
  ti_hash :: u64
  ti_size :: u64
  ti_align :: u64

text \<open>\<open>SegmentError\<close> is a failed \<open>shm_open\<close> or \<open>mmap\<close>, whose message names the segment.\<close>

datatype bus_error = NoSubscribers | TooManyChunks | LivePublisher | SegmentError string

text \<open>Calls on the shared-memory name space; the file modes 0640 and 0660 are 416 and 432.\<close>

datatype shm_call = ShmOpen string | ShmUnlink string | ShmCreate string u64 nat

text \<open>
  The shared-memory name space: the size and publisher id found in a control segment that can be
  opened, and whether a segment can be created.
\<close>

record shm_space =
  found :: "string \<Rightarrow> (u64 \<times> int) option"
  can_create :: "string \<Rightarrow> u64 \<Rightarrow> bool"

definition kMagic :: u64 where "kMagic = 0x3153554256454431"
definition kLayoutVersion :: u32 where "kLayoutVersion = 2"

definition new_slot :: "layout \<Rightarrow> subscriber_slot" where
  "new_slot l = \<lparr>slot_state = SlotFree, slot_pid = 0, overflow = 0, block_timeout_us = 0, data_head = 0,
     data_tail = 0, done_head = 0, done_tail = 0, futex_word = 0, sleeping = 0, space_futex = 0,
     publisher_waiting = 0, delivered = 0, dropped_oldest = 0, dropped_newest = 0, block_timeouts = 0,
     blocked_ns = 0, rings = replicate (unat (queue_capacity l) + unat (completion_capacity l)) 0\<rparr>"

definition new_header :: "type_info \<Rightarrow> service_config \<Rightarrow> layout \<Rightarrow> int \<Rightarrow> segment_header" where
  "new_header type cfg l pid = \<lparr>magic = kMagic, layout_version = kLayoutVersion,
     type_size = ucast (ti_size type), type_hash = ti_hash type, type_align = ucast (ti_align type),
     max_subscribers = cfg_max_subscribers cfg, max_borrowed = cfg_max_borrowed cfg,
     max_loans = cfg_max_loans cfg, h_layout = l, publisher_pid = pid, ready = 1, published = 0,
     loan_failures = 0\<rparr>"

definition new_bookkeeping :: "service_config \<Rightarrow> layout \<Rightarrow> bookkeeping" where
  "new_bookkeeping cfg l =
     (let n = unat (chunk_count l); m = unat (cfg_max_subscribers cfg) in
      \<lparr>free_list = map of_nat [0..<n], refcount = replicate n 0, outstanding = replicate (m * n) 0,
       active = replicate m False, pidfds = replicate m (-1), active_list = [],
       claimed_since = replicate m 0, loans_out = 0, next_seq = 1,
       liveness_every = cfg_liveness_check_every cfg, sends_since_liveness = 0, wild = False\<rparr>)"

definition new_publisher :: "type_info \<Rightarrow> service_config \<Rightarrow> layout \<Rightarrow> int \<Rightarrow> 'e \<Rightarrow> 'e publisher" where
  "new_publisher type cfg l pid e =
     \<lparr>shm = \<lparr>hdr = new_header type cfg l pid,
             slots = replicate (unat (cfg_max_subscribers cfg)) (new_slot l),
             chunk_headers = replicate (unat (chunk_count l)) \<lparr>ch_seq = 0, publish_ns = 0\<rparr>, env = e\<rparr>,
      priv = new_bookkeeping cfg l\<rparr>"

definition contains :: "string \<Rightarrow> string \<Rightarrow> bool" where
  "contains pat str = (\<exists>i \<in> set [0..<Suc (length str)]. take (length pat) (drop i str) = pat)"

text \<open>
  The check for a publisher that is still running. The failed open and the live publisher are told
  apart by searching the error message, which contains the segment's name, for a phrase.
\<close>

definition reclaim_stale ::
  "'e os \<Rightarrow> 'e \<Rightarrow> shm_space \<Rightarrow> string \<Rightarrow> (bus_error + unit) \<times> shm_call list" where
  "reclaim_stale os e sp service =
     (let name = shm_name service in
      case found sp name of
        None \<Rightarrow> (if contains ''live publisher'' name then Inl (SegmentError name) else Inr (), [ShmOpen name])
      | Some (sz, pid) \<Rightarrow>
          if sz \<ge> sizeof_SegmentHeader \<and> process_alive os e pid then (Inl LivePublisher, [ShmOpen name])
          else (Inr (), [ShmOpen name, ShmUnlink name, ShmUnlink (shm_data_name service)]))"

definition create_publisher ::
  "'e os \<Rightarrow> shm_space \<Rightarrow> int \<Rightarrow> 'e \<Rightarrow> string \<Rightarrow> type_info \<Rightarrow> service_config \<Rightarrow>
   ((bus_error + 'e publisher) \<times> shm_call list) option" where
  "create_publisher os sp pid e service type cfg =
     (if cfg_max_subscribers cfg = 0 then Some (Inl NoSubscribers, [])
      else case compute_layout (cfg_max_subscribers cfg) (cfg_queue_capacity cfg) (cfg_max_borrowed cfg)
                  (cfg_max_loans cfg) (ti_size type) (ti_align type) of
        None \<Rightarrow> None
      | Some l \<Rightarrow>
          if chunk_count l > 0xFFFF then Some (Inl TooManyChunks, [])
          else let name = shm_name service; data_name = shm_data_name service in
            case reclaim_stale os e sp service of
              (Inl err, calls) \<Rightarrow> Some (Inl err, calls)
            | (Inr _, calls) \<Rightarrow>
                let calls1 = calls @ [ShmUnlink data_name, ShmCreate data_name (data_size l) 416] in
                if \<not> can_create sp data_name (data_size l) then Some (Inl (SegmentError data_name), calls1)
                else let calls2 = calls1 @ [ShmCreate name (total_size l) 432] in
                if \<not> can_create sp name (total_size l)
                then Some (Inl (SegmentError name), calls2 @ [ShmUnlink data_name])
                else Some (Inr (new_publisher type cfg l pid e), calls2))"

text \<open>Shutting down: the publisher id is cleared, every subscriber is woken, the names go away.\<close>

definition close_publisher :: "'e os \<Rightarrow> string \<Rightarrow> 'e publisher \<Rightarrow> 'e publisher \<times> shm_call list" where
  "close_publisher os service p =
     (let p1 = upd_hdr (publisher_pid_update (\<lambda>_. 0)) p
      in (fold (\<lambda>s p. wake_subscriber os s (sync os p)) [0..<nsubs p1] p1,
          [ShmUnlink (shm_name service), ShmUnlink (shm_data_name service)]))"

definition max_queued :: "'e os \<Rightarrow> 'e publisher \<Rightarrow> u32 \<times> 'e publisher" where
  "max_queued os p =
     fold (\<lambda>s (worst, p). let p1 = sync os p;
                              queued = data_head (slot p1 s) - data_tail (slot p1 s)
                          in (if queued > ucast worst then ucast queued else worst, p1))
       (active_list (priv p)) (0, p)"

end
