(* ===== verification/Devbus_Bookkeeping.thy ===== *)
theory Devbus_Bookkeeping
  imports Devbus_Publisher
begin

text \<open>
  The publisher's bookkeeping stays consistent whatever the subscribers write into the rings and
  indices of the control segment: reference counts equal the references handed out, and every chunk
  is free, on loan or referenced, never two of them.
\<close>

section \<open>The bookkeeping invariant\<close>

text \<open>
  References of slot \<open>s\<close> to chunk \<open>c\<close>, and of all slots together. A chunk is free, on loan or
  referenced, and exactly one of them, except that a chunk being sent is still counted as loaned
  while its first references appear.
\<close>

definition out :: "nat \<Rightarrow> bookkeeping \<Rightarrow> nat \<Rightarrow> nat \<Rightarrow> nat" where
  "out n b s c = unat (outstanding b ! (s * n + c))"

definition refs :: "bookkeeping \<Rightarrow> nat \<Rightarrow> nat" where
  "refs b c = unat (refcount b ! c)"

definition shape :: "nat \<Rightarrow> nat \<Rightarrow> bookkeeping \<Rightarrow> bool" where
  "shape m n b \<longleftrightarrow> \<not> wild b \<and> m < 2 ^ 16 \<and> n < 2 ^ 16 \<and>
     length (refcount b) = n \<and> length (outstanding b) = m * n \<and> length (active b) = m \<and>
     length (pidfds b) = m \<and> length (claimed_since b) = m"

definition counted :: "nat \<Rightarrow> nat \<Rightarrow> bookkeeping \<Rightarrow> bool" where
  "counted m n b \<longleftrightarrow> (\<forall>c < n. refs b c = (\<Sum>s < m. out n b s c)) \<and> (\<forall>s < m. \<forall>c < n. out n b s c \<le> 1)"

definition owned :: "nat \<Rightarrow> u32 set \<Rightarrow> bookkeeping \<Rightarrow> bool" where
  "owned n L b \<longleftrightarrow>
     distinct (free_list b) \<and> (\<forall>c \<in> set (free_list b) \<union> L. unat c < n) \<and>
     (\<forall>c \<in> set (free_list b). refs b (unat c) = 0) \<and> L \<inter> set (free_list b) = {} \<and>
     (\<forall>c. unat c < n \<longrightarrow> c \<in> set (free_list b) \<or> c \<in> L \<or> 0 < refs b (unat c))"

definition book :: "nat \<Rightarrow> nat \<Rightarrow> u32 set \<Rightarrow> bookkeeping \<Rightarrow> bool" where
  "book m n L b \<longleftrightarrow> shape m n b \<and> counted m n b \<and> owned n L b"

lemmas book_defs = book_def shape_def counted_def owned_def

definition shrinks :: "nat \<Rightarrow> nat \<Rightarrow> bookkeeping \<Rightarrow> bookkeeping \<Rightarrow> bool" where
  "shrinks m n b b' \<longleftrightarrow> (\<forall>s < m. \<forall>c < n. out n b' s c \<le> out n b s c) \<and>
     loans_out b' = loans_out b \<and> next_seq b' = next_seq b"

definition idle_at :: "nat \<Rightarrow> u32 set \<Rightarrow> nat \<Rightarrow> bookkeeping \<Rightarrow> bool" where
  "idle_at n L s b \<longleftrightarrow> (\<forall>c \<in> L. out n b s (unat c) = 0)"

lemma book_cong:
  assumes "shape m n b'" "out n b' = out n b" "refs b' = refs b" "free_list b' = free_list b" "book m n L b"
  shows "book m n L b'"
  using assms(1,5) unfolding book_def counted_def owned_def assms(2-4)
  by (elim conjE) (intro conjI; assumption)

lemma shrinks_refl [simp]: "shrinks m n b b"
  by (simp add: shrinks_def)

lemma shrinks_trans [trans]: "shrinks m n a b \<Longrightarrow> shrinks m n b c \<Longrightarrow> shrinks m n a c"
  unfolding shrinks_def by (metis order_trans)

lemma idle_shrinks:
  assumes "idle_at n L s b" "shrinks m n b b'" "s < m" "book m n L b"
  shows "idle_at n L s b'"
  using assms unfolding idle_at_def shrinks_def book_def owned_def by (metis Un_iff le_zero_eq)

lemma pair_index:
  fixes n :: nat
  assumes "c < n" "c' < n"
  shows "s * n + c = s' * n + c' \<longleftrightarrow> s = s' \<and> c = c'"
proof
  assume eq: "s * n + c = s' * n + c'"
  have "s = (s * n + c) div n" "s' = (s' * n + c') div n" using assms by simp_all
  then have "s = s'" using eq by simp
  then show "s = s' \<and> c = c'" using eq by simp
qed simp

lemma pair_index_less:
  fixes n :: nat
  assumes "s < m" "c < n"
  shows "s * n + c < m * n"
proof -
  have "s * n + c < Suc s * n" using assms(2) by simp
  also have "\<dots> \<le> m * n" using assms(1) by (intro mult_le_mono1) simp
  finally show ?thesis .
qed

lemma out_upd:
  assumes "length (outstanding b) = m * n" "s < m" "c < n" "s' < m" "c' < n"
  shows "out n (b\<lparr>outstanding := (outstanding b)[s * n + c := v]\<rparr>) s' c' =
    (if s' = s \<and> c' = c then unat v else out n b s' c')"
  using assms pair_index [OF assms(3,5), of s s'] pair_index_less [OF assms(2,3)]
  by (auto simp: out_def nth_list_update)

lemma sum_upd:
  fixes f :: "nat \<Rightarrow> nat"
  assumes "s < m"
  shows "(\<Sum>s' < m. if s' = s then v else f s') + f s = (\<Sum>s' < m. f s') + v"
proof -
  have "(\<Sum>s' < m. if s' = s then v else f s') = v + (\<Sum>s' \<in> {..<m} - {s}. f s')"
    using assms by (subst sum.remove [of _ s]) auto
  moreover have "(\<Sum>s' < m. f s') = f s + (\<Sum>s' \<in> {..<m} - {s}. f s')"
    using assms by (subst sum.remove [of _ s]) auto
  ultimately show ?thesis by simp
qed

lemma out_le_refs:
  assumes "book m n L b" "s < m" "c < n"
  shows "out n b s c \<le> refs b c"
proof -
  have "out n b s c \<le> (\<Sum>s < m. out n b s c)" using assms(2) by (intro member_le_sum) auto
  then show ?thesis using assms by (simp add: book_defs)
qed

lemma out_frame [frame_simps, simp]:
  "out n (free_list_update f1 b) = out n b"
  "out n (active_update f2 b) = out n b"
  "out n (pidfds_update f3 b) = out n b"
  "out n (active_list_update f4 b) = out n b"
  "out n (claimed_since_update f5 b) = out n b"
  "out n (loans_out_update f6 b) = out n b"
  "out n (next_seq_update f7 b) = out n b"
  "out n (sends_since_liveness_update f8 b) = out n b"
  by (simp_all add: out_def fun_eq_iff)

lemma refs_frame [frame_simps, simp]:
  "refs (free_list_update f10 b) = refs b"
  "refs (active_update f11 b) = refs b"
  "refs (pidfds_update f12 b) = refs b"
  "refs (active_list_update f13 b) = refs b"
  "refs (claimed_since_update f14 b) = refs b"
  "refs (loans_out_update f15 b) = refs b"
  "refs (next_seq_update f16 b) = refs b"
  "refs (sends_since_liveness_update f17 b) = refs b"
  by (simp_all add: refs_def fun_eq_iff)

lemma book_frame [frame_simps, simp]:
  "book m n L (active_list_update f1 b) = book m n L b" "book m n L (loans_out_update f2 b) = book m n L b"
  "book m n L (next_seq_update f3 b) = book m n L b"
  "book m n L (sends_since_liveness_update f4 b) = book m n L b"
  by (simp_all add: book_defs)

text \<open>Counts move together: one slot's count and the total change by the same amount.\<close>

lemma counts_move:
  assumes bk: "length (refcount b) = n" "length (outstanding b) = m * n"
      "\<forall>c < n. refs b c = (\<Sum>s < m. out n b s c)"
    and sc: "s < m" "c < n"
    and v: "unat r + out n b s c = refs b c + unat v"
  shows "\<forall>c' < n. refs (b\<lparr>outstanding := (outstanding b)[s * n + c := v], refcount := (refcount b)[c := r]\<rparr>) c' =
    (\<Sum>s' < m. out n (b\<lparr>outstanding := (outstanding b)[s * n + c := v], refcount := (refcount b)[c := r]\<rparr>) s' c')"
proof (intro allI impI)
  fix c' assume c': "c' < n"
  let ?b = "b\<lparr>outstanding := (outstanding b)[s * n + c := v], refcount := (refcount b)[c := r]\<rparr>"
  have o: "out n ?b s' c' = (if s' = s \<and> c' = c then unat v else out n b s' c')" if "s' < m" for s'
    using out_upd [OF bk(2) sc that c', of v] by (simp add: out_def)
  show "refs ?b c' = (\<Sum>s' < m. out n ?b s' c')"
  proof (cases "c' = c")
    case True
    have "(\<Sum>s' < m. out n ?b s' c') = (\<Sum>s' < m. if s' = s then unat v else out n b s' c)"
      using o True by (intro sum.cong) auto
    then have "(\<Sum>s' < m. out n ?b s' c') + out n b s c = refs b c + unat v"
      using sum_upd [OF sc(1), of "unat v" "\<lambda>s'. out n b s' c"] bk(3) sc(2) by simp
    moreover have "refs ?b c' = unat r" using True sc(2) bk(1) by (simp add: refs_def)
    ultimately show ?thesis using v by simp
  next
    case False
    have "(\<Sum>s' < m. out n ?b s' c') = (\<Sum>s' < m. out n b s' c')" using o False by (intro sum.cong) auto
    moreover have "refs ?b c' = refs b c'" using False by (simp add: refs_def)
    ultimately show ?thesis using bk(3) c' by simp
  qed
qed

lemma unat_diff_16: "unat k \<le> unat (w :: u16) \<Longrightarrow> unat (w - k) = unat w - unat k"
  by (simp add: unat_sub word_le_nat_alt)

lemma drop_refs_counts:
  fixes b :: bookkeeping
  defines "b' \<equiv> \<lambda>k c s n. b\<lparr>outstanding := (outstanding b)[s * n + unat c := outstanding b ! (s * n + unat c) - k],
    refcount := (refcount b)[unat c := refcount b ! unat c - k]\<rparr>"
  assumes bk: "book m n L b" and sc: "s < m" "unat c < n" and k: "unat k \<le> out n b s (unat c)"
  shows "\<forall>c' < n. refs (b' k c s n) c' = (\<Sum>s' < m. out n (b' k c s n) s' c')"
    "\<And>s' c'. s' < m \<Longrightarrow> c' < n \<Longrightarrow> out n (b' k c s n) s' c' =
       (if s' = s \<and> c' = unat c then out n b s' c' - unat k else out n b s' c')"
    "\<And>c'. c' < n \<Longrightarrow> refs (b' k c s n) c' = (if c' = unat c then refs b c' - unat k else refs b c')"
proof -
  have lens: "length (refcount b) = n" "length (outstanding b) = m * n"
      "\<forall>c < n. refs b c = (\<Sum>s < m. out n b s c)"
    using bk by (simp_all add: book_defs)
  have kr: "unat k \<le> refs b (unat c)" using k out_le_refs [OF bk sc] by simp
  have o: "unat (outstanding b ! (s * n + unat c) - k) = out n b s (unat c) - unat k"
    using k by (simp add: out_def unat_diff_16)
  have r: "unat (refcount b ! unat c - k) = refs b (unat c) - unat k"
    using kr by (simp add: refs_def unat_diff_16)
  show "\<forall>c' < n. refs (b' k c s n) c' = (\<Sum>s' < m. out n (b' k c s n) s' c')"
    unfolding b'_def using counts_move [OF lens sc] o r k kr by simp
  show "out n (b' k c s n) s' c' = (if s' = s \<and> c' = unat c then out n b s' c' - unat k else out n b s' c')"
    if "s' < m" "c' < n" for s' c'
    using out_upd [OF lens(2) sc that] o by (simp add: b'_def out_def)
  show "refs (b' k c s n) c' = (if c' = unat c then refs b c' - unat k else refs b c')" if "c' < n" for c'
    using r that lens(1) by (simp add: b'_def refs_def)
qed

lemma drop_refs_book:
  assumes bk: "book m n L b" and sc: "s < m" "unat c < n" and L: "c \<notin> L"
    and k: "0 < unat k" "unat k \<le> out n b s (unat c)"
  shows "book m n L (drop_refs (s * n + unat c) c k b)" (is ?B)
    and "shrinks m n b (drop_refs (s * n + unat c) c k b)" (is ?S)
proof -
  define b1 where "b1 = b\<lparr>outstanding := (outstanding b)[s * n + unat c := outstanding b ! (s * n + unat c) - k],
    refcount := (refcount b)[unat c := refcount b ! unat c - k]\<rparr>"
  note cnt = drop_refs_counts [OF bk sc k(2), folded b1_def]
  have len: "unat c < length (refcount b)" using bk sc by (simp add: book_defs)
  have d: "drop_refs (s * n + unat c) c k b = (if refs b1 (unat c) = 0 then free_chunk c b1 else b1)"
    using len unfolding drop_refs_def b1_def [symmetric] Let_def refs_def by (simp add: unat_eq_0)
  have fc: "out n (free_chunk c b1) = out n b1" "refs (free_chunk c b1) = refs b1"
    by (auto simp: free_chunk_def out_def refs_def fun_eq_iff)
  have le: "out n b1 s' c' \<le> out n b s' c'" if "s' < m" "c' < n" for s' c' using cnt(2) [OF that] by simp
  show ?S using le by (simp add: d shrinks_def fc) (simp add: free_chunk_def b1_def)
  have "out n b1 s' c' \<le> 1" if "s' < m" "c' < n" for s' c'
    using le [OF that] that bk by (force simp: book_defs)
  then have counted: "counted m n (drop_refs (s * n + unat c) c k b)"
    using cnt(1) by (simp add: d counted_def fc)
  have shape: "shape m n (drop_refs (s * n + unat c) c k b)"
    using bk by (simp add: d book_def shape_def) (simp add: free_chunk_def b1_def)
  have own: "owned n L b" using bk by (simp add: book_def)
  have fl: "free_list b1 = free_list b" by (simp add: b1_def)
  have pos: "0 < refs b (unat c)" using k out_le_refs [OF bk sc] by linarith
  have nf: "c \<notin> set (free_list b)" using own pos by (auto simp: owned_def)
  have zero: "refs b1 (unat c') = 0" if "c' \<in> set (free_list b)" for c'
    using cnt(3) [of "unat c'"] that own by (auto simp: owned_def)
  have part: "c' \<in> set (free_list b) \<or> c' \<in> L \<or> 0 < refs b1 (unat c') \<or> c' = c" if "unat c' < n" for c'
  proof (cases "c' = c")
    case False
    then have "refs b1 (unat c') = refs b (unat c')" using cnt(3) [OF that] by (simp add: word_unat_eq_iff)
    then show ?thesis using own that unfolding owned_def by auto
  qed simp
  have "owned n L (drop_refs (s * n + unat c) c k b)"
  proof (cases "refs b1 (unat c) = 0")
    case True
    have "free_list (free_chunk c b1) = c # free_list b" by (simp add: free_chunk_def fl)
    then show ?thesis using True own zero nf L sc(2) unfolding d owned_def
      by (auto simp: fc dest: part)
  next
    case False
    then have "c' \<in> set (free_list b) \<or> c' \<in> L \<or> 0 < refs b1 (unat c')" if "unat c' < n" for c'
      using part [OF that] by auto
    then show ?thesis using False own zero unfolding d owned_def by (simp add: fl)
  qed
  then show ?B using shape counted by (simp add: book_def)
qed

lemma release_ref_book:
  assumes bk: "book m (unat n) L b" and s: "s < m" and idle: "idle_at (unat n) L s b"
  shows "book m (unat n) L (release_ref n s c b)" "shrinks m (unat n) b (release_ref n s c b)"
proof -
  have "book m (unat n) L (release_ref n s c b) \<and> shrinks m (unat n) b (release_ref n s c b)"
  proof (cases "n \<le> c \<or> outstanding b ! (s * unat n + unat c) = 0")
    case True
    have "c < n \<Longrightarrow> s * unat n + unat c < length (outstanding b)"
      using bk s pair_index_less by (simp add: book_defs word_less_nat_alt)
    then show ?thesis using True bk by (cases "n \<le> c") (simp_all add: release_ref_def Let_def not_le)
  next
    case False
    then have c: "unat c < unat n" by (simp add: word_less_nat_alt word_le_nat_alt)
    have i: "s * unat n + unat c < length (outstanding b)"
      using bk s c pair_index_less by (simp add: book_defs)
    have o: "0 < out (unat n) b s (unat c)" using False by (simp add: out_def unat_gt_0)
    then have "c \<notin> L" using idle by (auto simp: idle_at_def)
    then show ?thesis
      using drop_refs_book [OF bk s c, of 1] o False i by (simp add: release_ref_def Let_def Suc_le_eq)
  qed
  then show "book m (unat n) L (release_ref n s c b)" "shrinks m (unat n) b (release_ref n s c b)" by simp_all
qed

lemma release_ref_frame [frame_simps, simp]:
  "active (release_ref n s c b) = active b" "active_list (release_ref n s c b) = active_list b"
  "liveness_every (release_ref n s c b) = liveness_every b"
  "sends_since_liveness (release_ref n s c b) = sends_since_liveness b"
  by (simp_all add: release_ref_def drop_refs_def free_chunk_def Let_def)

lemma reclaim_chunk_book:
  assumes bk: "book m n L b" and s: "s < m" "c < n" and idle: "idle_at n L s b"
  shows "book m n L (reclaim_chunk n s c b)" "shrinks m n b (reclaim_chunk n s c b)"
    "out n (reclaim_chunk n s c b) s c = 0"
proof -
  have i: "s * n + c < length (outstanding b)" using bk s pair_index_less by (simp add: book_defs)
  have n: "n < 2 ^ 16" using bk by (simp add: book_defs)
  then have c: "unat (of_nat c :: u32) = c" using s by (simp add: unsigned_of_nat take_bit_nat_eq_self)
  let ?k = "outstanding b ! (s * n + c)"
  have "book m n L (reclaim_chunk n s c b) \<and> shrinks m n b (reclaim_chunk n s c b) \<and>
      out n (reclaim_chunk n s c b) s c = 0"
  proof (cases "?k = 0")
    case True
    then show ?thesis using i bk by (simp add: reclaim_chunk_def out_def)
  next
    case False
    then have o: "0 < unat ?k" by (simp add: unat_gt_0)
    then have "of_nat c \<notin> L" using idle c by (auto simp: idle_at_def out_def)
    then have d: "book m n L (drop_refs (s * n + unat (of_nat c :: u32)) (of_nat c) ?k b)"
        "shrinks m n b (drop_refs (s * n + unat (of_nat c :: u32)) (of_nat c) ?k b)"
      using drop_refs_book [OF bk s(1), of "of_nat c" ?k] o c s by (simp_all add: out_def)
    have "c < length (refcount b)" using bk s by (simp add: book_defs)
    then have "out n (drop_refs (s * n + c) (of_nat c) ?k b) s c = 0"
      using i c by (simp add: drop_refs_def free_chunk_def out_def Let_def)
    then show ?thesis using d False i c by (simp add: reclaim_chunk_def Let_def)
  qed
  then show "book m n L (reclaim_chunk n s c b)" "shrinks m n b (reclaim_chunk n s c b)"
    "out n (reclaim_chunk n s c b) s c = 0" by simp_all
qed

lemma reclaim_chunk_frame [frame_simps, simp]:
  "active (reclaim_chunk n s c b) = active b" "active_list (reclaim_chunk n s c b) = active_list b"
  "liveness_every (reclaim_chunk n s c b) = liveness_every b"
  "sends_since_liveness (reclaim_chunk n s c b) = sends_since_liveness b"
  by (simp_all add: reclaim_chunk_def drop_refs_def free_chunk_def Let_def)

lemma reclaim_fold_frame [frame_simps, simp]:
  "active (fold (reclaim_chunk n s) cs b) = active b"
  "active_list (fold (reclaim_chunk n s) cs b) = active_list b"
  "liveness_every (fold (reclaim_chunk n s) cs b) = liveness_every b"
  "sends_since_liveness (fold (reclaim_chunk n s) cs b) = sends_since_liveness b"
  by (induction cs arbitrary: b) simp_all

text \<open>After the sweep over all chunks the slot holds no reference any more.\<close>

lemma reclaim_fold_book:
  assumes "book m n L b" "s < m" "idle_at n L s b" "k \<le> n"
  shows "book m n L (fold (reclaim_chunk n s) [0..<k] b) \<and>
    shrinks m n b (fold (reclaim_chunk n s) [0..<k] b) \<and>
    (\<forall>c < k. out n (fold (reclaim_chunk n s) [0..<k] b) s c = 0)"
  using assms
proof (induction k)
  case (Suc k)
  let ?b = "fold (reclaim_chunk n s) [0..<k] b"
  have IH: "book m n L ?b" "shrinks m n b ?b" "\<forall>c < k. out n ?b s c = 0" using Suc by auto
  have idle: "idle_at n L s ?b" using Suc.prems IH by (blast intro: idle_shrinks)
  have "k < n" using Suc.prems by simp
  note r = reclaim_chunk_book [OF IH(1) Suc.prems(2) this idle]
  have "out n (reclaim_chunk n s k ?b) s c = 0" if "c < Suc k" for c
  proof (cases "c = k")
    case False
    then have "out n (reclaim_chunk n s k ?b) s c \<le> out n ?b s c"
      using r(2) Suc.prems that by (simp add: shrinks_def)
    then show ?thesis using IH(3) that False by simp
  qed (simp add: r(3))
  then show ?case using r(1) shrinks_trans [OF IH(2) r(2)] by simp
qed simp

lemma forget_slot_book:
  assumes "book m n L b" "s < m"
  shows "book m n L (forget_slot s b)" "shrinks m n b (forget_slot s b)"
    "active (forget_slot s b) = (active b)[s := False]" "active_list (forget_slot s b) = active_list b"
    "liveness_every (forget_slot s b) = liveness_every b"
    "sends_since_liveness (forget_slot s b) = sends_since_liveness b"
    "out n (forget_slot s b) = out n b"
proof -
  have len: "s < length (active b)" "s < length (pidfds b)" "s < length (claimed_since b)"
    using assms by (simp_all add: book_defs)
  have o: "out n (forget_slot s b) = out n b" "refs (forget_slot s b) = refs b"
    "free_list (forget_slot s b) = free_list b"
    using len by (simp_all add: forget_slot_def out_def refs_def fun_eq_iff)
  show "out n (forget_slot s b) = out n b" by (rule o)
  have "shape m n (forget_slot s b)" using assms len by (simp add: forget_slot_def book_def shape_def)
  then show "book m n L (forget_slot s b)" using o assms(1) by (rule book_cong)
  show "shrinks m n b (forget_slot s b)"
    unfolding shrinks_def o(1) using len by (simp add: forget_slot_def)
qed (use assms in \<open>simp_all add: forget_slot_def book_defs\<close>)

lemma take_ref_book:
  assumes bk: "book m (unat n) L b" and sc: "s < m" "unat c < unat n" and c: "c \<in> L"
    and new: "out (unat n) b s (unat c) = 0"
  shows "book m (unat n) L (take_ref n s c b)" "loans_out (take_ref n s c b) = loans_out b"
    "next_seq (take_ref n s c b) = next_seq b"
    "\<And>s' c'. s' < m \<Longrightarrow> c' < unat n \<Longrightarrow> out (unat n) (take_ref n s c b) s' c' =
       (if s' = s \<and> c' = unat c then 1 else out (unat n) b s' c')"
proof -
  let ?n = "unat n" and ?i = "s * unat n + unat c"
  define b1 where "b1 = b\<lparr>outstanding := (outstanding b)[?i := outstanding b ! ?i + 1],
    refcount := (refcount b)[unat c := refcount b ! unat c + 1]\<rparr>"
  have lens: "length (refcount b) = ?n" "length (outstanding b) = m * ?n"
      "\<forall>c < ?n. refs b c = (\<Sum>s < m. out ?n b s c)" "m < 2 ^ 16"
    using bk by (simp_all add: book_defs)
  have t: "take_ref n s c b = b1"
    using lens sc pair_index_less [OF sc] by (simp add: take_ref_def b1_def Let_def)
  have o1: "unat (outstanding b ! ?i + 1) = 1" using new by (simp add: out_def unat_eq_0)
  have "refs b (unat c) = (\<Sum>s' \<in> {..<m} - {s}. out ?n b s' (unat c))"
    using lens(3) sc new by (subst (asm) sum.remove [of _ s]) auto
  also have "\<dots> \<le> (\<Sum>s' \<in> {..<m} - {s}. 1)"
    using bk sc by (intro sum_mono) (auto simp: book_defs)
  also have "\<dots> = m - 1" using sc by simp
  finally have "refs b (unat c) + 1 < 2 ^ 16" using lens(4) sc by simp
  then have r1: "unat (refcount b ! unat c + 1) = refs b (unat c) + 1"
    by (subst unat_no_wrap) (simp_all add: refs_def)
  have cnt: "\<forall>c' < ?n. refs b1 c' = (\<Sum>s' < m. out ?n b1 s' c')"
    unfolding b1_def using counts_move [OF lens(1-3) sc] o1 r1 new by simp
  show o: "out ?n (take_ref n s c b) s' c' = (if s' = s \<and> c' = unat c then 1 else out ?n b s' c')"
    if "s' < m" "c' < ?n" for s' c'
    using out_upd [OF lens(2) sc that] o1 by (simp add: t b1_def out_def)
  have r: "refs b1 c' = (if c' = unat c then refs b c' + 1 else refs b c')" if "c' < ?n" for c'
    using r1 that lens(1) by (simp add: b1_def refs_def)
  have "counted m ?n b1" using cnt o bk by (auto simp: t [symmetric] book_defs)
  moreover have "owned ?n L b1"
  proof -
    have own: "owned ?n L b" and fl: "free_list b1 = free_list b" using bk by (simp_all add: book_def b1_def)
    have "refs b1 (unat c') = 0" if "c' \<in> set (free_list b)" for c'
      using own that c r [of "unat c'"] by (auto simp: owned_def word_unat_eq_iff [symmetric])
    moreover have "0 < refs b (unat c') \<Longrightarrow> 0 < refs b1 (unat c')" if "unat c' < ?n" for c'
      using r [OF that] by simp
    ultimately show ?thesis using own fl unfolding owned_def by (metis (no_types))
  qed
  ultimately show "book m ?n L (take_ref n s c b)" using bk by (simp add: t book_def shape_def b1_def)
  show "loans_out (take_ref n s c b) = loans_out b" "next_seq (take_ref n s c b) = next_seq b" by (simp_all add: t b1_def)
qed

lemma take_ref_frame [frame_simps, simp]:
  "active (take_ref n s c b) = active b" "active_list (take_ref n s c b) = active_list b"
  "liveness_every (take_ref n s c b) = liveness_every b"
  "sends_since_liveness (take_ref n s c b) = sends_since_liveness b"
  by (simp_all add: take_ref_def Let_def)

section \<open>The control segment under interference\<close>

text \<open>
  What the publisher relies on of the other processes: they leave the configuration in the header
  alone, they cannot write the data segment, which they map read-only, and a subscriber that has activated its slot only moves it on to closing and does not
  change its overflow policy. Rings, indices, counters and process ids may change arbitrarily.
\<close>

definition held :: "subscriber_slot \<Rightarrow> bool" where
  "held sl \<longleftrightarrow> slot_state sl = SlotActive \<or> slot_state sl = SlotClosing"

definition keeps_control :: "'e world \<Rightarrow> 'e world \<Rightarrow> bool" where
  "keeps_control w w' \<longleftrightarrow>
     h_layout (hdr w') = h_layout (hdr w) \<and> max_subscribers (hdr w') = max_subscribers (hdr w) \<and>
     max_loans (hdr w') = max_loans (hdr w) \<and> length (slots w') = length (slots w) \<and>
     chunk_headers w' = chunk_headers w \<and>
     (\<forall>s < length (slots w). length (rings (slots w' ! s)) = length (rings (slots w ! s)) \<and>
        (held (slots w ! s) \<longrightarrow> held (slots w' ! s) \<and> overflow (slots w' ! s) = overflow (slots w ! s)))"

locale bus_peers =
  fixes os :: "'e os"
  assumes interfere_keeps: "keeps_control w (interfere os w)"
    and sleep_keeps: "keeps_control w (futex_sleep os s k t w)"
    and wake_keeps: "keeps_control w (futex_wake os s w)"

text \<open>The shared half of the invariant, for a layout \<open>l\<close> with \<open>m\<close> slots.\<close>

definition control :: "layout \<Rightarrow> nat \<Rightarrow> u32 \<Rightarrow> 'e publisher \<Rightarrow> bool" where
  "control l m ml p \<longleftrightarrow> lay p = l \<and> nsubs p = m \<and> max_loans (hdr (shm p)) = ml \<and>
     length (slots (shm p)) = m \<and> length (chunk_headers (shm p)) = unat (chunk_count l) \<and> 0 < unat (queue_capacity l) \<and> 0 < unat (completion_capacity l) \<and>
     (\<forall>s < m. length (rings (slot p s)) = unat (queue_capacity l) + unat (completion_capacity l) \<and>
        (active (priv p) ! s \<longrightarrow> held (slot p s)))"

definition good :: "layout \<Rightarrow> nat \<Rightarrow> u32 \<Rightarrow> u32 set \<Rightarrow> 'e publisher \<Rightarrow> bool" where
  "good l m ml L p \<longleftrightarrow> control l m ml p \<and> book m (unat (chunk_count l)) L (priv p)"

definition policies :: "nat \<Rightarrow> (nat \<Rightarrow> u32) \<Rightarrow> 'e publisher \<Rightarrow> bool" where
  "policies m f p \<longleftrightarrow> (\<forall>s < m. active (priv p) ! s \<longrightarrow> overflow (slot p s) = f s)"

lemma goodD:
  assumes "good l m ml L p"
  shows "lay p = l" "nsubs p = m" "max_loans (hdr (shm p)) = ml" "length (slots (shm p)) = m"
    "\<And>s. s < m \<Longrightarrow> length (rings (slot p s)) = unat (queue_capacity l) + unat (completion_capacity l)"
    "\<And>s. s < m \<Longrightarrow> active (priv p) ! s \<Longrightarrow> held (slot p s)"
    "book m (unat (chunk_count l)) L (priv p)" "0 < unat (queue_capacity l)" "0 < unat (completion_capacity l)"
    "length (active (priv p)) = m" "length (pidfds (priv p)) = m" "length (claimed_since (priv p)) = m"
  using assms by (auto simp: good_def control_def book_def shape_def)

lemma control_keeps:
  assumes "control l m ml p" "keeps_control (shm p) w"
  shows "control l m ml (p\<lparr>shm := w\<rparr>)"
  using assms by (auto simp: control_def keeps_control_def slot_def)

lemma good_keeps:
  assumes "good l m ml L p" "keeps_control (shm p) w"
  shows "good l m ml L (p\<lparr>shm := w\<rparr>)" "priv (p\<lparr>shm := w\<rparr>) = priv p"
    "policies m f p \<Longrightarrow> policies m f (p\<lparr>shm := w\<rparr>)"
proof -
  show "good l m ml L (p\<lparr>shm := w\<rparr>)" using assms control_keeps [of l m ml p w] by (simp add: good_def)
  show "policies m f (p\<lparr>shm := w\<rparr>)" if f: "policies m f p"
  proof -
    have "overflow (slots w ! s) = f s" if "s < m" "active (priv p) ! s" for s
      using that f goodD(4,6) [OF assms(1)] assms(2) by (auto simp: policies_def keeps_control_def slot_def)
    then show ?thesis by (simp add: policies_def slot_def)
  qed
qed simp

lemma slot_upd_slot:
  "s < length (slots (shm p)) \<Longrightarrow> slot (upd_slot s f p) s' = (if s' = s then f (slot p s) else slot p s')"
  by (auto simp: upd_slot_def slot_def nth_list_update)

lemma upd_slot_frame [frame_simps, simp]:
  "s < length (slots (shm p)) \<Longrightarrow> priv (upd_slot s f p) = priv p"
  "hdr (shm (upd_slot s f p)) = hdr (shm p)" "length (slots (shm (upd_slot s f p))) = length (slots (shm p))"
  "env (shm (upd_slot s f p)) = env (shm p)" "chunk_headers (shm (upd_slot s f p)) = chunk_headers (shm p)"
  by (simp_all add: upd_slot_def go_wild_def upd_priv_def)

lemma upd_priv_frame [frame_simps, simp]:
  "shm (upd_priv f p) = shm p" "priv (upd_priv f p) = f (priv p)" "slot (upd_priv f p) s = slot p s"
  by (simp_all add: upd_priv_def slot_def)

lemma upd_hdr_frame [frame_simps, simp]:
  "priv (upd_hdr f p) = priv p" "slot (upd_hdr f p) s = slot p s" "slots (shm (upd_hdr f p)) = slots (shm p)"
  "hdr (shm (upd_hdr f p)) = f (hdr (shm p))" "env (shm (upd_hdr f p)) = env (shm p)"
  "chunk_headers (shm (upd_hdr f p)) = chunk_headers (shm p)"
  by (simp_all add: upd_hdr_def slot_def)

text \<open>A slot update that neither resizes the rings nor touches state and policy.\<close>

lemma good_upd_slot:
  assumes "good l m ml L p" "s < m" "\<And>sl. length (rings (f sl)) = length (rings sl)"
    "\<And>sl. slot_state (f sl) = slot_state sl" "\<And>sl. overflow (f sl) = overflow sl"
  shows "good l m ml L (upd_slot s f p)" "priv (upd_slot s f p) = priv p"
    "policies m g p \<Longrightarrow> policies m g (upd_slot s f p)"
  using assms goodD(4) [OF assms(1)]
  by (auto simp: good_def control_def policies_def slot_upd_slot held_def)

lemma good_upd_priv:
  assumes "good l m ml L p" "book m (unat (chunk_count l)) L' (f (priv p))"
    "\<And>s. s < m \<Longrightarrow> active (f (priv p)) ! s \<Longrightarrow> active (priv p) ! s"
  shows "good l m ml L' (upd_priv f p)"
  using assms by (auto simp: good_def control_def)

lemma slot_check_good [simp]: "good l m ml L p \<Longrightarrow> s < m \<Longrightarrow> slot_check s p = p"
  using goodD(4,10-12) [of l m ml L p] by (simp add: slot_check_def)

lemma ring_check_good:
  "good l m ml L p \<Longrightarrow> s < m \<Longrightarrow> i < unat (queue_capacity l) + unat (completion_capacity l) \<Longrightarrow>
   ring_check s i p = p"
  using goodD(4,5) [of l m ml L p] by (simp add: ring_check_def)

lemma and_mask_less:
  fixes x c :: u64
  assumes "0 < unat c"
  shows "unat (x AND c - 1) < unat c"
proof -
  have "x AND c - 1 \<le> c - 1" by (rule word_and_le1)
  then have "unat (x AND c - 1) \<le> unat (c - 1)" by (simp add: word_le_nat_alt)
  also have "\<dots> < unat c" using assms by (simp add: unat_sub word_le_nat_alt)
  finally show ?thesis .
qed

lemma and_mask_less_32:
  fixes x :: u64 and c :: u32
  assumes "0 < unat c"
  shows "unat (x AND ucast (c - 1)) < unat c"
proof -
  have "x AND ucast (c - 1) \<le> ucast (c - 1)" by (rule word_and_le1)
  then have "unat (x AND ucast (c - 1)) \<le> unat (c - 1)" by (simp add: word_le_nat_alt)
  also have "\<dots> < unat c" using assms by (simp add: unat_sub word_le_nat_alt)
  finally show ?thesis .
qed

text \<open>
  How one operation moves the state: the invariant holds again, references only go away, and the
  publisher's view of who is active is unchanged.
\<close>

definition calm :: "layout \<Rightarrow> nat \<Rightarrow> u32 \<Rightarrow> u32 set \<Rightarrow> 'e publisher \<Rightarrow> 'e publisher \<Rightarrow> bool" where
  "calm l m ml L p p' \<longleftrightarrow> good l m ml L p' \<and> shrinks m (unat (chunk_count l)) (priv p) (priv p') \<and>
     active (priv p') = active (priv p) \<and> active_list (priv p') = active_list (priv p) \<and>
     (\<forall>f. policies m f p \<longrightarrow> policies m f p')"

lemma calm_refl: "good l m ml L p \<Longrightarrow> calm l m ml L p p"
  by (simp add: calm_def)

lemma calm_trans [trans]:
  assumes "calm l m ml L a b" "calm l m ml L b c"
  shows "calm l m ml L a c"
  using assms shrinks_trans [of m "unat (chunk_count l)" "priv a" "priv b" "priv c"] by (simp add: calm_def)

lemma calmD:
  assumes "calm l m ml L p p'"
  shows "good l m ml L p'" "active (priv p') = active (priv p)" "active_list (priv p') = active_list (priv p)"
    "policies m f p \<Longrightarrow> policies m f p'" "shrinks m (unat (chunk_count l)) (priv p) (priv p')"
  using assms by (simp_all add: calm_def)

lemma calm_idle:
  assumes "calm l m ml L p p'" "good l m ml L p" "s < m" "idle_at (unat (chunk_count l)) L s (priv p)"
  shows "idle_at (unat (chunk_count l)) L s (priv p')"
  using idle_shrinks [OF assms(4) calmD(5) [OF assms(1)] assms(3) goodD(7) [OF assms(2)]] .

lemma calm_upd_slot:
  assumes "good l m ml L p" "s < m" "\<And>sl. length (rings (f sl)) = length (rings sl)"
    "\<And>sl. slot_state (f sl) = slot_state sl" "\<And>sl. overflow (f sl) = overflow sl"
  shows "calm l m ml L p (upd_slot s f p)"
  using good_upd_slot [OF assms] by (simp add: calm_def)

lemma calm_release:
  assumes "good l m ml L p" "s < m" "idle_at (unat (chunk_count l)) L s (priv p)"
  shows "calm l m ml L p (upd_priv (release_ref (chunk_count l) s c) p)"
proof -
  note r = release_ref_book [OF goodD(7) [OF assms(1)] assms(2,3), of c]
  have "good l m ml L (upd_priv (release_ref (chunk_count l) s c) p)"
    by (rule good_upd_priv [OF assms(1)]) (simp_all add: r(1))
  then show ?thesis using r(2) by (simp add: calm_def policies_def)
qed

text \<open>The same without the publisher's view of who is active, for the scans that change it.\<close>

definition moves :: "layout \<Rightarrow> nat \<Rightarrow> u32 \<Rightarrow> u32 set \<Rightarrow> 'e publisher \<Rightarrow> 'e publisher \<Rightarrow> bool" where
  "moves l m ml L p p' \<longleftrightarrow> good l m ml L p' \<and> shrinks m (unat (chunk_count l)) (priv p) (priv p')"

lemma moves_trans [trans]:
  assumes "moves l m ml L a b" "moves l m ml L b c"
  shows "moves l m ml L a c"
  using assms shrinks_trans [of m "unat (chunk_count l)" "priv a" "priv b" "priv c"] by (simp add: moves_def)

lemma calm_moves: "calm l m ml L p p' \<Longrightarrow> moves l m ml L p p'"
  by (simp add: calm_def moves_def)

lemma movesD:
  assumes "moves l m ml L p p'"
  shows "good l m ml L p'" "shrinks m (unat (chunk_count l)) (priv p) (priv p')"
  using assms by (simp_all add: moves_def)

definition idle :: "nat \<Rightarrow> nat \<Rightarrow> u32 set \<Rightarrow> bookkeeping \<Rightarrow> bool" where
  "idle m n L b \<longleftrightarrow> (\<forall>s < m. idle_at n L s b)"

lemma moves_idle:
  assumes "moves l m ml L p p'" "good l m ml L p" "idle m (unat (chunk_count l)) L (priv p)"
  shows "idle m (unat (chunk_count l)) L (priv p')"
  using idle_shrinks [OF _ movesD(2) [OF assms(1)] _ goodD(7) [OF assms(2)]] assms(3) by (simp add: idle_def)

text \<open>Updates of the publisher's per-slot vectors.\<close>

lemma moves_upd_priv:
  assumes "good l m ml L p" "shape m (unat (chunk_count l)) (f (priv p))"
    "out (unat (chunk_count l)) (f (priv p)) = out (unat (chunk_count l)) (priv p)"
    "refs (f (priv p)) = refs (priv p)" "free_list (f (priv p)) = free_list (priv p)"
    "loans_out (f (priv p)) = loans_out (priv p)" "next_seq (f (priv p)) = next_seq (priv p)"
    "\<And>s. s < m \<Longrightarrow> active (f (priv p)) ! s \<Longrightarrow> held (slot p s)"
  shows "moves l m ml L p (upd_priv f p)"
  using assms book_cong [OF assms(2-5) goodD(7) [OF assms(1)]]
  by (simp add: moves_def good_def control_def shrinks_def)

definition listed :: "nat \<Rightarrow> bookkeeping \<Rightarrow> bool" where
  "listed m b \<longleftrightarrow> distinct (active_list b) \<and> set (active_list b) = {s. s < m \<and> active b ! s}"

definition same_view :: "'e publisher \<Rightarrow> 'e publisher \<Rightarrow> bool" where
  "same_view p p' \<longleftrightarrow> active (priv p') = active (priv p) \<and> active_list (priv p') = active_list (priv p)"

lemma listed_same_view: "listed m (priv p) \<Longrightarrow> same_view p p' \<Longrightarrow> listed m (priv p')"
  by (simp add: listed_def same_view_def)

text \<open>
  Sending: the chunk stays accounted as loaned while it gains references, at most one per slot, and
  only from slots that have been served.
\<close>

definition serves :: "layout \<Rightarrow> nat \<Rightarrow> u32 \<Rightarrow> u32 set \<Rightarrow> u32 \<Rightarrow> nat set \<Rightarrow> 'e publisher \<Rightarrow> 'e publisher \<Rightarrow> bool" where
  "serves l m ml L c S p p' \<longleftrightarrow> good l m ml L p' \<and> same_view p p' \<and>
     loans_out (priv p') = loans_out (priv p) \<and> next_seq (priv p') = next_seq (priv p) \<and>
     (\<forall>s < m. \<forall>c' < unat (chunk_count l). out (unat (chunk_count l)) (priv p') s c' \<le>
        (if s \<in> S \<and> c' = unat c then 1 else out (unat (chunk_count l)) (priv p) s c'))"

lemma calm_serves:
  assumes "calm l m ml L p p'" "good l m ml L p"
  shows "serves l m ml L c S p p'"
proof -
  have "out (unat (chunk_count l)) (priv p') s c' \<le> (if s \<in> S \<and> c' = unat c then 1
      else out (unat (chunk_count l)) (priv p) s c')" if "s < m" "c' < unat (chunk_count l)" for s c'
    using that assms goodD(7) [OF assms(2)] goodD(7) [OF calmD(1) [OF assms(1)]]
    by (auto simp: calm_def shrinks_def book_defs)
  then show ?thesis using assms by (simp add: serves_def calm_def same_view_def shrinks_def)
qed

lemma serves_trans:
  assumes "serves l m ml L c S a b" "serves l m ml L c T b d"
  shows "serves l m ml L c (S \<union> T) a d"
proof -
  have "out (unat (chunk_count l)) (priv d) s c' \<le> (if s \<in> S \<union> T \<and> c' = unat c then 1
      else out (unat (chunk_count l)) (priv a) s c')" if "s < m" "c' < unat (chunk_count l)" for s c'
  proof -
    have "out (unat (chunk_count l)) (priv d) s c' \<le> (if s \<in> T \<and> c' = unat c then 1
        else out (unat (chunk_count l)) (priv b) s c')"
      "out (unat (chunk_count l)) (priv b) s c' \<le> (if s \<in> S \<and> c' = unat c then 1
        else out (unat (chunk_count l)) (priv a) s c')"
      using assms that by (simp_all add: serves_def)
    then show ?thesis by (auto split: if_splits)
  qed
  then show ?thesis using assms by (simp add: serves_def same_view_def)
qed

lemma servesD:
  assumes "serves l m ml L c S p p'"
  shows "good l m ml L p'" "same_view p p'"
    "\<And>s c'. s < m \<Longrightarrow> c' < unat (chunk_count l) \<Longrightarrow> out (unat (chunk_count l)) (priv p') s c' \<le>
        (if s \<in> S \<and> c' = unat c then 1 else out (unat (chunk_count l)) (priv p) s c')"
  using assms by (simp_all add: serves_def)

lemma serves_idle_at:
  assumes "serves l m ml L c S p p'" "s < m" "s \<notin> S" "idle_at (unat (chunk_count l)) L s (priv p)"
  shows "idle_at (unat (chunk_count l)) L s (priv p')"
proof -
  have "unat c' < unat (chunk_count l)" if "c' \<in> L" for c'
    using that goodD(7) [OF servesD(1) [OF assms(1)]] by (simp add: book_defs)
  then show ?thesis using servesD(3) [OF assms(1,2)] assms(3,4) by (fastforce simp: idle_at_def)
qed

text \<open>The invariant of the publisher between two calls, with the chunks its user holds on loan.\<close>

definition pub_inv :: "layout \<Rightarrow> nat \<Rightarrow> u32 \<Rightarrow> u32 set \<Rightarrow> 'e publisher \<Rightarrow> bool" where
  "pub_inv l m ml L p \<longleftrightarrow> good l m ml L p \<and> idle m (unat (chunk_count l)) L (priv p) \<and> listed m (priv p) \<and>
     unat (loans_out (priv p)) = card L"

lemma moves_pub_inv:
  assumes "moves l m ml L p p'" "pub_inv l m ml L p" "listed m (priv p')"
  shows "pub_inv l m ml L p'"
  using assms moves_idle [OF assms(1)] by (auto simp: pub_inv_def moves_def shrinks_def)

lemma good_upd_hdr:
  assumes "good l m ml L p" "h_layout (f (hdr (shm p))) = h_layout (hdr (shm p))"
    "max_subscribers (f (hdr (shm p))) = max_subscribers (hdr (shm p))"
    "max_loans (f (hdr (shm p))) = max_loans (hdr (shm p))"
  shows "good l m ml L (upd_hdr f p)"
  using assms by (simp add: good_def control_def)

context bus_peers
begin

lemma calm_sync: "good l m ml L p \<Longrightarrow> calm l m ml L p (sync os p)"
  using good_keeps [of l m ml L p, OF _ interfere_keeps] by (simp add: calm_def sync_def)

lemma good_sync: "good l m ml L p \<Longrightarrow> good l m ml L (sync os p)"
  by (rule calmD(1) [OF calm_sync])

lemma calm_wake:
  assumes "good l m ml L p" "s < m"
  shows "calm l m ml L p (wake_subscriber os s p)"
proof -
  let ?p1 = "upd_slot s (\<lambda>sl. sl\<lparr>futex_word := futex_word sl + 1\<rparr>) p"
  have c1: "calm l m ml L p ?p1" by (rule calm_upd_slot [OF assms]) simp_all
  have "calm l m ml L ?p1 (wake_subscriber os s p)"
    using good_keeps [OF calmD(1) [OF c1] wake_keeps] by (simp add: calm_def wake_subscriber_def Let_def)
  then show ?thesis by (rule calm_trans [OF c1])
qed

lemma calm_drain_loop:
  assumes "good l m ml L p" "s < m" "idle_at (unat (chunk_count l)) L s (priv p)"
    "msk = ucast (completion_capacity l - 1)"
  shows "calm l m ml L p (drain_loop os s msk tail head p)"
  using assms
proof (induction "unat (head - tail)" arbitrary: tail p rule: less_induct)
  case less
  show ?case
  proof (cases "tail = head")
    case True
    then show ?thesis using less.prems by (simp add: calm_refl drain_loop.simps)
  next
    case False
    let ?i = "unat (queue_capacity l) + unat (tail AND msk)"
    let ?p1 = "sync os p"
    let ?p2 = "upd_priv (release_ref (chunk_count l) s (ring_at s ?i ?p1)) ?p1"
    note p1 = calm_sync [OF less.prems(1)]
    have i: "?i < unat (queue_capacity l) + unat (completion_capacity l)"
      using and_mask_less_32 [OF goodD(9) [OF less.prems(1)]] by (simp add: less.prems(4))
    note idle1 = calm_idle [OF p1 less.prems(1-3)]
    note p2 = calm_trans [OF p1 calm_release [OF calmD(1) [OF p1] less.prems(2) idle1]]
    have "drain_loop os s msk tail head p = drain_loop os s msk (tail + 1) head ?p2"
      using False goodD(1) [OF calmD(1) [OF p1]]
      by (subst drain_loop.simps) (simp add: Let_def ring_check_good [OF calmD(1) [OF p1] less.prems(2) i])
    moreover have "calm l m ml L ?p2 (drain_loop os s msk (tail + 1) head ?p2)"
      using less.hyps [OF unat_step_less [OF False] calmD(1) [OF p2] less.prems(2)
        calm_idle [OF p2 less.prems(1-3)] less.prems(4)] .
    ultimately show ?thesis using calm_trans [OF p2] by simp
  qed
qed

lemma calm_drain_done:
  assumes "good l m ml L p" "s < m" "idle_at (unat (chunk_count l)) L s (priv p)"
  shows "calm l m ml L p (drain_done os s p)"
proof -
  let ?p1 = "sync os p" let ?p2 = "sync os ?p1"
  note p1 = calm_sync [OF assms(1)]
  note p2 = calm_trans [OF p1 calm_sync [OF calmD(1) [OF p1]]]
  let ?p3 = "drain_loop os s (ucast (completion_capacity l - 1)) (done_tail (slot ?p1 s)) (done_head (slot ?p2 s)) ?p2"
  have p3: "calm l m ml L p ?p3"
    by (rule calm_trans [OF p2 calm_drain_loop [OF calmD(1) [OF p2] assms(2) calm_idle [OF p2 assms] refl]])
  have "calm l m ml L p (upd_slot s (done_tail_update (\<lambda>_. done_head (slot ?p2 s))) ?p3)"
    by (rule calm_trans [OF p3 calm_upd_slot [OF calmD(1) [OF p3] assms(2)]]) simp_all
  then show ?thesis using p2 goodD(1) [OF calmD(1) [OF p1]] by (simp add: drain_done_def Let_def)
qed

lemma moves_reclaim:
  assumes "good l m ml L p" "s < m" "idle_at (unat (chunk_count l)) L s (priv p)"
  shows "moves l m ml L p (reclaim_slot os s p)"
    "active (priv (reclaim_slot os s p)) = (active (priv p))[s := False]"
    "active_list (priv (reclaim_slot os s p)) = active_list (priv p)"
    "\<And>c. c < unat (chunk_count l) \<Longrightarrow> out (unat (chunk_count l)) (priv (reclaim_slot os s p)) s c = 0"
proof -
  let ?n = "unat (chunk_count l)"
  let ?p1 = "drain_done os s p"
  let ?g = "fold (reclaim_chunk ?n s) [0..<?n]"
  let ?p2 = "upd_priv ?g ?p1" let ?p3 = "sync os ?p2"
  let ?p4 = "upd_priv (forget_slot s) (upd_slot s reset_slot ?p3)"
  note p1 = calm_drain_done [OF assms]
  note f = reclaim_fold_book [OF goodD(7) [OF calmD(1) [OF p1]] assms(2) calm_idle [OF p1 assms] order_refl]
  have "good l m ml L ?p2" using f by (intro good_upd_priv [OF calmD(1) [OF p1]]) simp_all
  then have p2: "calm l m ml L p ?p2"
    using f by (intro calm_trans [OF p1]) (simp add: calm_def policies_def)
  note p3 = calm_trans [OF p2 calm_sync [OF calmD(1) [OF p2]]]
  have eq: "reclaim_slot os s p = ?p4" using goodD(1) [OF calmD(1) [OF p1]] by (simp add: reclaim_slot_def Let_def)
  note g3 = calmD(1) [OF p3]
  have len: "s < length (slots (shm ?p3))" using goodD(4) [OF g3] assms(2) by simp
  note fs = forget_slot_book [OF goodD(7) [OF g3] assms(2)]
  have pr: "priv ?p4 = forget_slot s (priv ?p3)" using len by simp
  have "control l m ml ?p4"
    using g3 assms(2) len goodD(10) [OF g3] unfolding good_def control_def
    by (simp add: slot_upd_slot fs(3) reset_slot_def nth_list_update)
  then have "good l m ml L ?p4" using fs(1) len by (simp add: good_def)
  moreover have "shrinks m ?n (priv p) (priv ?p4)"
    unfolding pr by (rule shrinks_trans [OF calmD(5) [OF p3] fs(2)])
  ultimately show "moves l m ml L p (reclaim_slot os s p)" by (simp add: eq moves_def)
  show "active (priv (reclaim_slot os s p)) = (active (priv p))[s := False]"
    "active_list (priv (reclaim_slot os s p)) = active_list (priv p)"
    using calmD(2,3) [OF p3] len by (simp_all add: eq fs(3,4))
  fix c assume c: "c < ?n"
  have "out ?n (priv ?p2) s c = 0" using f c by simp
  moreover have "out ?n (priv ?p3) s c = out ?n (priv ?p2) s c" by (simp add: sync_def)
  ultimately show "out ?n (priv (reclaim_slot os s p)) s c = 0" using len by (simp add: eq fs(7))
qed

text \<open>Rebuilding the list of active slots: each active slot once, blocking ones last.\<close>

lemma list_active_fold:
  assumes "good l m ml L p" "policies m f p" "set xs \<subseteq> {..<m}"
  shows "good l m ml L (fold (list_active os blocking) xs p) \<and> policies m f (fold (list_active os blocking) xs p) \<and>
    priv (fold (list_active os blocking) xs p) = (priv p)\<lparr>active_list := active_list (priv p) @
      filter (\<lambda>s. active (priv p) ! s \<and> (f s = Block) = blocking) xs\<rparr>"
  using assms
proof (induction xs arbitrary: p)
  case (Cons s xs)
  have s: "s < m" using Cons.prems by simp
  note c = calm_sync [OF Cons.prems(1)]
  have pr: "priv (sync os p) = priv p" by (simp add: sync_def)
  let ?q = "list_active os blocking s p"
  have q: "good l m ml L ?q \<and> policies m f ?q \<and> priv ?q = (priv p)\<lparr>active_list := active_list (priv p) @
      filter (\<lambda>s. active (priv p) ! s \<and> (f s = Block) = blocking) [s]\<rparr>"
  proof (cases "active (priv p) ! s")
    case True
    let ?g = "\<lambda>b. b\<lparr>active_list := active_list b @ [s]\<rparr>"
    have ov: "overflow (slot (sync os p) s) = f s"
      using calmD(4) [OF c Cons.prems(2)] True s by (simp add: policies_def pr)
    have "good l m ml L (upd_priv ?g (sync os p))"
      using goodD(7) [OF Cons.prems(1)] by (intro good_upd_priv [OF calmD(1) [OF c]]) (simp_all add: pr)
    then show ?thesis
      using True ov calmD(1) [OF c] calmD(4) [OF c Cons.prems(2)] s
      by (auto simp: list_active_def pr policies_def)
  qed (use Cons.prems in \<open>simp add: list_active_def\<close>)
  then show ?case using Cons.IH [of ?q] Cons.prems(3) by auto
qed simp

lemma rebuild_good:
  assumes "good l m ml L p"
  shows "moves l m ml L p (rebuild_active_list os p)" "listed m (priv (rebuild_active_list os p))"
    "active (priv (rebuild_active_list os p)) = active (priv p)"
proof -
  let ?f = "\<lambda>s. overflow (slot p s)"
  let ?p1 = "upd_priv (active_list_update (\<lambda>_. [])) p"
  let ?p2 = "fold (list_active os False) [0..<m] ?p1"
  let ?p3 = "fold (list_active os True) [0..<m] ?p2"
  have p1: "good l m ml L ?p1" "policies m ?f ?p1"
    using goodD(7) [OF assms] by (auto intro!: good_upd_priv [OF assms] simp: policies_def)
  have sub: "set [0..<m] \<subseteq> {..<m}" by auto
  note p2 = list_active_fold [OF p1 sub, of False]
  then have p2': "good l m ml L ?p2" "policies m ?f ?p2" by auto
  note p3 = list_active_fold [OF p2' sub, of True]
  have eq: "rebuild_active_list os p = ?p3"
    using goodD(2) [OF p1(1)] goodD(2) [OF p2'(1)] by (simp add: rebuild_active_list_def Let_def)
  have pr: "priv ?p3 = (priv p)\<lparr>active_list := filter (\<lambda>s. active (priv p) ! s \<and> ?f s \<noteq> Block) [0..<m] @
      filter (\<lambda>s. active (priv p) ! s \<and> ?f s = Block) [0..<m]\<rparr>"
    using p2 p3 by auto
  show "listed m (priv (rebuild_active_list os p))"
    unfolding eq pr listed_def by auto
  show "active (priv (rebuild_active_list os p)) = active (priv p)" unfolding eq pr by simp
  have "good l m ml L ?p3" using p3 by auto
  then show "moves l m ml L p (rebuild_active_list os p)"
    unfolding eq moves_def pr by (simp add: shrinks_def)
qed

lemma scan_slot_good:
  assumes "good l m ml L p" "idle m (unat (chunk_count l)) L (priv p)" "s < m"
    "scan_slot os s (ch, p) = (ch', p')"
  shows "moves l m ml L p p'" "\<not> ch' \<Longrightarrow> \<not> ch \<and> same_view p p'"
proof -
  let ?p1 = "sync os p" let ?p2 = "sync os ?p1"
  note c1 = calm_sync [OF assms(1)]
  note c2 = calm_trans [OF c1 calm_sync [OF calmD(1) [OF c1]]]
  let ?fd = "sys_pidfd_open os (env (shm ?p2)) (slot_pid (slot ?p2 s))"
  let ?p3 = "upd_priv (\<lambda>b. b\<lparr>pidfds := (pidfds b)[s := ?fd]\<rparr>) ?p2"
  let ?p4 = "upd_priv (\<lambda>b. b\<lparr>active := (active b)[s := True]\<rparr>) ?p3"
  have sc: "slot_check s ?p1 = ?p1" using calmD(1) [OF c1] assms(3) by simp
  have sh: "shape m (unat (chunk_count l)) (priv ?p2)" using goodD(7) [OF calmD(1) [OF c2]] by (simp add: book_def)
  have m3: "moves l m ml L p ?p3"
    using sh goodD(6) [OF calmD(1) [OF c2]]
    by (intro moves_trans [OF calm_moves [OF c2] moves_upd_priv [OF calmD(1) [OF c2]]])
      (simp_all add: shape_def)
  have idle_s: "idle_at (unat (chunk_count l)) L s (priv q)" if "moves l m ml L p q" for q
    using moves_idle [OF that assms(1,2)] assms(3) by (simp add: idle_def)
  note r1 = moves_reclaim [OF calmD(1) [OF c1] assms(3) idle_s [OF calm_moves [OF c1]]]
  note r3 = moves_reclaim [OF movesD(1) [OF m3] assms(3) idle_s [OF m3]]
  have m4: "moves l m ml L p ?p4" if st: "slot_state (slot ?p1 s) = SlotActive"
  proof -
    have "held (slot ?p1 s)" using st by (simp add: held_def)
    then have h: "held (slot ?p2 s)"
      using interfere_keeps [of "shm ?p1"] goodD(4) [OF calmD(1) [OF c1]] assms(3)
      by (simp add: keeps_control_def slot_def sync_def)
    have "held (slot ?p3 s')" if "s' < m" "(active (priv ?p2))[s := True] ! s'" for s'
      using that h goodD(6) [OF calmD(1) [OF c2] that(1)] by (cases "s' = s") simp_all
    then have "moves l m ml L ?p3 ?p4"
      using sh by (intro moves_upd_priv [OF movesD(1) [OF m3]]) (simp_all add: shape_def)
    then show ?thesis by (rule moves_trans [OF m3])
  qed
  show "moves l m ml L p p'"
    using assms(4) m3 m4 moves_trans [OF m3 r3(1)] moves_trans [OF calm_moves [OF c1] r1(1)] calm_moves [OF c1]
    by (auto simp: scan_slot_def Let_def sc split: if_splits)
  show "\<not> ch \<and> same_view p p'" if "\<not> ch'"
    using that assms(4) c1 by (auto simp: scan_slot_def Let_def sc same_view_def calm_def split: if_splits)
qed

lemma scan_fold_good:
  assumes "good l m ml L p" "idle m (unat (chunk_count l)) L (priv p)" "set xs \<subseteq> {..<m}"
    "fold (scan_slot os) xs (ch, p) = (ch', p')"
  shows "moves l m ml L p p' \<and> (\<not> ch' \<longrightarrow> \<not> ch \<and> same_view p p')"
  using assms
proof (induction xs arbitrary: ch p)
  case Nil
  then show ?case by (simp add: calm_moves calm_refl same_view_def)
next
  case (Cons s xs)
  obtain ch1 p1 where 1: "scan_slot os s (ch, p) = (ch1, p1)" by (cases "scan_slot os s (ch, p)")
  have s: "s < m" using Cons.prems by simp
  note g = scan_slot_good [OF Cons.prems(1,2) s 1]
  have rest: "fold (scan_slot os) xs (ch1, p1) = (ch', p')" "set xs \<subseteq> {..<m}" using Cons.prems 1 by simp_all
  have "moves l m ml L p1 p' \<and> (\<not> ch' \<longrightarrow> \<not> ch1 \<and> same_view p1 p')"
    by (rule Cons.IH [OF movesD(1) [OF g(1)] moves_idle [OF g(1) Cons.prems(1,2)] rest(2,1)])
  then show ?case using g moves_trans [OF g(1)] by (auto simp: same_view_def)
qed

lemma scan_slots_good:
  assumes "good l m ml L p" "idle m (unat (chunk_count l)) L (priv p)" "listed m (priv p)"
  shows "moves l m ml L p (scan_slots os p)" "listed m (priv (scan_slots os p))"
proof -
  obtain ch q where q: "fold (scan_slot os) [0..<m] (False, p) = (ch, q)"
    by (cases "fold (scan_slot os) [0..<m] (False, p)")
  have f: "moves l m ml L p q" "\<not> ch \<longrightarrow> same_view p q"
    using scan_fold_good [OF assms(1,2) _ q] by (auto simp: subset_iff)
  have eq: "scan_slots os p = (if ch then rebuild_active_list os q else q)"
    using q goodD(2) [OF assms(1)] by (simp add: scan_slots_def)
  note r = rebuild_good [OF movesD(1) [OF f(1)]]
  show "moves l m ml L p (scan_slots os p)" using f moves_trans [OF f(1) r(1)] by (simp add: eq)
  show "listed m (priv (scan_slots os p))" using f r(2) listed_same_view [OF assms(3)] by (simp add: eq)
qed

lemma check_slot_good:
  assumes "good l m ml L p" "idle m (unat (chunk_count l)) L (priv p)" "s < m"
    "check_slot os s (k, p) = (k', p')"
  shows "moves l m ml L p p'" "k' = k \<and> same_view p p' \<or> k' = k + 1"
proof -
  let ?p1 = "sync os p" let ?p2 = "sync os ?p1"
  note c1 = calm_sync [OF assms(1)]
  note c2 = calm_trans [OF c1 calm_sync [OF calmD(1) [OF c1]]]
  have sc: "slot_check s ?p1 = ?p1" using calmD(1) [OF c1] assms(3) by simp
  have sh: "shape m (unat (chunk_count l)) (priv ?p2)" using goodD(7) [OF calmD(1) [OF c2]] by (simp add: book_def)
  let ?q = "\<lambda>t. upd_priv (\<lambda>b. b\<lparr>claimed_since := (claimed_since b)[s := t]\<rparr>) ?p2"
  have m3: "moves l m ml L p (?q t)" for t
    using sh goodD(6) [OF calmD(1) [OF c2]]
    by (intro moves_trans [OF calm_moves [OF c2] moves_upd_priv [OF calmD(1) [OF c2]]])
      (simp_all add: shape_def)
  have v3: "same_view p (?q t)" for t using c2 by (simp add: same_view_def calm_def)
  have "idle_at (unat (chunk_count l)) L s (priv (?q t))" for t
    using moves_idle [OF m3 assms(1,2)] assms(3) by (simp add: idle_def)
  then have r3: "moves l m ml L p (reclaim_slot os s (?q t))" for t
    by (intro moves_trans [OF m3 moves_reclaim(1) [OF movesD(1) [OF m3] assms(3)]])
  have "\<exists>D t. check_slot os s (k, p) = (if D then (k + 1, reclaim_slot os s (?q t)) else (k, ?q t))"
    unfolding check_slot_def Let_def sc case_prod_conv by (intro exI) (rule refl)
  then obtain t where "(k', p') = (k, ?q t) \<or> (k', p') = (k + 1, reclaim_slot os s (?q t))"
    using assms(4) by (auto split: if_splits)
  then show "moves l m ml L p p'" "k' = k \<and> same_view p p' \<or> k' = k + 1"
    using m3 v3 r3 by auto
qed

lemma check_fold_good:
  assumes "good l m ml L p" "idle m (unat (chunk_count l)) L (priv p)" "set xs \<subseteq> {..<m}"
    "unat k + length xs < 2 ^ 32" "fold (check_slot os) xs (k, p) = (k', p')"
  shows "moves l m ml L p p' \<and> unat k \<le> unat k' \<and> (k' = k \<longrightarrow> same_view p p')"
  using assms
proof (induction xs arbitrary: k p)
  case Nil
  then show ?case by (simp add: calm_moves calm_refl same_view_def)
next
  case (Cons s xs)
  obtain k1 p1 where 1: "check_slot os s (k, p) = (k1, p1)" by (cases "check_slot os s (k, p)")
  have s: "s < m" using Cons.prems by simp
  note g = check_slot_good [OF Cons.prems(1,2) s 1]
  have k1: "unat (k + 1) = unat k + 1" using Cons.prems(4) by (subst unat_no_wrap) simp_all
  have rest: "fold (check_slot os) xs (k1, p1) = (k', p')" "set xs \<subseteq> {..<m}" "unat k1 + length xs < 2 ^ 32"
    using Cons.prems 1 g(2) k1 by auto
  have IH: "moves l m ml L p1 p' \<and> unat k1 \<le> unat k' \<and> (k' = k1 \<longrightarrow> same_view p1 p')"
    by (rule Cons.IH [OF movesD(1) [OF g(1)] moves_idle [OF g(1) Cons.prems(1,2)] rest(2,3,1)])
  then show ?case using g(2) k1 moves_trans [OF g(1)] by (auto simp: same_view_def)
qed

lemma check_liveness_good:
  assumes "good l m ml L p" "idle m (unat (chunk_count l)) L (priv p)" "listed m (priv p)"
  shows "moves l m ml L p (snd (check_liveness os p))" "listed m (priv (snd (check_liveness os p)))"
proof -
  note c = scan_slots_good [OF assms]
  obtain k q where q: "fold (check_slot os) [0..<m] (0, scan_slots os p) = (k, q)"
    by (cases "fold (check_slot os) [0..<m] (0, scan_slots os p)")
  have "m < 2 ^ 16" using goodD(7) [OF assms(1)] by (simp add: book_defs)
  then have f: "moves l m ml L (scan_slots os p) q" "k = 0 \<longrightarrow> same_view (scan_slots os p) q"
    using check_fold_good [OF movesD(1) [OF c(1)] moves_idle [OF c(1) assms(1,2)] _ _ q]
    by (auto simp: subset_iff)
  have eq: "snd (check_liveness os p) = (if k \<noteq> 0 then rebuild_active_list os q else q)"
    using q goodD(2) [OF movesD(1) [OF c(1)]] by (simp add: check_liveness_def)
  note r = rebuild_good [OF movesD(1) [OF f(1)]]
  note t = moves_trans [OF c(1) f(1)]
  show "moves l m ml L p (snd (check_liveness os p))" using t moves_trans [OF t r(1)] by (simp add: eq)
  show "listed m (priv (snd (check_liveness os p)))" using f r(2) listed_same_view [OF c(2)] by (simp add: eq)
qed

lemma calm_evict:
  assumes "good l m ml L p" "s < m" "idle_at (unat (chunk_count l)) L s (priv p)"
    "cap = ucast (queue_capacity l)" "evict os s cap tail rep p = (rep', p')"
  shows "calm l m ml L p p'"
proof -
  let ?p1 = "sync os p" let ?i = "unat (tail AND cap - 1)" let ?p2 = "sync os ?p1"
  let ?p3 = "upd_slot s (data_tail_update (\<lambda>_. tail + 1)) ?p2"
  let ?p4 = "upd_priv (release_ref (chunk_count l) s (ring_at s ?i ?p1)) ?p3"
  note c1 = calm_sync [OF assms(1)]
  note c2 = calm_trans [OF c1 calm_sync [OF calmD(1) [OF c1]]]
  have c3: "calm l m ml L p ?p3"
    by (rule calm_trans [OF c2 calm_upd_slot [OF calmD(1) [OF c2] assms(2)]]) simp_all
  have c4: "calm l m ml L p ?p4"
    by (rule calm_trans [OF c3 calm_release [OF calmD(1) [OF c3] assms(2) calm_idle [OF c3 assms(1-3)]]])
  have c5: "calm l m ml L p (upd_slot s (\<lambda>sl. sl\<lparr>dropped_oldest := dropped_oldest sl + 1\<rparr>) ?p4)"
    by (rule calm_trans [OF c4 calm_upd_slot [OF calmD(1) [OF c4] assms(2)]]) simp_all
  have "?i < unat (queue_capacity l) + unat (completion_capacity l)"
    using and_mask_less [of cap tail] goodD(8) [OF assms(1)] by (simp add: assms(4))
  then have "ring_check s ?i ?p1 = ?p1" by (rule ring_check_good [OF calmD(1) [OF c1] assms(2)])
  then show ?thesis using assms(5) c2 c5 goodD(1) [OF calmD(1) [OF c2]]
    by (auto simp: evict_def Let_def split: if_splits)
qed

lemma calm_waiting:
  "good l m ml L p \<Longrightarrow> s < m \<Longrightarrow> calm l m ml L p (upd_slot s (publisher_waiting_update (\<lambda>_. v)) p)"
  by (rule calm_upd_slot) simp_all

lemma calm_block_turn:
  assumes "good l m ml L p" "s < m" "block_turn os s cap head start p = (wait, start', p')"
  shows "calm l m ml L p p'"
proof -
  let ?p1 = "sync os p" let ?p2 = "sync os ?p1"
  let ?p3 = "sync os (upd_slot s (publisher_waiting_update (\<lambda>_. 1)) ?p2)" let ?p4 = "sync os ?p3"
  note c1 = calm_sync [OF assms(1)]
  note c2 = calm_trans [OF c1 calm_sync [OF calmD(1) [OF c1]]]
  note w2 = calm_trans [OF c2 calm_waiting [OF calmD(1) [OF c2] assms(2), of 1]]
  note c3 = calm_trans [OF w2 calm_sync [OF calmD(1) [OF w2]]]
  note c4 = calm_trans [OF c3 calm_sync [OF calmD(1) [OF c3]]]
  have c5: "calm l m ml L p (?p4\<lparr>shm := futex_sleep os s k t (shm ?p4)\<rparr>)" for k t
    using good_keeps [OF calmD(1) [OF c4] sleep_keeps]
    by (intro calm_trans [OF c4]) (simp add: calm_def)
  note out = calm_trans [OF c3 calm_waiting [OF calmD(1) [OF c3] assms(2)]]
    calm_trans [OF c4 calm_waiting [OF calmD(1) [OF c4] assms(2)]]
    calm_trans [OF c5 calm_waiting [OF calmD(1) [OF c5] assms(2)]]
  have give_up: "calm l m ml L q (upd_slot s (\<lambda>sl. sl\<lparr>block_timeouts := block_timeouts sl + 1,
      blocked_ns := blocked_ns sl + d\<rparr>) q)" if "good l m ml L q" for q d
    by (rule calm_upd_slot [OF that assms(2)]) simp_all
  have late: "calm l m ml L p (upd_slot s (\<lambda>sl. sl\<lparr>block_timeouts := block_timeouts sl + 1,
      blocked_ns := blocked_ns sl + d\<rparr>) ?p1)" for d
    by (rule calm_trans [OF c1 give_up [OF calmD(1) [OF c1]]])
  show ?thesis
    using assms(3) c1 out give_up [OF assms(1)] late late [of 0, simplified]
    by (auto simp: block_turn_def Let_def split: if_splits)
qed

lemma calm_deliver_loop:
  assumes ret: "deliver_loop os s policy cap head start rep p = Some (room, start', rep', p')"
    and "good l m ml L p" "s < m" "idle_at (unat (chunk_count l)) L s (priv p)" "cap = ucast (queue_capacity l)"
  shows "calm l m ml L p p'"
proof -
  let ?P = "\<lambda>os' s' policy' cap' head' start rep p r. os' = os \<longrightarrow> s' = s \<longrightarrow> cap' = cap \<longrightarrow> good l m ml L p \<longrightarrow>
    idle_at (unat (chunk_count l)) L s (priv p) \<longrightarrow> calm l m ml L p (snd (snd (snd r)))"
  have "?P os s policy cap head start rep p (room, start', rep', p')"
  proof (rule deliver_loop.raw_induct [where P = ?P, OF _ ret], intro impI, goal_cases)
    case (1 dl os' s' pol cap' hd' start rep p r)
    note IH = 1(1) and eq = 1(2) [unfolded Let_def 1(3-5)] and g = 1(6) and idle = 1(7)
    note c1 = calm_sync [OF g]
    note i1 = calm_idle [OF c1 g assms(3) idle]
    let ?p1 = "sync os p" and ?t = "data_tail (slot (sync os p) s)"
    have ret: ?case if "r = (x, y, z, q)" "calm l m ml L ?p1 q" for x y z q
      using that calm_trans [OF c1] by simp
    have go: ?case if "dl os s pol cap hd' start' rep' q = Some r" "calm l m ml L ?p1 q" for start' rep' q
    proof -
      note c = calm_trans [OF c1 that(2)]
      have "calm l m ml L q (snd (snd (snd r)))"
        using IH [OF that(1)] calmD(1) [OF c] calm_idle [OF c g assms(3) idle] by simp
      then show ?thesis using calm_trans [OF c] by simp
    qed
    obtain rep1 q1 where ev: "evict os s cap ?t rep ?p1 = (rep1, q1)" by (cases "evict os s cap ?t rep ?p1")
    obtain w st q2 where bt: "block_turn os s cap hd' start ?p1 = (w, st, q2)"
      by (cases "block_turn os s cap hd' start ?p1") auto
    have dn: "calm l m ml L ?p1 (upd_slot s (\<lambda>sl. sl\<lparr>dropped_newest := dropped_newest sl + 1\<rparr>) ?p1)"
      by (rule calm_upd_slot [OF calmD(1) [OF c1] assms(3)]) simp_all
    note ce = calm_evict [OF calmD(1) [OF c1] assms(3) i1 assms(5) ev]
    note cb = calm_block_turn [OF calmD(1) [OF c1] assms(3) bt]
    note cr = calm_refl [OF calmD(1) [OF c1]]
    show ?case
      using eq ret [OF _ cr] ret [OF _ dn] ret [OF _ cb] go [OF _ ce] go [OF _ cb] go [OF _ cr]
      by (auto simp: ev bt split: if_splits)
  qed
  then show ?thesis using assms by simp
qed

lemma serves_enqueue:
  assumes g: "good l m ml L p" and s: "s < m" and i: "idle_at (unat (chunk_count l)) L s (priv p)"
    and c: "c \<in> L" and cap: "cap = ucast (queue_capacity l)"
  shows "serves l m ml L c {s} p (enqueue os s cap head c p)"
proof -
  let ?i = "unat (head AND cap - 1)" and ?n = "unat (chunk_count l)"
  let ?p1 = "upd_slot s (\<lambda>sl. sl\<lparr>rings := (rings sl)[?i := c]\<rparr>) p"
  let ?p2 = "upd_slot s (data_head_update (\<lambda>_. head + 1)) (sync os ?p1)"
  let ?p3 = "upd_priv (take_ref (chunk_count l) s c) ?p2"
  let ?p4 = "sync os (upd_slot s (\<lambda>sl. sl\<lparr>delivered := delivered sl + 1\<rparr>) ?p3)"
  have "?i < unat (queue_capacity l) + unat (completion_capacity l)"
    using and_mask_less [of cap head] goodD(8) [OF g] by (simp add: cap)
  then have rc: "ring_check s ?i p = p" by (rule ring_check_good [OF g s])
  have c1: "calm l m ml L p ?p1" by (rule calm_upd_slot [OF g s]) simp_all
  note c1' = calm_trans [OF c1 calm_sync [OF calmD(1) [OF c1]]]
  have c2: "calm l m ml L p ?p2"
    by (rule calm_trans [OF c1' calm_upd_slot [OF calmD(1) [OF c1'] s]]) simp_all
  note g2 = calmD(1) [OF c2] and i2 = calm_idle [OF c2 g s i]
  have cn: "unat c < ?n" using c goodD(7) [OF g] by (simp add: book_defs)
  have "out ?n (priv ?p2) s (unat c) = 0" using i2 c by (simp add: idle_at_def)
  note t = take_ref_book [OF goodD(7) [OF g2] s cn c this]
  have "good l m ml L ?p3" using t(1) by (intro good_upd_priv [OF g2]) simp_all
  then have s3: "serves l m ml L c {s} ?p2 ?p3"
    using t(2,3) t(4) [of _ _] by (simp add: serves_def same_view_def)
  note s3' = serves_trans [OF calm_serves [OF c2 g, of c "{}"] s3, simplified]
  note g3 = servesD(1) [OF s3']
  have c4: "calm l m ml L ?p3 (upd_slot s (\<lambda>sl. sl\<lparr>delivered := delivered sl + 1\<rparr>) ?p3)"
    by (rule calm_upd_slot [OF g3 s]) simp_all
  note c4' = calm_trans [OF c4 calm_sync [OF calmD(1) [OF c4]]]
  have c5: "calm l m ml L ?p3 (wake_subscriber os s ?p4)"
    by (rule calm_trans [OF c4' calm_wake [OF calmD(1) [OF c4'] s]])
  note done4 = serves_trans [OF s3' calm_serves [OF c4' g3, of c "{}"], simplified]
  note done5 = serves_trans [OF s3' calm_serves [OF c5 g3, of c "{}"], simplified]
  have "enqueue os s cap head c p = (if sleeping (slot ?p4 s) \<noteq> 0 then wake_subscriber os s ?p4 else ?p4)"
    using goodD(1) [OF g2] by (simp add: enqueue_def Let_def rc)
  then show ?thesis using done4 done5 by simp
qed

lemma serves_deliver:
  assumes "deliver os c s (rep, p) = Some (rep', p')" "good l m ml L p" "s < m"
    "idle_at (unat (chunk_count l)) L s (priv p)" "c \<in> L"
  shows "serves l m ml L c {s} p p'"
proof -
  let ?p1 = "sync os p" let ?cap = "ucast (queue_capacity l)" let ?head = "data_head (slot ?p1 s)"
  note c1 = calm_sync [OF assms(2)]
  have sc: "slot_check s ?p1 = ?p1" using calmD(1) [OF c1] assms(3) by simp
  obtain room start rep2 p2 where
    dl: "deliver_loop os s (overflow (slot ?p1 s)) ?cap ?head 0 rep ?p1 = Some (room, start, rep2, p2)"
    using assms(1) goodD(1) [OF calmD(1) [OF c1]]
    by (auto simp: deliver_def Let_def sc split: option.splits)
  note c2 = calm_trans [OF c1 calm_deliver_loop [OF dl calmD(1) [OF c1] assms(3)
      calm_idle [OF c1 assms(2-4)] refl]]
  define p3 where "p3 = (if start \<noteq> 0 then let p' = sync os p2 in
      upd_slot s (\<lambda>sl. sl\<lparr>blocked_ns := blocked_ns sl + of_int (monotonic_ns os (env (shm p')) - start)\<rparr>) p'
    else p2)"
  note c2' = calm_trans [OF c2 calm_sync [OF calmD(1) [OF c2]]]
  have "calm l m ml L p (upd_slot s (\<lambda>sl. sl\<lparr>blocked_ns := blocked_ns sl + d\<rparr>) (sync os p2))" for d
    by (rule calm_trans [OF c2' calm_upd_slot [OF calmD(1) [OF c2'] assms(3)]]) simp_all
  then have c3: "calm l m ml L p p3" using c2 by (simp add: p3_def Let_def)
  have "p' = (if room then enqueue os s ?cap ?head c p3 else p2)"
    using assms(1) dl goodD(1) [OF calmD(1) [OF c1]]
    unfolding deliver_def case_prod_conv Let_def [of "slot_check s (sync os p)"] sc p3_def
    by (auto simp: Let_def split: if_splits)
  moreover have "serves l m ml L c {s} p (enqueue os s ?cap ?head c p3)"
    using serves_trans [OF calm_serves [OF c3 assms(2), of c "{}"] serves_enqueue [OF calmD(1) [OF c3]
      assms(3) calm_idle [OF c3 assms(2-4)] assms(5) refl, of ?head]] by simp
  ultimately show ?thesis using calm_serves [OF c2 assms(2)] by simp
qed

lemma serves_deliver_all:
  assumes "deliver_all os c xs rp = Some (rep', p')" "good l m ml L (snd rp)" "distinct xs" "set xs \<subseteq> {..<m}"
    "\<And>s. s \<in> set xs \<Longrightarrow> idle_at (unat (chunk_count l)) L s (priv (snd rp))" "c \<in> L"
  shows "serves l m ml L c (set xs) (snd rp) p'"
  using assms
proof (induction xs arbitrary: rp)
  case Nil
  then show ?case using calm_serves [OF calm_refl] by fastforce
next
  case (Cons s xs)
  obtain rep p where rp: "rp = (rep, p)" by (cases rp)
  obtain rep1 p1 where 1: "deliver os c s (rep, p) = Some (rep1, p1)"
    using Cons.prems(1) rp by (auto split: option.splits)
  have s: "s < m" "good l m ml L p" "idle_at (unat (chunk_count l)) L s (priv p)"
    using Cons.prems rp by auto
  note d = serves_deliver [OF 1 s(2,1,3) Cons.prems(6)]
  have "serves l m ml L c (set xs) p1 p'"
    using Cons.IH [of "(rep1, p1)"] Cons.prems 1 rp servesD(1) [OF d] serves_idle_at [OF d] by auto
  then show ?case using serves_trans [OF d] rp by simp
qed

lemma pub_inv_check_liveness:
  assumes "pub_inv l m ml L p"
  shows "pub_inv l m ml L (snd (check_liveness os p))"
proof -
  have "good l m ml L p" "idle m (unat (chunk_count l)) L (priv p)" "listed m (priv p)"
    using assms by (simp_all add: pub_inv_def)
  note c = check_liveness_good [OF this]
  show ?thesis by (rule moves_pub_inv [OF c(1) assms c(2)])
qed

lemma drain_fold_good:
  assumes "good l m ml L p" "idle m (unat (chunk_count l)) L (priv p)" "set xs \<subseteq> {..<m}"
  shows "calm l m ml L p (fold (drain_done os) xs p)"
  using assms
proof (induction xs arbitrary: p)
  case Nil
  then show ?case by (simp add: calm_refl)
next
  case (Cons s xs)
  have "s < m" "idle_at (unat (chunk_count l)) L s (priv p)" using Cons.prems by (auto simp: idle_def)
  note d = calm_drain_done [OF Cons.prems(1) this]
  show ?case
    using calm_trans [OF d Cons.IH [OF calmD(1) [OF d] moves_idle [OF calm_moves [OF d] Cons.prems(1,2)]]]
      Cons.prems(3) by simp
qed

text \<open>Before a loan: the completions of the active slots are collected, and if that frees nothing the slots are scanned.\<close>

lemma loan_collect:
  assumes "pub_inv l m ml L p"
  shows "pub_inv l m ml L (let p1 = fold (drain_done os) (active_list (priv p)) p in
    if free_list (priv p1) = [] then scan_slots os p1 else p1)"
proof -
  have g: "good l m ml L p" "idle m (unat (chunk_count l)) L (priv p)" "listed m (priv p)"
    using assms by (simp_all add: pub_inv_def)
  have "set (active_list (priv p)) \<subseteq> {..<m}" using g(3) by (auto simp: listed_def)
  note d = drain_fold_good [OF g(1,2) this]
  have l1: "listed m (priv (fold (drain_done os) (active_list (priv p)) p))"
    using d g(3) by (simp add: listed_def calm_def)
  note i1 = moves_pub_inv [OF calm_moves [OF d] assms l1]
  then have "good l m ml L (fold (drain_done os) (active_list (priv p)) p)"
    "idle m (unat (chunk_count l)) L (priv (fold (drain_done os) (active_list (priv p)) p))"
    by (simp_all add: pub_inv_def)
  note sc = scan_slots_good [OF this l1]
  show ?thesis using i1 moves_pub_inv [OF sc(1) i1 sc(2)] by (simp add: Let_def)
qed

lemma pub_inv_loan:
  assumes inv: "pub_inv l m ml L p" and loan: "loan os p = (r, p')" and fin: "finite L"
  shows "case r of Inl e \<Rightarrow> pub_inv l m ml L p' | Inr c \<Rightarrow> c \<notin> L \<and> pub_inv l m ml (insert c L) p'"
proof (cases "loans_out (priv p) \<ge> max_loans (hdr (shm p))")
  case True
  then show ?thesis using loan inv by (auto simp: loan_def)
next
  case False
  define p2 where "p2 = (let p1 = fold (drain_done os) (active_list (priv p)) p in
    if free_list (priv p1) = [] then scan_slots os p1 else p1)"
  note inv2 = loan_collect [OF inv, folded p2_def]
  have eq: "loan os p = (case free_list (priv p2) of
      [] \<Rightarrow> (Inl OutOfChunks, upd_hdr (\<lambda>h. h\<lparr>loan_failures := loan_failures h + 1\<rparr>) p2)
    | c # cs \<Rightarrow> (Inr c, upd_priv (\<lambda>b. b\<lparr>free_list := cs, loans_out := loans_out b + 1\<rparr>) p2))"
    unfolding loan_def p2_def Let_def using False by (simp only: if_False)
  show ?thesis
  proof (cases "free_list (priv p2)")
    case Nil
    then have "pub_inv l m ml L p'"
      using loan inv2 by (auto simp: eq pub_inv_def intro!: good_upd_hdr)
    then show ?thesis using Nil loan by (auto simp: eq)
  next
    case (Cons c cs)
    let ?f = "\<lambda>b. b\<lparr>free_list := cs, loans_out := loans_out b + 1\<rparr>"
    note g = goodD [of l m ml L p2]
    have gd: "good l m ml L p2" and lst: "listed m (priv p2)" and i: "idle m (unat (chunk_count l)) L (priv p2)"
      and lo: "unat (loans_out (priv p2)) = card L"
      using inv2 by (simp_all add: pub_inv_def)
    note bk = g(7) [OF gd]
    have c: "c \<notin> L" "unat c < unat (chunk_count l)" "refs (priv p2) (unat c) = 0"
      using bk Cons by (auto simp: book_def owned_def)
    have "book m (unat (chunk_count l)) (insert c L) (?f (priv p2))"
      using bk Cons c unfolding book_def
      by (auto simp: shape_def counted_def owned_def)
    then have "good l m ml (insert c L) (upd_priv ?f p2)" by (intro good_upd_priv [OF gd]) simp_all
    moreover have "out (unat (chunk_count l)) (priv p2) s (unat c) = 0" if "s < m" for s
      using out_le_refs [OF bk that c(2)] c(3) by simp
    then have "idle m (unat (chunk_count l)) (insert c L) (?f (priv p2))"
      using i by (simp add: idle_def idle_at_def)
    moreover have "unat (loans_out (priv p2) + 1) = card (insert c L)"
    proof -
      have "loans_out (priv p) < ml" using False goodD(3) [of l m ml L p] inv by (simp add: pub_inv_def not_le)
      then have "unat (loans_out (priv p)) < unat ml" by (simp add: word_less_nat_alt)
      moreover have "unat ml < 2 ^ LENGTH(32)" by (rule unsigned_less)
      moreover have "unat (loans_out (priv p)) = card L" using inv by (simp add: pub_inv_def)
      ultimately have "unat (loans_out (priv p2)) + unat (1 :: u32) < 2 ^ LENGTH(32)" using lo by simp
      then show ?thesis using lo c(1) fin by (subst unat_no_wrap) simp_all
    qed
    ultimately have "pub_inv l m ml (insert c L) (upd_priv ?f p2)"
      using lst by (simp add: pub_inv_def listed_def)
    then show ?thesis using c(1) loan Cons by (auto simp: eq)
  qed
qed

text \<open>Giving up a chunk of \<open>L\<close>: it is free again, or its references keep it.\<close>

lemma owned_free:
  assumes "book m n L b" "c \<in> L" "refs b (unat c) = 0"
  shows "book m n (L - {c}) (free_chunk c b)"
proof -
  have o: "out n (free_chunk c b) = out n b" "refs (free_chunk c b) = refs b"
    by (simp_all add: free_chunk_def)
  have "owned n (L - {c}) (free_chunk c b)"
    using assms unfolding owned_def o by (auto simp: free_chunk_def book_def owned_def)
  then show ?thesis using assms(1) by (simp add: book_def counted_def o) (simp add: shape_def free_chunk_def)
qed

lemma owned_keep:
  assumes "book m n L b" "0 < refs b (unat c)"
  shows "book m n (L - {c}) b"
  using assms by (auto simp: book_def owned_def)

lemma pub_inv_release_loan:
  assumes inv: "pub_inv l m ml L p" and c: "c \<in> L" and fin: "finite L"
  shows "pub_inv l m ml (L - {c}) (release_loan c p)"
proof -
  have g: "good l m ml L p" and i: "idle m (unat (chunk_count l)) L (priv p)" and lst: "listed m (priv p)"
    and lo: "unat (loans_out (priv p)) = card L"
    using inv by (simp_all add: pub_inv_def)
  let ?b = "(priv p)\<lparr>loans_out := loans_out (priv p) - 1\<rparr>"
  note bk = goodD(7) [OF g]
  have bk1: "book m (unat (chunk_count l)) L ?b" using bk by simp
  have cn: "unat c < unat (chunk_count l)" using bk c by (simp add: book_def owned_def)
  have "refs (priv p) (unat c) = (\<Sum>s < m. out (unat (chunk_count l)) (priv p) s (unat c))"
    using bk cn by (simp add: book_def counted_def)
  also have "\<dots> = 0" using i c by (auto simp: idle_def idle_at_def)
  finally have "book m (unat (chunk_count l)) (L - {c}) (free_chunk c ?b)"
    using owned_free [OF bk1 c] by simp
  then have "good l m ml (L - {c}) (release_loan c p)"
    unfolding release_loan_def by (intro good_upd_priv [OF g]) (simp_all add: free_chunk_def)
  moreover have "0 < card L" using c fin by (auto simp: card_gt_0_iff)
  then have "unat (loans_out (priv p) - 1) = card (L - {c})"
    using lo c fin by (subst unat_sub) (simp_all add: word_le_nat_alt)
  ultimately show ?thesis using i lst
    by (simp add: pub_inv_def release_loan_def free_chunk_def idle_def idle_at_def listed_def)
qed

lemma pub_inv_liveness_due:
  assumes "pub_inv l m ml L p"
  shows "pub_inv l m ml L (liveness_due os p)"
proof -
  have "pub_inv l m ml L (upd_priv (sends_since_liveness_update f) p)" for f
    using assms by (auto simp: pub_inv_def idle_def idle_at_def listed_def dest: goodD(7) intro!: good_upd_priv)
  then show ?thesis using assms pub_inv_check_liveness by (simp add: liveness_due_def Let_def)
qed

lemma pub_inv_send:
  assumes inv: "pub_inv l m ml L p" and c: "c \<in> L" and fin: "finite L" and snd: "send os c p = Some (rep, p')"
  shows "pub_inv l m ml (L - {c}) p'"
proof -
  let ?n = "unat (chunk_count l)"
  have g: "good l m ml L p" and i: "idle m ?n L (priv p)" and lst: "listed m (priv p)"
    and lo: "unat (loans_out (priv p)) = card L"
    using inv by (simp_all add: pub_inv_def)
  note bk = goodD(7) [OF g]
  have cn: "unat c < ?n" using bk c by (simp add: book_def owned_def)
  define p0 where "p0 = stamp_chunk os c p"
  have len: "unat c < length (chunk_headers (shm p))" using g cn by (simp add: good_def control_def)
  have pr: "priv p0 = (priv p)\<lparr>loans_out := loans_out (priv p) - 1, next_seq := next_seq (priv p) + 1\<rparr>"
    using len by (simp add: p0_def stamp_chunk_def)
  have st: "out ?n (priv p0) = out ?n (priv p)" "active (priv p0) = active (priv p)"
    "active_list (priv p0) = active_list (priv p)" "loans_out (priv p0) = loans_out (priv p) - 1"
    by (simp_all add: pr)
  have "control l m ml p0" using g len
    by (simp add: good_def control_def p0_def stamp_chunk_def slot_def Let_def)
  then have g0: "good l m ml L p0" using bk by (simp add: good_def pr)
  have i0: "idle m ?n L (priv p0)" "listed m (priv p0)" using i lst st by (simp_all add: idle_def idle_at_def listed_def)
  note sc = scan_slots_good [OF g0 i0]
  let ?p1 = "scan_slots os p0"
  obtain rep0 p2 where
    da: "deliver_all os c (active_list (priv ?p1)) (rep0, ?p1) = Some (rep, p2)"
    and p': "p' = liveness_due os (upd_hdr (\<lambda>h. h\<lparr>published := published h + 1\<rparr>) (upd_priv (free_unused c) p2))"
    using snd by (auto simp: send_def p0_def Let_def split: option.splits)
  have i1: "idle m ?n L (priv ?p1)" by (rule moves_idle [OF sc(1) g0 i0(1)])
  have al: "distinct (active_list (priv ?p1))" "set (active_list (priv ?p1)) \<subseteq> {..<m}"
    using sc(2) by (auto simp: listed_def)
  have idle_s: "idle_at ?n L s (priv ?p1)" if "s < m" for s using i1 that by (simp add: idle_def)
  have sv: "serves l m ml L c (set (active_list (priv ?p1))) ?p1 p2"
    by (rule serves_deliver_all [OF da _ al _ c, unfolded snd_conv])
      (use movesD(1) [OF sc(1)] idle_s al(2) in \<open>simp_all add: subset_iff\<close>)
  note g2 = servesD(1) [OF sv] and bk2 = goodD(7) [OF servesD(1) [OF sv]]
  have len2: "unat c < length (refcount (priv p2))" using bk2 cn by (simp add: book_def shape_def)
  have "refcount (priv p2) ! unat c = 0 \<longleftrightarrow> refs (priv p2) (unat c) = 0" by (simp add: refs_def unat_eq_0)
  then have "book m ?n (L - {c}) (free_unused c (priv p2))"
    using owned_free [OF bk2 c] owned_keep [OF bk2, of c] len2 by (simp add: free_unused_def)
  moreover have fu: "out ?n (free_unused c (priv p2)) = out ?n (priv p2)"
    "active (free_unused c (priv p2)) = active (priv p2)" "active_list (free_unused c (priv p2)) = active_list (priv p2)"
    "loans_out (free_unused c (priv p2)) = loans_out (priv p2)"
    using len2 by (simp_all add: free_unused_def free_chunk_def)
  ultimately have g3: "good l m ml (L - {c}) (upd_priv (free_unused c) p2)"
    by (intro good_upd_priv [OF g2]) simp_all
  have "out ?n (priv p2) s (unat c') = 0" if "s < m" "c' \<in> L - {c}" for s c'
  proof -
    have "unat c' < ?n" using that bk by (simp add: book_def owned_def)
    moreover have "unat c' \<noteq> unat c" using that by (simp add: word_unat_eq_iff)
    ultimately have "out ?n (priv p2) s (unat c') \<le> out ?n (priv ?p1) s (unat c')"
      using servesD(3) [OF sv that(1), of "unat c'"] by simp
    then show ?thesis using idle_s [OF that(1)] that(2) by (simp add: idle_at_def)
  qed
  then have i3: "idle m ?n (L - {c}) (priv (upd_priv (free_unused c) p2))" by (simp add: idle_def idle_at_def fu)
  have "loans_out (priv p2) = loans_out (priv p) - 1"
    using sv sc(1) st(4) by (simp add: serves_def moves_def shrinks_def)
  moreover have "0 < card L" using c fin by (auto simp: card_gt_0_iff)
  ultimately have "unat (loans_out (priv p2)) = card (L - {c})"
    using lo c fin by (simp add: unat_sub word_le_nat_alt)
  moreover have "listed m (priv p2)" using servesD(2) [OF sv] sc(2) by (rule listed_same_view [rotated])
  moreover have "good l m ml (L - {c}) (upd_hdr (\<lambda>h. h\<lparr>published := published h + 1\<rparr>) (upd_priv (free_unused c) p2))"
    by (rule good_upd_hdr [OF g3]) simp_all
  ultimately have "pub_inv l m ml (L - {c}) (upd_hdr (\<lambda>h. h\<lparr>published := published h + 1\<rparr>) (upd_priv (free_unused c) p2))"
    using i3 by (simp add: pub_inv_def fu listed_def)
  then show ?thesis unfolding p' by (rule pub_inv_liveness_due)
qed

lemma pub_inv_sync:
  assumes "pub_inv l m ml L p"
  shows "pub_inv l m ml L (sync os p)"
proof -
  have "good l m ml L p" "listed m (priv p)" using assms by (simp_all add: pub_inv_def)
  then show ?thesis
    using calm_sync [of l m ml L p] by (intro moves_pub_inv [OF calm_moves assms]) (simp_all add: listed_def calm_def)
qed

end

end
