(* ===== verification/Devbus_Delivery.thy ===== *)
theory Devbus_Delivery
  imports Devbus_Bookkeeping
begin

text \<open>
  The two rings of a slot as queues, and what one delivery does to a subscriber's queue under each
  overflow policy.
\<close>

section \<open>The rings as queues\<close>

definition data_queue :: "layout \<Rightarrow> subscriber_slot \<Rightarrow> u32 list" where
  "data_queue l sl = ring_view (take (unat (queue_capacity l)) (rings sl)) (unat (data_tail sl))
     (unat (data_head sl - data_tail sl))"

definition pow2_layout :: "layout \<Rightarrow> bool" where
  "pow2_layout l \<longleftrightarrow> (\<exists>j < 32. queue_capacity l = 2 ^ j) \<and> (\<exists>k < 32. completion_capacity l = 2 ^ k)"

lemma layout_ok_pow2: "layout_ok ms qc mb ml ts ta l \<Longrightarrow> pow2_layout l"
  using compute_layout_capacities unfolding layout_ok_def pow2_layout_def by blast

lemma unat_and_pow2:
  fixes w :: u64 and c :: u32
  assumes "c = 2 ^ j" "j < 32"
  shows "unat (w AND ucast c - 1) = unat w mod unat c" "unat (w AND ucast (c - 1)) = unat w mod unat c"
proof -
  have "ucast (2 ^ j :: u32) = (2 ^ j :: u64)" using assms(2) by (intro bit_word_eqI) (auto simp: bit_simps)
  then have m1: "ucast c - 1 = (mask j :: u64)" by (simp add: assms(1) mask_eq_exp_minus_1)
  have "ucast (mask j :: u32) = (mask j :: u64)" using assms(2) by (intro bit_word_eqI) (auto simp: bit_simps)
  then have m2: "ucast (c - 1) = (mask j :: u64)" by (simp add: assms(1) mask_eq_exp_minus_1)
  have "unat (w AND mask j) = take_bit j (unat w)"
    unfolding take_bit_eq_mask [symmetric] by (rule unsigned_take_bit_eq)
  also have "\<dots> = unat w mod 2 ^ j" by (rule take_bit_eq_mod)
  finally have "unat (w AND mask j) = unat w mod 2 ^ j" .
  then show "unat (w AND ucast c - 1) = unat w mod unat c" "unat (w AND ucast (c - 1)) = unat w mod unat c"
    unfolding m1 m2 using assms by simp_all
qed

text \<open>Positions in a ring of power-of-two size survive the wrap-around of the 64-bit indices.\<close>

lemma index_mod:
  fixes h t :: u64
  assumes "q = 2 ^ j" "j < 32"
  shows "unat h mod q = (unat t + unat (h - t)) mod q"
proof -
  have "unat h = unat (t + (h - t))" by simp
  also have "\<dots> = (unat t + unat (h - t)) mod 2 ^ 64" by (subst unat_word_ariths) simp
  finally have "unat h mod q = (unat t + unat (h - t)) mod 2 ^ 64 mod q" by simp
  moreover have "q dvd 2 ^ 64" unfolding assms(1) by (rule le_imp_power_dvd) (use assms(2) in simp)
  ultimately show ?thesis by (simp add: mod_mod_cancel)
qed

lemma unat_succ_diff:
  fixes h t :: u64
  assumes "unat (h - t) < 2 ^ 32"
  shows "unat (h + 1 - t) = Suc (unat (h - t))"
proof -
  have eq: "h + 1 - t = (h - t) + 1" by simp
  have "unat ((h - t) + 1) = unat (h - t) + unat (1 :: u64)" using assms by (intro unat_no_wrap) simp
  then show ?thesis unfolding eq by simp
qed

lemma unat_diff_succ:
  fixes h t :: u64
  assumes "h \<noteq> t"
  shows "unat (h - t) = Suc (unat (h - (t + 1)))"
proof -
  have "h - t \<noteq> 0" using assms by simp
  then have pos: "0 < unat (h - t)" by (simp add: unat_gt_0)
  have eq: "h - (t + 1) = (h - t) - 1" by simp
  have "unat ((h - t) - 1) = unat (h - t) - 1" using pos by (subst unat_sub) (simp_all add: word_le_nat_alt Suc_le_eq)
  then show ?thesis using pos unfolding eq by simp
qed

lemma ring_view_mod:
  "ring_view buf (t mod length buf) n = ring_view buf t n"
  by (simp add: ring_view_def mod_add_left_eq)

lemma ring_view_start:
  assumes "t mod length buf = t' mod length buf"
  shows "ring_view buf t n = ring_view buf t' n"
  using ring_view_mod [of buf t n] ring_view_mod [of buf t' n] assms by simp

lemma index_succ_mod:
  fixes t :: u64
  assumes "q = 2 ^ j" "j < 32"
  shows "unat (t + 1) mod q = Suc (unat t) mod q"
  using index_mod [OF assms, of "t + 1" t] by simp

text \<open>Appending and removing, on the level of 64-bit indices.\<close>

lemma ring_push:
  fixes h t :: u64
  assumes "length buf = 2 ^ j" "j < 32" "unat (h - t) < length buf"
  shows "ring_view (buf[unat h mod length buf := c]) (unat t) (unat (h + 1 - t)) =
    ring_view buf (unat t) (unat (h - t)) @ [c]"
proof -
  have "unat (h - t) < 2 ^ 32" using assms power_strict_increasing [OF assms(2), of "2 :: nat"] by linarith
  then have "unat (h + 1 - t) = Suc (unat (h - t))" by (rule unat_succ_diff)
  then show ?thesis
    using ring_view_push [OF assms(3), of "unat t" c] index_mod [OF refl assms(2), of h t] assms(1) by simp
qed

lemma ring_pop:
  fixes h t :: u64
  assumes "length buf = 2 ^ j" "j < 32" "h \<noteq> t"
  shows "ring_view buf (unat t) (unat (h - t)) =
    buf ! (unat t mod length buf) # ring_view buf (unat (t + 1)) (unat (h - (t + 1)))"
proof -
  have "ring_view buf (Suc (unat t) mod length buf) n = ring_view buf (unat (t + 1)) n" for n
    using index_succ_mod [OF refl assms(2), of t] assms(1) by (intro ring_view_start) simp
  then show ?thesis
    using unat_diff_succ [OF assms(3)] ring_view_pop [of buf "unat t"] by simp
qed

section \<open>One delivery\<close>

lemma deliver_room:
  assumes "p1 = slot_check s (sync os p)" "p2 = sync os p1" "cap = ucast (queue_capacity (lay p1))"
    "data_head (slot p1 s) - data_tail (slot p2 s) < cap"
  shows "deliver os c s (rep, p) =
    Some (rep\<lparr>rep_delivered := rep_delivered rep + 1\<rparr>, enqueue os s cap (data_head (slot p1 s)) c p2)"
  using assms by (subst deliver_def, subst deliver_loop.simps) (simp add: Let_def)

lemma deliver_evicts:
  assumes "p1 = slot_check s (sync os p)" "p2 = sync os p1" "cap = ucast (queue_capacity (lay p1))"
    "\<not> data_head (slot p1 s) - data_tail (slot p2 s) < cap" "overflow (slot p1 s) = DropOldest"
    "evict os s cap (data_tail (slot p2 s)) rep p2 = (rep', p3)" "p4 = sync os p3"
    "data_head (slot p1 s) - data_tail (slot p4 s) < cap"
  shows "deliver os c s (rep, p) =
    Some (rep'\<lparr>rep_delivered := rep_delivered rep' + 1\<rparr>, enqueue os s cap (data_head (slot p1 s)) c p4)"
proof -
  have "deliver_loop os s DropOldest cap (data_head (slot p1 s)) 0 rep' p3 = Some (True, 0, rep', p4)"
    using assms(7,8) by (subst deliver_loop.simps) (simp add: Let_def)
  then have "deliver_loop os s DropOldest cap (data_head (slot p1 s)) 0 rep p1 = Some (True, 0, rep', p4)"
    using assms(2,4,6) by (subst deliver_loop.simps) (simp add: Let_def overflow_consts)
  then show ?thesis using assms(1-3,5) by (subst deliver_def) (simp add: Let_def)
qed

text \<open>
  A system in which only time passes while the publisher delivers: a clock that never stands still
  between two accesses, and no subscriber that runs.
\<close>

definition only_time :: "'e os \<Rightarrow> ('e \<Rightarrow> 'e) \<Rightarrow> bool" where
  "only_time os f \<longleftrightarrow> (\<forall>w. interfere os w = w\<lparr>env := f (env w)\<rparr>) \<and>
     (\<forall>s k t w. futex_sleep os s k t w = w\<lparr>env := f (env w)\<rparr>) \<and> (\<forall>s w. futex_wake os s w = w) \<and>
     (\<forall>e. 0 < monotonic_ns os e \<and> monotonic_ns os e < monotonic_ns os (f e))"

lemma only_time_peers: "only_time os f \<Longrightarrow> bus_peers os"
  by unfold_locales (simp_all add: only_time_def keeps_control_def)

lemma only_time_sync:
  assumes "only_time os f"
  shows "slot (sync os p) s = slot p s" "hdr (shm (sync os p)) = hdr (shm p)" "priv (sync os p) = priv p"
    "length (slots (shm (sync os p))) = length (slots (shm p))" "env (shm (sync os p)) = f (env (shm p))"
  using assms by (simp_all add: only_time_def sync_def slot_def)

lemma only_time_wake:
  assumes "only_time os f" "s < length (slots (shm p))"
  shows "slot (wake_subscriber os s p) s = (slot p s)\<lparr>futex_word := futex_word (slot p s) + 1\<rparr>"
proof -
  have "wake_subscriber os s p = upd_slot s (\<lambda>sl. sl\<lparr>futex_word := futex_word sl + 1\<rparr>) p"
    using assms(1) by (simp add: wake_subscriber_def only_time_def Let_def)
  then show ?thesis using assms(2) by (simp add: slot_upd_slot)
qed

lemma data_queue_push:
  assumes "pow2_layout l" "length (rings sl) = unat (queue_capacity l) + unat (completion_capacity l)"
    "unat (data_head sl - data_tail sl) < unat (queue_capacity l)"
    "rings sl' = (rings sl)[unat (data_head sl AND ucast (queue_capacity l) - 1) := c]"
    "data_head sl' = data_head sl + 1" "data_tail sl' = data_tail sl"
  shows "data_queue l sl' = data_queue l sl @ [c]"
proof -
  obtain j where j: "queue_capacity l = 2 ^ j" "j < 32" using assms(1) by (auto simp: pow2_layout_def)
  let ?q = "unat (queue_capacity l)" and ?buf = "take (unat (queue_capacity l)) (rings sl)"
  have len: "length ?buf = ?q" "?q = 2 ^ j" using assms(2) j by simp_all
  have "take ?q (rings sl') = ?buf[unat (data_head sl) mod ?q := c]"
    by (simp add: assms(4) unat_and_pow2 [OF j] take_update_swap)
  then show ?thesis
    using ring_push [of ?buf j "data_head sl" "data_tail sl" c] len j(2) assms(3,5,6)
    by (simp add: data_queue_def)
qed

lemma data_queue_pop:
  assumes "pow2_layout l" "length (rings sl) = unat (queue_capacity l) + unat (completion_capacity l)"
    "data_head sl \<noteq> data_tail sl"
  shows "data_queue l sl = rings sl ! unat (data_tail sl AND ucast (queue_capacity l) - 1) #
    data_queue l (sl\<lparr>data_tail := data_tail sl + 1\<rparr>)"
proof -
  obtain j where j: "queue_capacity l = 2 ^ j" "j < 32" using assms(1) by (auto simp: pow2_layout_def)
  let ?q = "unat (queue_capacity l)" and ?buf = "take (unat (queue_capacity l)) (rings sl)"
  have len: "length ?buf = ?q" "?q = 2 ^ j" "0 < ?q" using assms(2) j by simp_all
  have "?buf ! (unat (data_tail sl) mod ?q) = rings sl ! unat (data_tail sl AND ucast (queue_capacity l) - 1)"
    using len(3) by (simp add: unat_and_pow2 [OF j])
  then show ?thesis
    using ring_pop [of ?buf j "data_head sl" "data_tail sl"] len j(2) assms(3) by (simp add: data_queue_def)
qed

lemma data_queue_cong:
  "rings sl' = rings sl \<Longrightarrow> data_head sl' = data_head sl \<Longrightarrow> data_tail sl' = data_tail sl \<Longrightarrow>
   data_queue l sl' = data_queue l sl"
  by (simp add: data_queue_def)

lemma enqueue_alone:
  assumes "only_time os f" "good l m ml L p" "s < m" "pow2_layout l"
    "unat (data_head (slot p s) - data_tail (slot p s)) < unat (queue_capacity l)"
  shows "data_queue l (slot (enqueue os s (ucast (queue_capacity l)) (data_head (slot p s)) c p) s) =
    data_queue l (slot p s) @ [c]"
proof -
  let ?cap = "ucast (queue_capacity l) :: u64"
  let ?i = "unat (data_head (slot p s) AND ?cap - 1)"
  have len: "s < length (slots (shm p))" using goodD(4) [OF assms(2)] assms(3) by simp
  have "?i < unat (queue_capacity l) + unat (completion_capacity l)"
    using and_mask_less [of ?cap "data_head (slot p s)"] goodD(8) [OF assms(2)] by simp
  then have rc: "ring_check s ?i p = p" by (rule ring_check_good [OF assms(2,3)])
  let ?sl = "slot (enqueue os s ?cap (data_head (slot p s)) c p) s"
  have "rings ?sl = (rings (slot p s))[?i := c] \<and> data_head ?sl = data_head (slot p s) + 1 \<and>
      data_tail ?sl = data_tail (slot p s)"
    using len by (simp add: enqueue_def Let_def rc slot_upd_slot only_time_sync [OF assms(1)]
        only_time_wake [OF assms(1)])
  then show ?thesis
    using data_queue_push [OF assms(4) goodD(5) [OF assms(2,3)] assms(5)] by simp
qed

lemma evict_alone:
  assumes "only_time os f" "good l m ml L p" "s < m" "idle_at (unat (chunk_count l)) L s (priv p)"
    "evict os s (ucast (queue_capacity l)) (data_tail (slot p s)) rep p = (rep', p')"
  shows "rep' = rep\<lparr>rep_evicted := rep_evicted rep + 1\<rparr>"
    "slot p' s = (slot p s)\<lparr>data_tail := data_tail (slot p s) + 1, dropped_oldest := dropped_oldest (slot p s) + 1\<rparr>"
    "good l m ml L p'"
proof -
  have len: "s < length (slots (shm p))" using goodD(4) [OF assms(2)] assms(3) by simp
  have rc: "slot (ring_check s i q) s = slot q s" "shm (ring_check s i q) = shm q" for i and q :: "'a publisher"
    by (simp_all add: ring_check_def go_wild_def upd_priv_def slot_def)
  have "data_tail (slot (sync os (ring_check s i (sync os p))) s) = data_tail (slot p s)" for i
    by (simp add: only_time_sync [OF assms(1)] rc)
  then show "rep' = rep\<lparr>rep_evicted := rep_evicted rep + 1\<rparr>"
    "slot p' s = (slot p s)\<lparr>data_tail := data_tail (slot p s) + 1, dropped_oldest := dropped_oldest (slot p s) + 1\<rparr>"
    using assms(5) len by (auto simp: evict_def Let_def slot_upd_slot only_time_sync [OF assms(1)] rc)
  show "good l m ml L p'"
    using bus_peers.calm_evict [OF only_time_peers [OF assms(1)] assms(2-4) refl assms(5)] by (rule calmD(1))
qed

text \<open>The block policy gives up when its time is over, and leaves the queue as it found it.\<close>

definition waits :: "subscriber_slot \<Rightarrow> subscriber_slot \<Rightarrow> bool" where
  "waits sl sl' \<longleftrightarrow> data_head sl' = data_head sl \<and> data_tail sl' = data_tail sl \<and> rings sl' = rings sl \<and>
     block_timeout_us sl' = block_timeout_us sl"

lemma block_turn_alone:
  assumes "only_time os f" "s < length (slots (shm p))" "\<not> head - data_tail (slot p s) < cap"
    "block_turn os s cap head start p = (wait, start', p')"
  shows "waits (slot p s) (slot p' s)" "hdr (shm p') = hdr (shm p)" "s < length (slots (shm p'))"
    "start' = (if start = 0 then monotonic_ns os (env (shm p)) else start)"
    "wait \<Longrightarrow> monotonic_ns os (env (shm p)) - start' \<le> int (unat (block_timeout_us (slot p s))) * 1000"
    "wait \<Longrightarrow> monotonic_ns os (env (shm p)) < monotonic_ns os (env (shm p'))"
proof -
  have fs: "futex_sleep os s' k t w = w\<lparr>env := f (env w)\<rparr>" for s' k t w using assms(1) by (simp add: only_time_def)
  have mono: "monotonic_ns os e < monotonic_ns os (f e)" for e using assms(1) by (simp add: only_time_def)
  have mono2: "monotonic_ns os e < monotonic_ns os (f (f e))" "monotonic_ns os e < monotonic_ns os (f (f (f e)))"
      "monotonic_ns os e < monotonic_ns os (f (f (f (f e))))" "monotonic_ns os e < monotonic_ns os (f (f (f (f (f e)))))" for e
    using mono by (meson less_trans)+
  note st = only_time_sync [OF assms(1)] slot_upd_slot fs
  have sl: "slot (q\<lparr>shm := (shm q)\<lparr>env := x\<rparr>\<rparr>) s = slot q s" for q :: "'a publisher" and x by (simp add: slot_def)
  show "waits (slot p s) (slot p' s)" "hdr (shm p') = hdr (shm p)" "s < length (slots (shm p'))"
    "start' = (if start = 0 then monotonic_ns os (env (shm p)) else start)"
    using assms(2-4) by (auto simp: block_turn_def Let_def st sl waits_def split: if_splits)
  show "monotonic_ns os (env (shm p)) - start' \<le> int (unat (block_timeout_us (slot p s))) * 1000" if wait
    using assms(2-4) that by (auto simp: block_turn_def Let_def split: if_splits)
  show "monotonic_ns os (env (shm p)) < monotonic_ns os (env (shm p'))" if wait
    using assms(2-4) that by (auto simp: block_turn_def Let_def st sl mono mono2 split: if_splits)
qed

lemma waits_trans: "waits a b \<Longrightarrow> waits b c \<Longrightarrow> waits a c"
  by (simp add: waits_def)

lemma block_loop_turn:
  assumes "only_time os f" "s < length (slots (shm p))" "\<not> head - data_tail (slot p s) < cap"
    "block_turn os s cap head start (sync os p) = (wait, start', q)"
  shows "deliver_loop os s Block cap head start rep p =
    (if wait then deliver_loop os s Block cap head start' rep q
     else Some (False, start', rep\<lparr>rep_block_timeouts := rep_block_timeouts rep + 1\<rparr>, q))"
  using assms by (subst deliver_loop.simps) (simp add: Let_def only_time_sync overflow_consts)

lemma block_loop_ends:
  assumes "only_time os f" "s < length (slots (shm p))" "\<not> head - data_tail (slot p s) < cap" "start \<noteq> 0"
  shows "\<exists>start' p'. deliver_loop os s Block cap head start rep p =
      Some (False, start', rep\<lparr>rep_block_timeouts := rep_block_timeouts rep + 1\<rparr>, p') \<and> waits (slot p s) (slot p' s)"
  using assms
proof (induction "nat (int (unat (block_timeout_us (slot p s))) * 1000 + start - monotonic_ns os (env (shm p)))"
    arbitrary: p rule: less_induct)
  case less
  let ?p1 = "sync os p"
  note st = only_time_sync [OF assms(1)]
  obtain wait start' q where bt: "block_turn os s cap head start ?p1 = (wait, start', q)"
    by (cases "block_turn os s cap head start ?p1") auto
  have len1: "s < length (slots (shm ?p1))" "\<not> head - data_tail (slot ?p1 s) < cap"
    using less.prems by (simp_all add: st)
  note b = block_turn_alone [OF assms(1) len1 bt]
  have eq: "start' = start" using b(4) less.prems(4) by simp
  have w: "waits (slot p s) (slot q s)" using b(1) by (simp add: st)
  show ?case
  proof (cases wait)
    case True
    have "monotonic_ns os (env (shm p)) < monotonic_ns os (env (shm ?p1))"
      using assms(1) by (simp add: st only_time_def)
    moreover have "monotonic_ns os (env (shm ?p1)) \<le> int (unat (block_timeout_us (slot p s))) * 1000 + start"
      using b(5) True by (simp add: eq st)
    ultimately have "nat (int (unat (block_timeout_us (slot q s))) * 1000 + start - monotonic_ns os (env (shm q))) <
        nat (int (unat (block_timeout_us (slot p s))) * 1000 + start - monotonic_ns os (env (shm p)))"
      using b(6) True w by (simp add: waits_def)
    moreover have "s < length (slots (shm q))" "\<not> head - data_tail (slot q s) < cap"
      using b(3) w less.prems(3) by (simp_all add: waits_def)
    ultimately obtain start'' p' where
      "deliver_loop os s Block cap head start rep q =
        Some (False, start'', rep\<lparr>rep_block_timeouts := rep_block_timeouts rep + 1\<rparr>, p')" "waits (slot q s) (slot p' s)"
      using less.hyps [OF _ assms(1)] less.prems(4) by blast
    then show ?thesis
      using block_loop_turn [OF assms(1) less.prems(2,3) bt, of rep] waits_trans [OF w] True eq by auto
  next
    case False
    then show ?thesis using block_loop_turn [OF assms(1) less.prems(2,3) bt, of rep] w by auto
  qed
qed

lemma block_gives_up:
  assumes "only_time os f" "s < length (slots (shm p))" "\<not> head - data_tail (slot p s) < cap"
  shows "\<exists>start' p'. deliver_loop os s Block cap head 0 rep p =
      Some (False, start', rep\<lparr>rep_block_timeouts := rep_block_timeouts rep + 1\<rparr>, p') \<and> waits (slot p s) (slot p' s)"
proof -
  let ?p1 = "sync os p"
  note st = only_time_sync [OF assms(1)]
  obtain wait start' q where bt: "block_turn os s cap head 0 ?p1 = (wait, start', q)"
    by (cases "block_turn os s cap head 0 ?p1") auto
  have len1: "s < length (slots (shm ?p1))" "\<not> head - data_tail (slot ?p1 s) < cap"
    using assms(2,3) by (simp_all add: st)
  note b = block_turn_alone [OF assms(1) len1 bt]
  have w: "waits (slot p s) (slot q s)" using b(1) by (simp add: st)
  have "0 < monotonic_ns os e" for e using assms(1) by (simp add: only_time_def)
  then have "start' \<noteq> 0" using b(4) by (simp add: less_imp_neq [symmetric])
  then have "\<exists>start'' p'. deliver_loop os s Block cap head start' rep q =
      Some (False, start'', rep\<lparr>rep_block_timeouts := rep_block_timeouts rep + 1\<rparr>, p') \<and> waits (slot q s) (slot p' s)"
    using w assms(3) b(3) by (intro block_loop_ends [OF assms(1)]) (simp_all add: waits_def)
  then show ?thesis
    using block_loop_turn [OF assms bt, of rep] w waits_trans [OF w] by (cases wait) auto
qed

lemma deliver_full_oldest:
  assumes ot: "only_time os f" and g: "good l m ml L p" and s: "s < m"
    and i: "idle_at (unat (chunk_count l)) L s (priv p)" and l: "pow2_layout l"
    and oldest: "length (data_queue l (slot p s)) = unat (queue_capacity l)" "overflow (slot p s) = DropOldest"
  shows "\<exists>p'. deliver os c s (rep, p) =
      Some (rep\<lparr>rep_evicted := rep_evicted rep + 1, rep_delivered := rep_delivered rep + 1\<rparr>, p') \<and>
    data_queue l (slot p' s) = tl (data_queue l (slot p s)) @ [c]"
proof -
  let ?q = "data_queue l (slot p s)" and ?cap = "ucast (queue_capacity l) :: u64"
  let ?p1 = "sync os p" and ?h = "data_head (slot p s)" and ?t = "data_tail (slot p s)"
  note peers = only_time_peers [OF ot] and st = only_time_sync [OF ot]
  note g1 = bus_peers.good_sync [OF peers g]
  note g2 = bus_peers.good_sync [OF peers g1]
  have sc: "?p1 = slot_check s ?p1" using slot_check_good [OF g1 s] by simp
  have lay: "?cap = ucast (queue_capacity (lay ?p1))" using goodD(1) [OF g1] by simp
  have lq: "length ?q = unat (?h - ?t)" by (simp add: data_queue_def)
  obtain rep' p3 where ev: "evict os s ?cap ?t rep (sync os ?p1) = (rep', p3)"
    by (cases "evict os s ?cap ?t rep (sync os ?p1)")
  have i2: "idle_at (unat (chunk_count l)) L s (priv (sync os ?p1))" using i by (simp add: st)
  have ev': "evict os s ?cap (data_tail (slot (sync os ?p1) s)) rep (sync os ?p1) = (rep', p3)"
    using ev by (simp add: st)
  note e = evict_alone [OF ot g2 s i2 ev']
  have ne: "?h \<noteq> ?t" using oldest(1) lq goodD(8) [OF g] by auto
  then have less: "unat (?h - (?t + 1)) < unat (queue_capacity l)"
    using unat_diff_succ [OF ne] oldest(1) lq by simp
  have d: "deliver os c s (rep, p) = Some (rep'\<lparr>rep_delivered := rep_delivered rep' + 1\<rparr>,
      enqueue os s ?cap ?h c (sync os p3))"
    using deliver_evicts [OF sc refl lay, where rep = rep and c = c, OF _ _ ev' refl] oldest lq less
    by (simp add: st e(2) word_less_nat_alt)
  have "data_queue l (slot (sync os p3) s) = tl ?q"
    using data_queue_pop [OF l goodD(5) [OF g s] ne] e(2) by (simp add: st data_queue_def)
  then have "data_queue l (slot (enqueue os s ?cap ?h c (sync os p3)) s) = tl ?q @ [c]"
    using enqueue_alone [OF ot bus_peers.good_sync [OF peers e(3)] s l, of c] less by (simp add: st e(2))
  then show ?thesis using d e(1) by simp
qed

end
