(* ===== verification/Devbus_Runs.thy ===== *)
theory Devbus_Runs
  imports Devbus_Delivery
begin

text \<open>
  Runs of a publisher from its creation, and the theorem that its bookkeeping is consistent in every
  run. Two scenarios show that what the theorem asks of the other processes is needed.
\<close>

section \<open>Runs of a publisher\<close>

text \<open>
  Everything a publisher's user can do after creation, in any order, with the set of chunks the user
  holds on loan. The other processes act within every call and also in between.
\<close>

inductive pub_run :: "'e os \<Rightarrow> 'e publisher \<Rightarrow> u32 set \<Rightarrow> 'e publisher \<Rightarrow> bool" for os p0 where
  start: "pub_run os p0 {} p0"
| loan_ok: "pub_run os p0 L p \<Longrightarrow> loan os p = (Inr c, p') \<Longrightarrow> pub_run os p0 (insert c L) p'"
| loan_fails: "pub_run os p0 L p \<Longrightarrow> loan os p = (Inl err, p') \<Longrightarrow> pub_run os p0 L p'"
| drop_loan: "pub_run os p0 L p \<Longrightarrow> c \<in> L \<Longrightarrow> pub_run os p0 (L - {c}) (release_loan c p)"
| sent: "pub_run os p0 L p \<Longrightarrow> c \<in> L \<Longrightarrow> send os c p = Some (rep, p') \<Longrightarrow> pub_run os p0 (L - {c}) p'"
| checked: "pub_run os p0 L p \<Longrightarrow> pub_run os p0 L (snd (check_liveness os p))"
| others: "pub_run os p0 L p \<Longrightarrow> pub_run os p0 L (sync os p)"

abbreviation cfg_ok :: "type_info \<Rightarrow> service_config \<Rightarrow> layout \<Rightarrow> bool" where
  "cfg_ok type cfg l \<equiv> layout_ok (cfg_max_subscribers cfg) (cfg_queue_capacity cfg) (cfg_max_borrowed cfg)
     (cfg_max_loans cfg) (ti_size type) (ti_align type) l"

lemma unat_of_nat_16:
  assumes "i < 2 ^ 16"
  shows "unat (of_nat i :: u32) = i"
proof -
  have "i < 2 ^ 32" using assms by simp
  then have "take_bit 32 i = i" by (rule take_bit_nat_eq_self)
  then show ?thesis by (simp add: unsigned_of_nat)
qed

lemma new_bookkeeping_book:
  assumes "m < 2 ^ 16" "unat (chunk_count l) < 2 ^ 16" "m = unat (cfg_max_subscribers cfg)"
  shows "book m (unat (chunk_count l)) {} (new_bookkeeping cfg l)"
proof -
  let ?n = "unat (chunk_count l)" and ?b = "new_bookkeeping cfg l"
  have o: "out ?n ?b s c = 0" if "s < m" "c < ?n" for s c
    using pair_index_less [OF that] by (simp add: out_def new_bookkeeping_def Let_def assms(3))
  have r: "refs ?b c = 0" if "c < ?n" for c using that by (simp add: refs_def new_bookkeeping_def Let_def)
  have fl: "free_list ?b = map of_nat [0..<?n]" by (simp add: new_bookkeeping_def Let_def)
  have un: "unat (of_nat i :: u32) = i" if "i < ?n" for i
    using that assms(2) by (intro unat_of_nat_16) simp
  have "distinct (map (of_nat :: nat \<Rightarrow> u32) [0..<?n])"
    by (auto simp: distinct_map intro!: inj_on_inverseI [where g = unat] un)
  moreover have "c \<in> set (map of_nat [0..<?n])" if "unat c < ?n" for c :: u32
  proof -
    have "c = of_nat (unat c)" by simp
    then show ?thesis using that by (metis image_eqI atLeastLessThan_iff le0 list.set_map set_upt)
  qed
  ultimately have "owned ?n {} ?b" using un r by (auto simp: owned_def fl)
  moreover have "counted m ?n ?b" using o r by (simp add: counted_def)
  moreover have "shape m ?n ?b" using assms by (simp add: shape_def new_bookkeeping_def Let_def)
  ultimately show ?thesis by (simp add: book_def)
qed

lemma new_publisher_inv:
  assumes "cfg_ok type cfg l"
  shows "pub_inv l (unat (cfg_max_subscribers cfg)) (cfg_max_loans cfg) {} (new_publisher type cfg l pid e)"
proof -
  note b = layout_ok_bounds [OF assms]
  have "0 < unat (completion_capacity l)"
  proof -
    have "compute_layout (cfg_max_subscribers cfg) (cfg_queue_capacity cfg) (cfg_max_borrowed cfg)
        (cfg_max_loans cfg) (ti_size type) (ti_align type) = Some l"
      using assms by (simp add: layout_ok_def)
    then obtain k where "completion_capacity l = 2 ^ k" "k < 32"
      using compute_layout_capacities by blast
    then show ?thesis by simp
  qed
  then have "control l (unat (cfg_max_subscribers cfg)) (cfg_max_loans cfg) (new_publisher type cfg l pid e)"
    using b(3) by (simp add: control_def new_publisher_def new_header_def slot_def new_slot_def
        new_bookkeeping_def Let_def)
  moreover have "book (unat (cfg_max_subscribers cfg)) (unat (chunk_count l)) {} (new_bookkeeping cfg l)"
    using b(1,4) by (intro new_bookkeeping_book) simp_all
  ultimately show ?thesis
    by (simp add: pub_inv_def good_def idle_def idle_at_def listed_def new_publisher_def)
      (simp add: new_bookkeeping_def Let_def)
qed

lemma pub_run_inv:
  assumes "bus_peers os" "pub_run os p0 L p" "pub_inv l m ml {} p0"
  shows "finite L \<and> pub_inv l m ml L p"
  using assms(2)
proof induction
  case (loan_ok L p c p')
  then show ?case using bus_peers.pub_inv_loan [OF assms(1), of l m ml L p "Inr c" p'] by auto
next
  case (loan_fails L p err p')
  then show ?case using bus_peers.pub_inv_loan [OF assms(1), of l m ml L p "Inl err" p'] by auto
next
  case (drop_loan L p c)
  then show ?case using bus_peers.pub_inv_release_loan [OF assms(1)] by auto
next
  case (sent L p c rep p')
  then show ?case using bus_peers.pub_inv_send [OF assms(1)] by auto
next
  case (checked L p)
  then show ?case using bus_peers.pub_inv_check_liveness [OF assms(1)] by auto
next
  case (others L p)
  then show ?case using bus_peers.pub_inv_sync [OF assms(1)] by auto
qed (use assms(3) in simp)

lemma pub_inv_idle_refs:
  assumes "pub_inv l m ml L p" "c \<in> L"
  shows "refs (priv p) (unat c) = 0" "unat c < unat (chunk_count l)"
proof -
  have bk: "book m (unat (chunk_count l)) L (priv p)" using assms(1) goodD(7) by (auto simp: pub_inv_def)
  then show "unat c < unat (chunk_count l)" using assms(2) by (simp add: book_def owned_def)
  then show "refs (priv p) (unat c) = 0"
    using bk assms by (simp add: book_def counted_def pub_inv_def idle_def idle_at_def)
qed

text \<open>C37. The publisher's bookkeeping survives whatever the subscribers write into rings, indices and
  counters, as long as they leave the configuration alone and keep the policy of an activated slot:
  after any sequence of loans, returned loans, sends and liveness checks no vector was accessed out of
  bounds, the reference count of every chunk is the number of references handed out, each chunk is
  free, on loan or referenced but never two of these, and a new loan is a chunk nobody references.\<close>

theorem publisher_bookkeeping:
  fixes l cfg
  defines "n \<equiv> unat (chunk_count l)" and "m \<equiv> unat (cfg_max_subscribers cfg)"
  assumes peers: "bus_peers os" and cfg: "cfg_ok type cfg l"
    and run: "pub_run os (new_publisher type cfg l pid e) L p"
  shows "\<not> wild (priv p) \<and>
    (\<forall>c < n. refs (priv p) c = (\<Sum>s < m. out n (priv p) s c)) \<and>
    distinct (free_list (priv p)) \<and> unat (loans_out (priv p)) = card L \<and>
    (\<forall>c. unat c < n \<longrightarrow> (c \<in> set (free_list (priv p)) \<or> c \<in> L \<or> 0 < refs (priv p) (unat c)) \<and>
       \<not> (c \<in> set (free_list (priv p)) \<and> (c \<in> L \<or> 0 < refs (priv p) (unat c))) \<and>
       \<not> (c \<in> L \<and> 0 < refs (priv p) (unat c))) \<and>
    (\<forall>c p'. loan os p = (Inr c, p') \<longrightarrow> unat c < n \<and> c \<notin> L \<and> refs (priv p') (unat c) = 0 \<and>
       c \<notin> set (free_list (priv p')))"
proof -
  have inv: "finite L" "pub_inv l m (cfg_max_loans cfg) L p"
    using pub_run_inv [OF peers run new_publisher_inv [OF cfg]] by (simp_all add: m_def)
  have bk: "book m n L (priv p)" using inv(2) goodD(7) by (auto simp: pub_inv_def n_def)
  have loan: "unat c < n \<and> c \<notin> L \<and> refs (priv p') (unat c) = 0 \<and> c \<notin> set (free_list (priv p'))"
    if "loan os p = (Inr c, p')" for c p'
  proof -
    have c: "c \<notin> L" "pub_inv l m (cfg_max_loans cfg) (insert c L) p'"
      using bus_peers.pub_inv_loan [OF peers inv(2) that inv(1)] by auto
    then have "book m n (insert c L) (priv p')" using goodD(7) by (auto simp: pub_inv_def n_def)
    then show ?thesis using c pub_inv_idle_refs [OF c(2), of c] by (auto simp: book_def owned_def n_def)
  qed
  have z: "refs (priv p) (unat c) = 0" if "c \<in> L" for c using pub_inv_idle_refs(1) [OF inv(2) that] .
  have own: "owned n L (priv p)" and cnt: "counted m n (priv p)" and sh: "shape m n (priv p)"
    using bk by (simp_all add: book_def)
  show ?thesis
  proof (intro conjI allI impI)
    fix c :: u32 assume c: "unat c < n"
    show "c \<in> set (free_list (priv p)) \<or> c \<in> L \<or> 0 < refs (priv p) (unat c)"
      using own c by (simp add: owned_def)
    show "\<not> (c \<in> set (free_list (priv p)) \<and> (c \<in> L \<or> 0 < refs (priv p) (unat c)))"
      using own by (auto simp: owned_def)
    show "\<not> (c \<in> L \<and> 0 < refs (priv p) (unat c))" using z by auto
  qed (use own cnt sh inv(2) loan in \<open>simp_all add: owned_def counted_def shape_def pub_inv_def\<close>)
qed

section \<open>A small service\<close>

definition small_cfg :: service_config where
  "small_cfg = \<lparr>cfg_max_subscribers = 1, cfg_queue_capacity = 1, cfg_max_borrowed = 1, cfg_max_loans = 1,
     cfg_liveness_check_every = 0\<rparr>"

definition small_type :: type_info where
  "small_type = \<lparr>ti_hash = 0, ti_size = 8, ti_align = 8\<rparr>"

definition small_layout :: layout where
  "small_layout = \<lparr>queue_capacity = 1, completion_capacity = 4, chunk_count = 3, chunk_stride = 64,
     slot_stride = 576, slots_offset = 192, chunk_headers_offset = 0, payloads_offset = 64,
     total_size = 4096, data_size = 4096\<rparr>"

lemma small_layout_ok: "cfg_ok small_type small_cfg small_layout"
proof -
  have "compute_layout 1 1 1 1 8 8 = Some small_layout"
    unfolding compute_layout_def next_pow2_def Let_def small_layout_def
    by (simp add: next_pow2_step [of 1] next_pow2_step [of 3] round_up_def payload_align_def
        sizeof_SegmentHeader_def sizeof_SubscriberSlot_def sizeof_ChunkHeader_def kCacheLine_def)
  then show ?thesis
    by (simp add: layout_ok_def small_cfg_def small_type_def type_ok_def budget_fits_def small_layout_def)
qed

abbreviation small_bus :: "'e \<Rightarrow> 'e publisher" where
  "small_bus \<equiv> new_publisher small_type small_cfg small_layout 100"

text \<open>An environment in which no other process touches the segment.\<close>

definition quiet_os :: "'e os" where
  "quiet_os = \<lparr>interfere = (\<lambda>w. w), futex_sleep = (\<lambda>s k t w. w), futex_wake = (\<lambda>s w. w), sys_pidfd_open = (\<lambda>e pid. 3),
     sys_no_process = (\<lambda>e pid. False), sys_poll_quiet = (\<lambda>e fd. True), monotonic_ns = (\<lambda>e. 0)\<rparr>"

lemma quiet_peers: "bus_peers quiet_os"
  by unfold_locales (simp_all add: quiet_os_def keeps_control_def)

lemmas small_defs = new_publisher_def new_header_def new_slot_def new_bookkeeping_def small_cfg_def
  small_type_def small_layout_def

theorem publisher_bookkeeping_witness:
  "\<exists>p. pub_run quiet_os (small_bus ()) {0} p \<and> unat (loans_out (priv p)) = 1 \<and> refs (priv p) 0 = 0"
proof -
  define p where "p = snd (loan quiet_os (small_bus ()))"
  have "loan quiet_os (small_bus ()) = (Inr 0, p)"
    by (simp add: p_def loan_def small_defs Let_def upt_rec)
  then have run: "pub_run quiet_os (small_bus ()) {0} p" by (rule pub_run.loan_ok [OF pub_run.start])
  show ?thesis
    using publisher_bookkeeping [OF quiet_peers small_layout_ok run] run
    by (intro exI [of _ p]) (auto simp: small_layout_def dest!: spec [of _ "0 :: u32"])
qed

section \<open>Delivery policies\<close>

text \<open>C38. One delivery under each overflow policy, while only time passes: with room in the queue the chunk
  is appended; a full queue loses its oldest entry under drop-oldest, refuses the new chunk under
  drop-newest, and under block the publisher waits, gives up after the slot's timeout and leaves the
  queue as it was. The delivery always returns and its report counts what happened.\<close>

theorem deliver_policies:
  assumes ot: "only_time os f" and g: "good l m ml L p" and s: "s < m"
    and i: "idle_at (unat (chunk_count l)) L s (priv p)" and l: "pow2_layout l"
    and q: "length (data_queue l (slot p s)) \<le> unat (queue_capacity l)"
    and ov: "overflow (slot p s) \<in> {DropOldest, DropNewest, Block}"
  shows "\<exists>rep' p'. deliver os c s (rep, p) = Some (rep', p') \<and>
    (if length (data_queue l (slot p s)) < unat (queue_capacity l)
     then rep' = rep\<lparr>rep_delivered := rep_delivered rep + 1\<rparr> \<and>
          data_queue l (slot p' s) = data_queue l (slot p s) @ [c]
     else if overflow (slot p s) = DropOldest
     then rep' = rep\<lparr>rep_evicted := rep_evicted rep + 1, rep_delivered := rep_delivered rep + 1\<rparr> \<and>
          data_queue l (slot p' s) = tl (data_queue l (slot p s)) @ [c]
     else rep' = (if overflow (slot p s) = DropNewest then rep\<lparr>rep_rejected := rep_rejected rep + 1\<rparr>
                  else rep\<lparr>rep_block_timeouts := rep_block_timeouts rep + 1\<rparr>) \<and>
          data_queue l (slot p' s) = data_queue l (slot p s))"
proof -
  let ?q = "data_queue l (slot p s)" and ?cap = "ucast (queue_capacity l) :: u64"
  let ?p1 = "sync os p" and ?h = "data_head (slot p s)" and ?t = "data_tail (slot p s)"
  note peers = only_time_peers [OF ot] and st = only_time_sync [OF ot]
  note g1 = bus_peers.good_sync [OF peers g]
  note g2 = bus_peers.good_sync [OF peers g1]
  have sc: "?p1 = slot_check s ?p1" using slot_check_good [OF g1 s] by simp
  have lay: "?cap = ucast (queue_capacity (lay ?p1))" using goodD(1) [OF g1] by simp
  have len: "s < length (slots (shm ?p1))" using goodD(4) [OF g1] s by simp
  have room: "?h - t < ?cap \<longleftrightarrow> unat (?h - t) < unat (queue_capacity l)" for t by (simp add: word_less_nat_alt)
  have lq: "length ?q = unat (?h - ?t)" by (simp add: data_queue_def)
  consider (room) "length ?q < unat (queue_capacity l)"
    | (oldest) "length ?q = unat (queue_capacity l)" "overflow (slot p s) = DropOldest"
    | (newest) "length ?q = unat (queue_capacity l)" "overflow (slot p s) = DropNewest"
    | (block) "length ?q = unat (queue_capacity l)" "overflow (slot p s) = Block"
    using q ov by fastforce
  then show ?thesis
  proof cases
    case room
    have "deliver os c s (rep, p) = Some (rep\<lparr>rep_delivered := rep_delivered rep + 1\<rparr>,
        enqueue os s ?cap ?h c (sync os ?p1))"
      using deliver_room [OF sc refl lay] room lq by (simp add: st word_less_nat_alt)
    moreover have "data_queue l (slot (enqueue os s ?cap ?h c (sync os ?p1)) s) = ?q @ [c]"
      using enqueue_alone [OF ot g2 s l, of c] room lq by (simp add: st)
    ultimately show ?thesis using room by simp
  next
    case oldest
    then show ?thesis using deliver_full_oldest [OF ot g s i l, of c rep] by auto
  next
    case newest
    have "deliver_loop os s DropNewest ?cap ?h 0 rep ?p1 = Some (False, 0,
        rep\<lparr>rep_rejected := rep_rejected rep + 1\<rparr>,
        upd_slot s (\<lambda>sl. sl\<lparr>dropped_newest := dropped_newest sl + 1\<rparr>) (sync os ?p1))"
      using newest lq by (subst deliver_loop.simps) (simp add: Let_def st word_less_nat_alt)
    moreover have "data_queue l (slot (upd_slot s (\<lambda>sl. sl\<lparr>dropped_newest := dropped_newest sl + 1\<rparr>) (sync os ?p1)) s) = ?q"
      using len by (simp add: slot_upd_slot st data_queue_def)
    ultimately show ?thesis using newest sc lay
      by (simp add: deliver_def Let_def st overflow_consts)
  next
    case block
    have "\<not> ?h - data_tail (slot ?p1 s) < ?cap" using block lq by (simp add: st word_less_nat_alt)
    from block_gives_up [OF ot len this, of rep] obtain start' p' where
      b: "deliver_loop os s Block ?cap ?h 0 rep ?p1 =
        Some (False, start', rep\<lparr>rep_block_timeouts := rep_block_timeouts rep + 1\<rparr>, p')" "waits (slot ?p1 s) (slot p' s)"
      by blast
    have "data_queue l (slot p' s) = ?q" using b(2) by (intro data_queue_cong) (simp_all add: waits_def st)
    then show ?thesis using b(1) block sc lay by (simp add: deliver_def Let_def st overflow_consts)
  qed
qed

text \<open>A clock that advances at every access, and the small service with nobody subscribed yet.\<close>

definition ticking_os :: "nat os" where
  "ticking_os = \<lparr>interfere = (\<lambda>w. w\<lparr>env := Suc (env w)\<rparr>), futex_sleep = (\<lambda>s k t w. w\<lparr>env := Suc (env w)\<rparr>),
     futex_wake = (\<lambda>s w. w), sys_pidfd_open = (\<lambda>e pid. 3), sys_no_process = (\<lambda>e pid. False),
     sys_poll_quiet = (\<lambda>e fd. True), monotonic_ns = (\<lambda>e. int e + 1)\<rparr>"

theorem deliver_policies_witness:
  "\<exists>rep p. deliver ticking_os 0 0
     (\<lparr>rep_seq = 1, rep_delivered = 0, rep_evicted = 0, rep_rejected = 0, rep_block_timeouts = 0\<rparr>, small_bus 0) =
     Some (rep, p) \<and> rep_delivered rep = 1 \<and> data_queue small_layout (slot p 0) = [0]"
proof -
  have ot: "only_time ticking_os Suc" by (simp add: only_time_def ticking_os_def)
  have g: "good small_layout 1 1 {} (small_bus (0 :: nat))"
    using new_publisher_inv [OF small_layout_ok, of 100 "0 :: nat"] by (simp add: pub_inv_def small_cfg_def)
  have l: "pow2_layout small_layout" by (rule layout_ok_pow2 [OF small_layout_ok])
  have q: "data_queue small_layout (slot (small_bus (0 :: nat)) 0) = []"
    "overflow (slot (small_bus (0 :: nat)) 0) = DropOldest"
    "unat (queue_capacity small_layout) = 1"
    by (simp_all add: data_queue_def slot_def small_defs overflow_consts)
  show ?thesis
    using deliver_policies [OF ot g _ _ l, of 0 0 "\<lparr>rep_seq = 1, rep_delivered = 0, rep_evicted = 0,
      rep_rejected = 0, rep_block_timeouts = 0\<rparr>"] by (auto simp: q idle_at_def)
qed

section \<open>What the subscribers must not do\<close>

text \<open>
  The configuration fields the publisher checks against are read from the shared header. A process
  that raises the chunk count there defeats the bounds check on its own completions: the publisher
  then accesses its private counters out of bounds.
\<close>

definition rewrites_header :: "unit os" where
  "rewrites_header = quiet_os\<lparr>interfere := (\<lambda>w. w\<lparr>
     hdr := (hdr w)\<lparr>h_layout := (h_layout (hdr w))\<lparr>chunk_count := 4\<rparr>\<rparr>,
     slots := [(slots w ! 0)\<lparr>slot_state := SlotClosing, done_head := 1, rings := [0, 3, 0, 0, 0]\<rparr>]\<rparr>)\<rparr>"

lemma header_unprotected: "wild (priv (scan_slots rewrites_header (small_bus ())))"
  by code_simp

text \<open>
  The overflow policy of a slot is read twice while the list of active slots is rebuilt. A subscriber
  that changes it in between is listed twice; with a full queue the second delivery evicts the sample
  that the first one queued, which frees the chunk, and queues it again. The chunk is then free and
  referenced, and the next loan hands it out while the subscriber can still read it.
\<close>

definition flips_policy :: "nat os" where
  "flips_policy = quiet_os\<lparr>interfere := (\<lambda>w. w\<lparr>env := env w + 1,
     slots := [(slots w ! 0)\<lparr>slot_state := SlotActive,
                overflow := (if env w = 3 then Block else DropOldest)\<rparr>]\<rparr>)\<rparr>"

definition flip_start :: "nat publisher" where
  "flip_start = scan_slots flips_policy
     (stamp_chunk flips_policy 0 (snd (loan flips_policy (small_bus 0))))"

definition flip_first :: "nat publisher" where
  "flip_first = enqueue flips_policy 0 1 0 0 (sync flips_policy (sync flips_policy flip_start))"

definition flip_evicted :: "nat publisher" where
  "flip_evicted = snd (evict flips_policy 0 1 0 \<lparr>rep_seq = 1, rep_delivered = 1, rep_evicted = 0,
     rep_rejected = 0, rep_block_timeouts = 0\<rparr> (sync flips_policy (sync flips_policy flip_first)))"

definition flip_second :: "nat publisher" where
  "flip_second = enqueue flips_policy 0 1 1 0 (sync flips_policy flip_evicted)"

abbreviation flip_report :: "u32 \<Rightarrow> u32 \<Rightarrow> send_report" where
  "flip_report d e \<equiv> \<lparr>rep_seq = 1, rep_delivered = d, rep_evicted = e, rep_rejected = 0, rep_block_timeouts = 0\<rparr>"

lemma flip_values:
  "active_list (priv flip_start) = [0, 0]" "free_list (priv flip_second) = [0, 1, 2]"
  "refcount (priv flip_second) = [1, 0, 0]" "liveness_every (priv flip_second) = 0"
  "loans_out (priv flip_second) = 0" "max_loans (hdr (shm flip_second)) = 1" "active_list (priv flip_second) = [0, 0]"
  by code_simp+

lemma flip_delivers_first:
  "deliver flips_policy 0 0 (flip_report 0 0, flip_start) = Some (flip_report 1 0, flip_first)"
proof -
  let ?p1 = "sync flips_policy flip_start"
  have "slot_check 0 ?p1 = ?p1" by code_simp
  moreover have "lay ?p1 = small_layout" "data_head (slot ?p1 0) = 0" "data_tail (slot (sync flips_policy ?p1) 0) = 0"
    by code_simp+
  ultimately show ?thesis
    using deliver_room [of ?p1 0 flips_policy flip_start "sync flips_policy ?p1" 1 0 "flip_report 0 0"]
    by (simp add: small_layout_def flip_first_def)
qed

lemma flip_delivers_second:
  "deliver flips_policy 0 0 (flip_report 1 0, flip_first) = Some (flip_report 2 1, flip_second)"
proof -
  let ?p1 = "sync flips_policy flip_first"
  have sc: "slot_check 0 ?p1 = ?p1" by code_simp
  have v: "lay ?p1 = small_layout" "data_head (slot ?p1 0) = 1" "data_tail (slot (sync flips_policy ?p1) 0) = 0"
    "overflow (slot ?p1 0) = DropOldest" "data_tail (slot (sync flips_policy flip_evicted) 0) = 1"
    by code_simp+
  have "fst (evict flips_policy 0 1 0 (flip_report 1 0) (sync flips_policy ?p1)) = flip_report 1 1" by code_simp
  then have ev: "evict flips_policy 0 1 0 (flip_report 1 0) (sync flips_policy ?p1) = (flip_report 1 1, flip_evicted)"
    by (simp add: flip_evicted_def prod_eq_iff)
  show ?thesis
    using deliver_evicts [of ?p1 0 flips_policy flip_first "sync flips_policy ?p1" 1 "flip_report 1 0"
        "flip_report 1 1" flip_evicted "sync flips_policy flip_evicted" 0] sc v ev
    by (simp add: small_layout_def flip_second_def)
qed

lemma policy_flip_breaks:
  defines "p \<equiv> snd (loan flips_policy (small_bus 0))"
  shows "\<exists>rep p'. pub_run flips_policy (small_bus 0) {0} p \<and> send flips_policy 0 p = Some (rep, p') \<and>
    refs (priv p') 0 = 1 \<and> 0 \<in> set (free_list (priv p'))"
proof -
  have "fst (loan flips_policy (small_bus 0)) = Inr 0" by code_simp
  then have "loan flips_policy (small_bus 0) = (Inr 0, p)" by (simp add: p_def prod_eq_iff)
  then have run: "pub_run flips_policy (small_bus 0) {0} p" by (rule pub_run.loan_ok [OF pub_run.start])
  let ?p' = "upd_hdr (\<lambda>h. h\<lparr>published := published h + 1\<rparr>) (upd_priv (free_unused 0) flip_second)"
  have "next_seq (priv p) = 1" unfolding p_def by code_simp
  moreover have "scan_slots flips_policy (stamp_chunk flips_policy 0 p) = flip_start"
    by (simp add: flip_start_def p_def)
  ultimately have "send flips_policy 0 p = Some (flip_report 2 1, liveness_due flips_policy ?p')"
    using flip_delivers_first flip_delivers_second
    by (simp add: send_def Let_def flip_values)
  moreover have "priv (liveness_due flips_policy ?p') = priv flip_second"
    by (simp add: liveness_due_def free_unused_def flip_values)
  ultimately show ?thesis using run by (intro exI conjI) (assumption, assumption, simp_all add: flip_values refs_def)
qed

text \<open>
  A service whose name contains the phrase that marks a live publisher cannot be created, even when
  no segment of that name exists.
\<close>

lemma live_publisher_name:
  assumes "contains ''live publisher'' (shm_name service)" "found sp (shm_name service) = None"
    "cfg_max_subscribers cfg \<noteq> 0"
  shows "\<exists>err calls. create_publisher os sp pid e service type cfg \<in> {None, Some (Inl err, calls)}"
  using assms by (auto simp: create_publisher_def reclaim_stale_def Let_def split: option.splits)

lemma live_publisher_name_used: "contains ''live publisher'' (shm_name ''live publisher/frames'')"
  by code_simp

end
