(* ===== verification/Spec2Isabelle.thy ===== *)
theory Spec2Isabelle
  imports Backpressure Service_Control Devbus_Runs
begin

text \<open>
  A verification library for the embedded acquisition platform: an STM32 board that produces
  samples and serves them over a register protocol on SPI, a Linux driver that drains them, and
  a user-space service that publishes them.

  Theories, in the order data flows:

  \<^item> \<open>Prelude\<close>: widths, big-endian words, ring views, flag masks.
  \<^item> \<open>Queue_Interface\<close>: the contract of a bounded queue, as a locale.
  \<^item> \<open>Mcu_Fifo\<close>, \<open>Devauth\<close>, \<open>Hal\<close>, \<open>Mcu_Firmware\<close>, \<open>Mcu_Protocol\<close>: the firmware
    (Core/Src/main.c, Core/Src/devauth.c) and the HAL functions it runs on.
\<close>

end
